(* ===== verification/Prelude.thy ===== *)
theory Prelude
  imports Main "HOL-Library.Word" "HOL-Library.AList" "HOL-Library.Multiset" "HOL-Library.List_Lexorder"
begin

text \<open>
  Shared vocabulary of the development.

  A JavaScript string is a list of UTF-16 code units (\<open>16 word\<close>), so that
  \<open>length\<close>, indexing, slicing and \<open><\<close> (code unit order, from
  HOL-Library.List_Lexorder) mean what they mean in the source.  A JavaScript
  \<open>Map\<close> is an association list without repeated keys: \<open>AList.update\<close> keeps the
  place of a key already present and appends a new one, which is the iteration
  order of the source, and \<open>AList.delete\<close> removes the key.  A \<open>Set\<close> is a list
  without repetitions in insertion order.
\<close>

section \<open>Strings\<close>

type_synonym cu = "16 word"
type_synonym jsstr = "cu list"

text \<open>String literals of the source (ASCII).\<close>

definition js :: "string \<Rightarrow> jsstr" where
  "js s = map of_char s"

text \<open>\<open>xs.slice(i, j)\<close> for \<open>0 \<le> i\<close> and \<open>0 \<le> j\<close>: both ends are clamped, an
  empty range gives the empty result.\<close>

definition jsSlice :: "nat \<Rightarrow> nat \<Rightarrow> 'a list \<Rightarrow> 'a list" where
  "jsSlice i j xs = take (j - i) (drop i xs)"

text \<open>White space of \<open>String.prototype.trim\<close> and of \<open>\s\<close> in a regular expression.\<close>

definition isSpace :: "cu \<Rightarrow> bool" where
  "isSpace c \<longleftrightarrow> (9 \<le> c \<and> c \<le> 13) \<or> c = 32 \<or> c = 0xA0 \<or> c = 0x1680
     \<or> (0x2000 \<le> c \<and> c \<le> 0x200A) \<or> c = 0x2028 \<or> c = 0x2029 \<or> c = 0x202F
     \<or> c = 0x205F \<or> c = 0x3000 \<or> c = 0xFEFF"

definition trim :: "jsstr \<Rightarrow> jsstr" where
  "trim s = rev (dropWhile isSpace (rev (dropWhile isSpace s)))"

text \<open>\<open>s.split(c)\<close> and \<open>parts.join(c)\<close> for a separator of one code unit.\<close>

fun splitOn :: "'a \<Rightarrow> 'a list \<Rightarrow> 'a list list" where
  "splitOn c [] = [[]]"
| "splitOn c (x # xs) =
     (if x = c then [] # splitOn c xs
      else (case splitOn c xs of [] \<Rightarrow> [[x]] | l # ls \<Rightarrow> (x # l) # ls))"

fun joinWith :: "'a \<Rightarrow> 'a list list \<Rightarrow> 'a list" where
  "joinWith c [] = []"
| "joinWith c [l] = l"
| "joinWith c (l # l' # ls) = l @ c # joinWith c (l' # ls)"

text \<open>\<open>xs.indexOf(x)\<close>: the first position, \<open>None\<close> for -1.\<close>

fun indexOf :: "'a \<Rightarrow> 'a list \<Rightarrow> nat option" where
  "indexOf c [] = None"
| "indexOf c (d # ds) = (if c = d then Some 0 else map_option Suc (indexOf c ds))"

text \<open>\<open>xs.sort(cmp)\<close> is stable; for a comparison that is a total preorder every stable sort
  gives the same list.\<close>

fun insertBy :: "('a \<Rightarrow> 'a \<Rightarrow> bool) \<Rightarrow> 'a \<Rightarrow> 'a list \<Rightarrow> 'a list" where
  "insertBy le x [] = [x]"
| "insertBy le x (y # ys) = (if le x y then x # y # ys else y # insertBy le x ys)"

definition sortBy :: "('a \<Rightarrow> 'a \<Rightarrow> bool) \<Rightarrow> 'a list \<Rightarrow> 'a list" where
  "sortBy le xs = foldr (insertBy le) xs []"

text \<open>\<open>new Set(xs)\<close>: the first occurrences, in order.\<close>

definition setAdd :: "'a \<Rightarrow> 'a list \<Rightarrow> 'a list" where
  "setAdd x s = (if x \<in> set s then s else s @ [x])"

definition setOf :: "'a list \<Rightarrow> 'a list" where
  "setOf xs = fold setAdd xs []"

text \<open>\<open>String(n)\<close> for an integer.\<close>

fun natText :: "nat \<Rightarrow> jsstr" where
  "natText n = (if n < 10 then [48 + of_nat n] else natText (n div 10) @ [48 + of_nat (n mod 10)])"

declare natText.simps [simp del]

definition jsIntText :: "int \<Rightarrow> jsstr" where
  "jsIntText i = (if i < 0 then 45 # natText (nat (- i)) else natText (nat i))"

abbreviation newline :: cu where "newline \<equiv> 10"

text \<open>JSON values; numbers are integers.\<close>

datatype json = JNull | JBool bool | JNum int | JStr jsstr | JArr "json list"
  | JObj "(jsstr \<times> json) list"

type_synonym obj = "(jsstr \<times> json) list"

text \<open>Surrogates, and strings in which they come in pairs.\<close>

definition isHighSurrogate :: "cu \<Rightarrow> bool" where
  "isHighSurrogate c \<longleftrightarrow> 0xD800 \<le> c \<and> c \<le> 0xDBFF"

definition isLowSurrogate :: "cu \<Rightarrow> bool" where
  "isLowSurrogate c \<longleftrightarrow> 0xDC00 \<le> c \<and> c \<le> 0xDFFF"

fun wellFormed :: "jsstr \<Rightarrow> bool" where
  "wellFormed [] = True"
| "wellFormed [c] = (\<not> isLowSurrogate c \<and> \<not> isHighSurrogate c)"
| "wellFormed (c # d # cs) =
     (if isLowSurrogate c then False
      else if isHighSurrogate c then isLowSurrogate d \<and> wellFormed cs
      else wellFormed (d # cs))"

section \<open>Collections of rules\<close>

named_theorems patch_simps \<open>evaluation of text patches on concatenations\<close>
named_theorems store_simps \<open>lookup after an update of a store\<close>

section \<open>Lists\<close>

lemma jsSlice_0 [simp]: "jsSlice 0 n xs = take n xs"
  by (simp add: jsSlice_def)

lemma jsSlice_same [simp]: "jsSlice i i xs = []"
  by (simp add: jsSlice_def)

lemma length_jsSlice [simp]: "length (jsSlice i j xs) = min (j - i) (length xs - i)"
  by (simp add: jsSlice_def min.commute)

lemma take_append_jsSlice: "i \<le> j \<Longrightarrow> take i xs @ jsSlice i j xs = take j xs"
  by (simp add: jsSlice_def flip: take_add)

lemma jsSlice_append_drop: "i \<le> j \<Longrightarrow> jsSlice i j xs @ drop j xs = drop i xs"
  by (metis jsSlice_def append_take_drop_id drop_drop le_add_diff_inverse2)

lemma take_jsSlice_drop: "i \<le> j \<Longrightarrow> take i xs @ jsSlice i j xs @ drop j xs = xs"
  by (simp add: jsSlice_append_drop)

lemma jsSlice_append_jsSlice:
  assumes "i \<le> j" "j \<le> k"
  shows "jsSlice i j xs @ jsSlice j k xs = jsSlice i k xs"
proof -
  have "jsSlice i k xs = take ((j - i) + (k - j)) (drop i xs)"
    using assms by (simp add: jsSlice_def)
  also have "\<dots> = jsSlice i j xs @ jsSlice j k xs"
    using assms by (simp only: take_add) (simp add: jsSlice_def)
  finally show ?thesis by simp
qed

lemma take_drop_cover:
  "p + s \<le> length b \<Longrightarrow> take p b @ jsSlice p (length b - s) b @ drop (length b - s) b = b"
  by (rule take_jsSlice_drop) simp

section \<open>Counting loops\<close>

text \<open>\<open>while (i < max && P(i)) i++\<close>, started at \<open>i\<close>.\<close>

function scanWhile :: "nat \<Rightarrow> (nat \<Rightarrow> bool) \<Rightarrow> nat \<Rightarrow> nat" where
  "scanWhile mx P i = (if i < mx \<and> P i then scanWhile mx P (Suc i) else i)"
  by pat_completeness auto
termination
  by (relation "measure (\<lambda>(mx, P, i). mx - i)") auto

declare scanWhile.simps [simp del]

lemma scanWhile_spec:
  assumes "i \<le> mx"
  shows "i \<le> scanWhile mx P i" "scanWhile mx P i \<le> mx"
    "\<forall>j. i \<le> j \<and> j < scanWhile mx P i \<longrightarrow> P j"
    "scanWhile mx P i < mx \<longrightarrow> \<not> P (scanWhile mx P i)"
proof -
  have "i \<le> scanWhile mx P i \<and> scanWhile mx P i \<le> mx
    \<and> (\<forall>j. i \<le> j \<and> j < scanWhile mx P i \<longrightarrow> P j)
    \<and> (scanWhile mx P i < mx \<longrightarrow> \<not> P (scanWhile mx P i))"
    using assms
  proof (induction mx P i rule: scanWhile.induct)
    case (1 mx P i)
    show ?case
    proof (cases "i < mx \<and> P i")
      case True
      with 1 show ?thesis
        by (auto simp: scanWhile.simps [of mx P i] le_eq_less_or_eq [of i] Suc_le_eq)
    next
      case False
      with 1 show ?thesis by (auto simp: scanWhile.simps [of mx P i])
    qed
  qed
  then show "i \<le> scanWhile mx P i" "scanWhile mx P i \<le> mx"
    "\<forall>j. i \<le> j \<and> j < scanWhile mx P i \<longrightarrow> P j"
    "scanWhile mx P i < mx \<longrightarrow> \<not> P (scanWhile mx P i)"
    by auto
qed

section \<open>Splitting and joining\<close>

lemma splitOn_not_Nil [simp]: "splitOn c xs \<noteq> []"
  by (induction xs) (auto split: list.splits)

lemma joinWith_Cons: "ls \<noteq> [] \<Longrightarrow> joinWith c (l # ls) = l @ c # joinWith c ls"
  by (cases ls) auto

lemma joinWith_splitOn [simp]: "joinWith c (splitOn c xs) = xs"
proof (induction xs)
  case (Cons x xs)
  show ?case
  proof (cases "splitOn c xs")
    case (Cons l ls)
    then show ?thesis using Cons.IH by (cases ls) auto
  qed simp
qed simp

lemma splitOn_Cons_other:
  "x \<noteq> c \<Longrightarrow> splitOn c (x # xs) = (x # hd (splitOn c xs)) # tl (splitOn c xs)"
  by (simp split: list.splits)

lemma splitOn_sep_free: "l \<in> set (splitOn c xs) \<Longrightarrow> c \<notin> set l"
proof (induction xs arbitrary: l)
  case (Cons x xs)
  show ?case
  proof (cases "x = c")
    case False
    then have l: "l = x # hd (splitOn c xs) \<or> l \<in> set (tl (splitOn c xs))"
      using Cons.prems by (simp add: splitOn_Cons_other del: splitOn.simps)
    have "hd (splitOn c xs) \<in> set (splitOn c xs)" by (rule hd_in_set) (rule splitOn_not_Nil)
    moreover have "set (tl (splitOn c xs)) \<subseteq> set (splitOn c xs)"
      by (metis list.set_sel(2) subsetI splitOn_not_Nil)
    ultimately show ?thesis using l Cons.IH False by auto
  qed (use Cons in auto)
qed simp

lemma splitOn_append_sep:
  "c \<notin> set l \<Longrightarrow> splitOn c (l @ c # xs) = l # splitOn c xs"
  by (induction l) auto

lemma splitOn_single: "c \<notin> set l \<Longrightarrow> splitOn c l = [l]"
  by (induction l) auto

lemma splitOn_joinWith:
  "ls \<noteq> [] \<Longrightarrow> \<forall>l \<in> set ls. c \<notin> set l \<Longrightarrow> splitOn c (joinWith c ls) = ls"
  by (induction c ls rule: joinWith.induct) (auto simp: splitOn_append_sep splitOn_single)

lemma joinWith_append:
  "xs \<noteq> [] \<Longrightarrow> ys \<noteq> [] \<Longrightarrow> joinWith c (xs @ ys) = joinWith c xs @ c # joinWith c ys"
  by (induction c xs rule: joinWith.induct) (auto simp: joinWith_Cons)

lemma indexOf_Some: "indexOf c ds = Some v \<Longrightarrow> v < length ds \<and> ds ! v = c"
  by (induction ds arbitrary: v) (auto split: if_splits)

lemma indexOf_None: "indexOf c ds = None \<longleftrightarrow> c \<notin> set ds"
  by (induction ds) auto

lemma indexOf_mem: "x \<in> set xs \<Longrightarrow> \<exists>n. indexOf x xs = Some n \<and> n < length xs \<and> xs ! n = x"
  using indexOf_None indexOf_Some by (metis option.exhaust)

section \<open>Sorting and sets\<close>

lemma set_insertBy [simp]: "set (insertBy le x ys) = insert x (set ys)"
  by (induction ys) auto

lemma mset_insertBy [simp]: "mset (insertBy le x ys) = add_mset x (mset ys)"
  by (induction ys) auto

lemma mset_sortBy [simp]: "mset (sortBy le xs) = mset xs"
  unfolding sortBy_def by (induction xs) auto

lemma set_sortBy [simp]: "set (sortBy le xs) = set xs"
  by (metis mset_sortBy set_mset_mset)

lemma length_sortBy [simp]: "length (sortBy le xs) = length xs"
  by (metis mset_sortBy size_mset)

text \<open>\<open>le\<close> is a total preorder on \<open>A\<close>.\<close>

definition preorder_on_set :: "('a \<Rightarrow> 'a \<Rightarrow> bool) \<Rightarrow> 'a set \<Rightarrow> bool" where
  "preorder_on_set le A \<longleftrightarrow> (\<forall>a \<in> A. \<forall>b \<in> A. le a b \<or> le b a) \<and> transp_on A le"

lemma sorted_insertBy:
  assumes "preorder_on_set le A"
  shows "x \<in> A \<Longrightarrow> set ys \<subseteq> A \<Longrightarrow> sorted_wrt le ys \<Longrightarrow> sorted_wrt le (insertBy le x ys)"
proof (induction ys)
  case (Cons y ys)
  show ?case
  proof (cases "le x y")
    case True
    have "le x z" if "z \<in> set ys" for z
    proof (rule transp_onD [of A le x y z])
      show "transp_on A le" using assms unfolding preorder_on_set_def by blast
      show "x \<in> A" "y \<in> A" "z \<in> A" using Cons.prems that by (simp_all add: subset_eq)
      show "le x y" by (rule True)
      show "le y z" using Cons.prems(3) that by simp
    qed
    then show ?thesis using True Cons.prems(3) by simp
  next
    case False
    moreover have "x \<in> A" "y \<in> A" using Cons.prems by simp_all
    ultimately have "le y x" using assms unfolding preorder_on_set_def by blast
    moreover have "sorted_wrt le (insertBy le x ys)" using Cons by simp
    ultimately show ?thesis using False Cons.prems(3) by simp
  qed
qed simp

lemma sorted_sortBy:
  assumes "preorder_on_set le A"
  shows "set xs \<subseteq> A \<Longrightarrow> sorted_wrt le (sortBy le xs)"
proof (induction xs)
  case (Cons x xs)
  then have "sorted_wrt le (insertBy le x (sortBy le xs))"
    by (intro sorted_insertBy [OF assms]) simp_all
  then show ?case by (simp add: sortBy_def)
qed (simp add: sortBy_def)

lemma set_setAdd [simp]: "set (setAdd x s) = insert x (set s)"
  by (auto simp: setAdd_def)

lemma distinct_setAdd [simp]: "distinct (setAdd x s) = distinct s"
  by (auto simp: setAdd_def)

lemma set_fold_setAdd: "set (fold setAdd xs s) = set s \<union> set xs"
  by (induction xs arbitrary: s) auto

lemma distinct_fold_setAdd: "distinct s \<Longrightarrow> distinct (fold setAdd xs s)"
  by (induction xs arbitrary: s) auto

lemma set_setOf [simp]: "set (setOf xs) = set xs"
  by (simp add: setOf_def set_fold_setAdd)

lemma distinct_setOf [simp]: "distinct (setOf xs)"
  by (simp add: setOf_def distinct_fold_setAdd)

section \<open>Keyed stores\<close>

text \<open>A component that keeps one value per key, as a \<open>Map\<close> of the source does: the value last
  added under a key is read back until it is removed, other keys are not touched.\<close>

datatype ('k, 'v) store_op = StAdd 'v | StRemove 'k

text \<open>What the last operation on a key leaves there; \<open>None\<close> when no operation touches it.\<close>

fun lastWrite :: "('v \<Rightarrow> 'k) \<Rightarrow> 'k \<Rightarrow> ('k, 'v) store_op list \<Rightarrow> 'v option option" where
  "lastWrite key k [] = None"
| "lastWrite key k (x # xs) =
     (case lastWrite key k xs of
        Some r \<Rightarrow> Some r
      | None \<Rightarrow> (case x of
          StAdd v \<Rightarrow> if key v = k then Some (Some v) else None
        | StRemove j \<Rightarrow> if j = k then Some None else None))"

locale keyed_store =
  fixes key :: "'v \<Rightarrow> 'k"
    and add :: "'v \<Rightarrow> 's \<Rightarrow> 's"
    and remove :: "'k \<Rightarrow> 's \<Rightarrow> 's"
    and get :: "'k \<Rightarrow> 's \<Rightarrow> 'v option"
  assumes get_add: "get k (add v s) = (if key v = k then Some v else get k s)"
    and get_remove: "get k (remove j s) = (if j = k then None else get k s)"

context keyed_store begin

definition apply_op :: "('k, 'v) store_op \<Rightarrow> 's \<Rightarrow> 's" where
  "apply_op x s = (case x of StAdd v \<Rightarrow> add v s | StRemove k \<Rightarrow> remove k s)"

lemma get_fold:
  "get k (fold apply_op xs s) =
     (case lastWrite key k xs of None \<Rightarrow> get k s | Some r \<Rightarrow> r)"
  by (induction xs arbitrary: s)
    (auto simp: apply_op_def get_add get_remove split: store_op.splits option.splits)

lemma get_from_empty:
  "get k s = None \<Longrightarrow> get k (fold apply_op xs s) = Some v \<longleftrightarrow> lastWrite key k xs = Some (Some v)"
  by (simp add: get_fold split: option.splits)

end

section \<open>Surrogate pairs\<close>

lemma high_not_low: "isHighSurrogate c \<Longrightarrow> \<not> isLowSurrogate c"
  unfolding isHighSurrogate_def isLowSurrogate_def
  using order_trans [of "0xDC00" c "0xDBFF"] by auto

lemma wellFormed_append:
  "wellFormed xs \<Longrightarrow> wellFormed (xs @ ys) \<longleftrightarrow> wellFormed ys"
proof (induction xs rule: wellFormed.induct)
  case (2 c)
  then show ?case by (cases ys) auto
qed (auto split: if_splits)

lemma wellFormed_last_not_high:
  "wellFormed xs \<Longrightarrow> xs \<noteq> [] \<Longrightarrow> \<not> isHighSurrogate (last xs)"
proof (induction xs rule: wellFormed.induct)
  case (3 c d cs)
  then show ?case by (cases cs) (auto split: if_splits dest: high_not_low)
qed auto

lemma wellFormed_prefix:
  "wellFormed (xs @ ys) \<Longrightarrow> xs = [] \<or> \<not> isHighSurrogate (last xs) \<Longrightarrow> wellFormed xs"
proof (induction xs rule: wellFormed.induct)
  case (2 c)
  then show ?case by (cases ys) (auto split: if_splits)
next
  case (3 c d cs)
  then show ?case by (cases cs) (auto split: if_splits)
qed auto

text \<open>Cutting off a prefix: only a cut inside a pair leaves an ill-formed rest.\<close>

lemma wellFormed_suffix:
  assumes "wellFormed (xs @ ys)" "ys = [] \<or> \<not> isLowSurrogate (hd ys)"
  shows "wellFormed ys"
  using assms
proof (induction xs rule: wellFormed.induct)
  case (2 c)
  then show ?case by (cases ys) (auto split: if_splits)
next
  case (3 c d cs)
  then show ?case by (auto split: if_splits)
qed auto

text \<open>Every high surrogate is followed by a low one, every low one follows a high one.\<close>

lemma wellFormed_hd: "wellFormed xs \<Longrightarrow> xs \<noteq> [] \<Longrightarrow> \<not> isLowSurrogate (hd xs)"
  by (cases xs rule: wellFormed.cases) (auto split: if_splits)

lemma wellFormed_high:
  assumes "wellFormed xs" "i < length xs" "isHighSurrogate (xs ! i)"
  shows "Suc i < length xs \<and> isLowSurrogate (xs ! Suc i)"
proof -
  have d: "drop i xs = xs ! i # drop (Suc i) xs" using assms(2) by (simp add: Cons_nth_drop_Suc)
  have "wellFormed (drop i xs)"
    using wellFormed_suffix [of "take i xs" "drop i xs"] assms high_not_low
    by (simp add: hd_drop_conv_nth)
  then have "drop (Suc i) xs \<noteq> [] \<and> isLowSurrogate (hd (drop (Suc i) xs))"
    using assms(3) high_not_low unfolding d by (cases "drop (Suc i) xs") auto
  then show ?thesis by (auto simp: hd_drop_conv_nth)
qed

lemma wellFormed_low:
  assumes "wellFormed xs" "i < length xs" "isLowSurrogate (xs ! i)"
  shows "0 < i \<and> isHighSurrogate (xs ! (i - 1))"
proof (rule ccontr)
  assume n: "\<not> (0 < i \<and> isHighSurrogate (xs ! (i - 1)))"
  then have "take i xs = [] \<or> \<not> isHighSurrogate (last (take i xs))"
    using assms(2) by (auto simp: last_conv_nth)
  then have "wellFormed (take i xs)"
    using assms(1) wellFormed_prefix [of "take i xs" "drop i xs"] by simp
  then have "wellFormed (drop i xs)"
    using assms(1) wellFormed_append [of "take i xs" "drop i xs"] by simp
  then show False using wellFormed_hd [of "drop i xs"] assms(2,3) by (simp add: hd_drop_conv_nth)
qed

lemma wellFormed_left:
  assumes "wellFormed (xs @ ys)" "wellFormed ys"
  shows "wellFormed xs"
proof (rule wellFormed_prefix [OF assms(1)], rule ccontr)
  assume "\<not> (xs = [] \<or> \<not> isHighSurrogate (last xs))"
  then have h: "xs \<noteq> []" "isHighSurrogate (last xs)" by auto
  then have "isHighSurrogate ((xs @ ys) ! (length xs - 1))"
    by (simp add: last_conv_nth nth_append)
  moreover have "length xs - 1 < length (xs @ ys)" "Suc (length xs - 1) = length xs"
    using h(1) by (cases xs; simp)+
  ultimately have "ys \<noteq> []" "isLowSurrogate (ys ! 0)"
    using wellFormed_high [OF assms(1), of "length xs - 1"] by (auto simp: nth_append)
  then show False using wellFormed_low [OF assms(2), of 0] by simp
qed

end
