(* ===== verification/TextPatch.thy ===== *)
theory TextPatch
  imports Prelude
begin

text \<open>
  Minimal text changes, as four parts of the program compute them before they write
  into a shared (CRDT) text: the outline view (\<open>diffToChange\<close>, \<open>diffToChanges\<close>), the
  front matter editor (\<open>minimalTextChange\<close>) and the mind map (\<open>textEdit\<close>,
  \<open>topicDelta\<close>).  Each one strips the common prefix and the common suffix; the laws a
  writer of such changes relies on are the locales \<open>text_differ\<close> and
  \<open>quiet_differ\<close>, interpreted on every one of them.
\<close>

section \<open>The contract of a text differ\<close>

locale text_differ =
  fixes diff :: "'t \<Rightarrow> 't \<Rightarrow> 'p"
    and patch :: "'t \<Rightarrow> 'p \<Rightarrow> 't"
  assumes patch_diff: "patch a (diff a b) = b"

primrec patches :: "('t \<Rightarrow> 't \<Rightarrow> 'p) \<Rightarrow> 't \<Rightarrow> 't list \<Rightarrow> 'p list" where
  "patches d v [] = []"
| "patches d v (w # ws) = d v w # patches d w ws"

context text_differ begin

lemma diff_inject: "diff a b = diff a c \<Longrightarrow> b = c"
  by (metis patch_diff)

text \<open>A reader that replays the changes of a history of versions ends with the last one.\<close>

lemma replay: "foldl patch v (patches diff v ws) = last (v # ws)"
  by (induction ws arbitrary: v) (auto simp: patch_diff)

end

text \<open>The editors also skip the write when there is nothing to say.\<close>

locale quiet_differ = text_differ +
  fixes nothing :: 'b
  assumes diff_refl: "diff a a = nothing"
    and patch_nothing: "patch a nothing = a"
begin

lemma diff_nothing_iff: "diff a b = nothing \<longleftrightarrow> a = b"
  by (metis diff_refl patch_diff patch_nothing)

lemma patches_quiet:
  "(\<forall>p \<in> set (patches diff v ws). p = nothing) \<longleftrightarrow> (\<forall>w \<in> set ws. w = v)"
  by (induction ws arbitrary: v) (auto simp: diff_nothing_iff)

end

section \<open>Common prefixes and suffixes\<close>

definition commonFrom :: "'a list \<Rightarrow> 'a list \<Rightarrow> nat" where
  "commonFrom a b = scanWhile (min (length a) (length b)) (\<lambda>i. a ! i = b ! i) 0"

definition commonTo :: "nat \<Rightarrow> 'a list \<Rightarrow> 'a list \<Rightarrow> nat" where
  "commonTo mx a b =
     scanWhile mx (\<lambda>i. a ! (length a - 1 - i) = b ! (length b - 1 - i)) 0"

lemma take_eqI:
  assumes "p \<le> length a" "p \<le> length b" "\<forall>j < p. a ! j = b ! j"
  shows "take p a = take p b"
  using assms by (intro nth_equalityI) auto

lemma drop_eqI:
  assumes "s \<le> length a" "s \<le> length b"
    and eq: "\<forall>j < s. a ! (length a - 1 - j) = b ! (length b - 1 - j)"
  shows "drop (length a - s) a = drop (length b - s) b"
proof (rule nth_equalityI)
  show "length (drop (length a - s) a) = length (drop (length b - s) b)"
    using assms by simp
next
  fix i assume "i < length (drop (length a - s) a)"
  then have i: "i < s" using assms by simp
  have "length a - 1 - (s - 1 - i) = length a - s + i"
    "length b - 1 - (s - 1 - i) = length b - s + i" using i assms by auto
  moreover have "s - 1 - i < s" using i by simp
  ultimately have "a ! (length a - s + i) = b ! (length b - s + i)"
    using eq by metis
  then show "drop (length a - s) a ! i = drop (length b - s) b ! i"
    using assms i by simp
qed

lemma nth_drop_end:
  assumes "s < r" "r \<le> length xs"
  shows "xs ! (length xs - 1 - s) = drop (length xs - r) xs ! (r - 1 - s)"
proof -
  have "length xs - r + (r - 1 - s) = length xs - 1 - s" using assms by auto
  then show ?thesis using assms by simp
qed

lemma commonFrom_spec:
  "commonFrom a b \<le> length a" "commonFrom a b \<le> length b"
  "take (commonFrom a b) a = take (commonFrom a b) b"
  "commonFrom a b < length a \<Longrightarrow> commonFrom a b < length b
     \<Longrightarrow> a ! commonFrom a b \<noteq> b ! commonFrom a b"
proof -
  let ?P = "\<lambda>i. a ! i = b ! i" and ?m = "min (length a) (length b)"
  note spec = scanWhile_spec [of 0 ?m ?P, OF le0, folded commonFrom_def]
  show le: "commonFrom a b \<le> length a" "commonFrom a b \<le> length b"
    using spec(2) by auto
  show "take (commonFrom a b) a = take (commonFrom a b) b"
    using le spec(3) by (intro take_eqI) auto
  show "a ! commonFrom a b \<noteq> b ! commonFrom a b"
    if "commonFrom a b < length a" "commonFrom a b < length b"
    using spec(4) that by auto
qed

text \<open>No common prefix is longer.\<close>

lemma commonFrom_greatest:
  assumes "take q a = take q b" "q \<le> length a" "q \<le> length b"
  shows "q \<le> commonFrom a b"
proof (rule ccontr)
  assume "\<not> q \<le> commonFrom a b"
  then have less: "commonFrom a b < q" by simp
  then have "a ! commonFrom a b = b ! commonFrom a b"
    by (metis assms(1) nth_take)
  then show False using commonFrom_spec(4) [of a b] less assms by auto
qed

lemma commonTo_spec:
  assumes "mx \<le> length a" "mx \<le> length b"
  shows "commonTo mx a b \<le> mx"
    and "drop (length a - commonTo mx a b) a = drop (length b - commonTo mx a b) b"
    and "commonTo mx a b < mx \<Longrightarrow>
      a ! (length a - 1 - commonTo mx a b) \<noteq> b ! (length b - 1 - commonTo mx a b)"
proof -
  let ?P = "\<lambda>i. a ! (length a - 1 - i) = b ! (length b - 1 - i)"
  note spec = scanWhile_spec [of 0 mx ?P, OF le0, folded commonTo_def]
  show le: "commonTo mx a b \<le> mx" by (rule spec(2))
  show "drop (length a - commonTo mx a b) a = drop (length b - commonTo mx a b) b"
    using le assms spec(3) by (intro drop_eqI) auto
  show "a ! (length a - 1 - commonTo mx a b) \<noteq> b ! (length b - 1 - commonTo mx a b)"
    if "commonTo mx a b < mx"
    using spec(4) that by auto
qed

text \<open>Replacing the middle: the one fact behind every minimal change below.\<close>

lemma replace_middle:
  assumes "p + s \<le> length b" "take p a = take p b"
    and "drop (length a - s) a = drop (length b - s) b"
  shows "take p a @ jsSlice p (length b - s) b @ drop (length a - s) a = b"
  using assms take_drop_cover [of p s b] by simp

section \<open>Replacing one range\<close>

text \<open>The shape \<open>{ from, to, insert }\<close> of the outline and front matter editors.\<close>

record 'a text_change =
  chFrom :: nat
  chTo :: nat
  chInsert :: "'a list"

definition applyChange :: "'a list \<Rightarrow> 'a text_change option \<Rightarrow> 'a list" where
  "applyChange a c = (case c of None \<Rightarrow> a
     | Some ch \<Rightarrow> take (chFrom ch) a @ chInsert ch @ drop (chTo ch) a)"

text \<open>\<open>diffToChange\<close> of the outline.\<close>

definition diffToChange :: "'a list \<Rightarrow> 'a list \<Rightarrow> 'a text_change option" where
  "diffToChange a b =
     (if a = b then None
      else let mx = min (length a) (length b);
               p = commonFrom a b;
               s = commonTo (mx - p) a b
           in Some \<lparr>chFrom = p, chTo = length a - s, chInsert = jsSlice p (length b - s) b\<rparr>)"

lemma common_bounds:
  assumes "p \<le> commonFrom a b" "s \<le> commonTo (min (length a) (length b) - p) a b"
  shows "p + s \<le> length a" "p + s \<le> length b"
    and "take p a = take p b" "drop (length a - s) a = drop (length b - s) b"
proof -
  let ?mx = "min (length a) (length b)" and ?t = "commonTo (min (length a) (length b) - p) a b"
  have p: "p \<le> length a" "p \<le> length b"
    using assms(1) commonFrom_spec(1,2) [of a b] by auto
  have t: "?t \<le> ?mx - p" "drop (length a - ?t) a = drop (length b - ?t) b"
    by (rule commonTo_spec; simp)+
  show "p + s \<le> length a" "p + s \<le> length b" using p t(1) assms(2) by auto
  show "take p a = take p b"
    using commonFrom_spec(3) [of a b] assms(1) by (metis min.absorb1 take_take)
  have "drop (?t - s) (drop (length a - ?t) a) = drop (?t - s) (drop (length b - ?t) b)"
    using t(2) by simp
  moreover have "?t - s + (length a - ?t) = length a - s" "?t - s + (length b - ?t) = length b - s"
    using assms(2) t(1) p by auto
  ultimately show "drop (length a - s) a = drop (length b - s) b" by simp
qed

lemma diffToChange_Some:
  assumes "diffToChange a b = Some c"
  shows "take (chFrom c) a @ chInsert c @ drop (chTo c) a = b"
    and "chFrom c \<le> chTo c" "chTo c \<le> length a"
proof -
  let ?p = "commonFrom a b"
  let ?s = "commonTo (min (length a) (length b) - ?p) a b"
  have c: "c = \<lparr>chFrom = ?p, chTo = length a - ?s, chInsert = jsSlice ?p (length b - ?s) b\<rparr>"
    using assms by (auto simp: diffToChange_def Let_def split: if_splits)
  note cb = common_bounds [of ?p a b ?s, OF order_refl order_refl]
  show "take (chFrom c) a @ chInsert c @ drop (chTo c) a = b"
    using replace_middle [of ?p ?s b a] cb c by simp
  show "chFrom c \<le> chTo c" "chTo c \<le> length a" using cb c by auto
qed

lemma applyChange_diffToChange: "applyChange a (diffToChange a b) = b"
proof (cases "diffToChange a b")
  case None
  then show ?thesis by (auto simp: applyChange_def diffToChange_def Let_def split: if_splits)
next
  case (Some c)
  then show ?thesis using diffToChange_Some(1) [OF Some] by (simp add: applyChange_def)
qed

interpretation outline_change: quiet_differ diffToChange applyChange None
proof unfold_locales
  show "applyChange a (diffToChange a b) = b" for a b :: "'a list"
    by (rule applyChange_diffToChange)
qed (simp_all add: diffToChange_def applyChange_def)

text \<open>Any single replacement that leads to the same text keeps at most the common prefix
  and suffix, so it replaces at least as many units.\<close>

lemma diffToChange_shortest:
  assumes c: "diffToChange a b = Some c"
    and e: "f \<le> t" "t \<le> length a" "take f a @ ins @ drop t a = b"
  shows "chTo c - chFrom c \<le> t - f" "length (chInsert c) \<le> length ins"
proof -
  let ?p = "commonFrom a b"
  let ?mx = "min (length a) (length b)"
  let ?s = "commonTo (?mx - ?p) a b"
  have cc: "c = \<lparr>chFrom = ?p, chTo = length a - ?s, chInsert = jsSlice ?p (length b - ?s) b\<rparr>"
    using c by (auto simp: diffToChange_def Let_def split: if_splits)
  note cb = common_bounds [of ?p a b ?s, OF order_refl order_refl]
  have flds: "chFrom c = ?p" "chTo c = length a - ?s"
    "length (chInsert c) \<le> length b - ?s - ?p"
    by (simp_all add: cc)
  let ?r = "length a - t"
  have lb: "length b = f + length ins + ?r" using e by auto
  have "take f b = take f a" using e by auto
  then have f: "f \<le> ?p" using commonFrom_greatest [of f a b] e lb by simp
  have tail: "drop (length b - ?r) b = drop (length a - ?r) a"
    using e by (auto simp: lb)
  have "f + ?r \<le> ?p + ?s"
  proof (cases "?s < ?mx - ?p")
    case True
    then have ne: "a ! (length a - 1 - ?s) \<noteq> b ! (length b - 1 - ?s)"
      using commonTo_spec(3) [of "?mx - ?p" a b] by simp
    have "?r \<le> ?s"
    proof (rule ccontr)
      assume "\<not> ?r \<le> ?s"
      then have s: "?s < ?r" by simp
      have r: "?r \<le> length a" "?r \<le> length b" using lb by auto
      have "a ! (length a - 1 - ?s) = b ! (length b - 1 - ?s)"
        by (simp only: nth_drop_end [OF s r(1)] nth_drop_end [OF s r(2)] tail)
      then show False using ne by simp
    qed
    then show ?thesis using f by simp
  next
    case False
    then have "?p + ?s = ?mx"
      using commonTo_spec(1) [of "?mx - ?p" a b] commonFrom_spec(1,2) [of a b] by auto
    moreover have "f + ?r \<le> length a" using e(1,2) by linarith
    moreover have "f + ?r \<le> length b" using lb by linarith
    ultimately show ?thesis by simp
  qed
  then show "chTo c - chFrom c \<le> t - f" "length (chInsert c) \<le> length ins"
    using flds cb(1,2) lb e(1,2) by linarith+
qed

section \<open>One change per line\<close>

text \<open>A list of changes: positions in the old text, applied from left to right (the text
  still to be read starts at position \<open>pos\<close>).\<close>

fun applyFrom :: "nat \<Rightarrow> 'a list \<Rightarrow> 'a text_change list \<Rightarrow> 'a list" where
  "applyFrom pos rest [] = rest"
| "applyFrom pos rest (c # cs) =
     take (chFrom c - pos) rest @ chInsert c
       @ applyFrom (chTo c) (drop (chTo c - pos) rest) cs"

definition applyChanges :: "'a list \<Rightarrow> 'a text_change list \<Rightarrow> 'a list" where
  "applyChanges a cs = applyFrom 0 a cs"

text \<open>Sorted, disjoint and inside the text: what an editor requires of a change list.\<close>

fun ordered :: "nat \<Rightarrow> nat \<Rightarrow> 'a text_change list \<Rightarrow> bool" where
  "ordered pos n [] = (pos \<le> n)"
| "ordered pos n (c # cs) = (pos \<le> chFrom c \<and> chFrom c \<le> chTo c \<and> ordered (chTo c) n cs)"

fun lineChanges :: "nat \<Rightarrow> (jsstr \<times> jsstr) list \<Rightarrow> cu text_change list" where
  "lineChanges off [] = []"
| "lineChanges off ((x, y) # ps) =
     (case diffToChange x y of
        None \<Rightarrow> []
      | Some c \<Rightarrow> [\<lparr>chFrom = off + chFrom c, chTo = off + chTo c, chInsert = chInsert c\<rparr>])
     @ lineChanges (off + length x + 1) ps"

definition diffToChanges :: "jsstr \<Rightarrow> jsstr \<Rightarrow> cu text_change list" where
  "diffToChanges a b =
     (if a = b then []
      else let la = splitOn newline a; lb = splitOn newline b in
        if length la \<noteq> length lb
        then (case diffToChange a b of None \<Rightarrow> [] | Some c \<Rightarrow> [c])
        else let p = commonFrom la lb;
                 s = commonTo (min (length la - p) (length lb - p)) la lb;
                 off = sum_list (map (\<lambda>l. length l + 1) (take p la))
             in lineChanges off (zip (jsSlice p (length la - s) la) (jsSlice p (length lb - s) lb)))"

lemma applyFrom_skip:
  "ordered q n cs \<Longrightarrow> pos \<le> q \<Longrightarrow>
     applyFrom pos rest cs = take (q - pos) rest @ applyFrom q (drop (q - pos) rest) cs"
proof (cases cs)
  case (Cons c cs')
  assume o: "ordered q n cs" "pos \<le> q"
  then have "chFrom c - pos = (q - pos) + (chFrom c - q)" "chTo c - pos = (q - pos) + (chTo c - q)"
    using Cons by auto
  then show ?thesis using Cons by (simp add: take_add add.commute)
qed simp

lemma ordered_mono: "ordered q n cs \<Longrightarrow> pos \<le> q \<Longrightarrow> n \<le> m \<Longrightarrow> ordered pos m cs"
  by (induction cs arbitrary: pos q) auto

fun linesLength :: "jsstr list \<Rightarrow> nat" where
  "linesLength [] = 0"
| "linesLength (l # ls) = length l + 1 + linesLength ls"

lemma linesLength_conv: "linesLength ls = sum_list (map (\<lambda>l. length l + 1) ls)"
  by (induction ls) auto

lemma length_joinWith: "ls \<noteq> [] \<Longrightarrow> length (joinWith c ls) + 1 = linesLength ls"
  by (induction c ls rule: joinWith.induct) auto

lemma ordered_lineChanges:
  "length xs = length ys \<Longrightarrow> xs \<noteq> [] \<Longrightarrow>
     ordered off (off + linesLength xs - 1) (lineChanges off (zip xs ys))"
proof (induction xs ys arbitrary: off rule: list_induct2)
  case (Cons x xs y ys)
  have tail: "ordered (off + length x) (off + linesLength (x # xs) - 1)
      (lineChanges (off + length x + 1) (zip xs ys))"
  proof (cases "xs = []")
    case False
    have "linesLength (x # xs) = length x + 1 + linesLength xs" by simp
    then show ?thesis
      by (metis (no_types, lifting) Cons.IH False add.assoc le_add1 order_refl ordered_mono)
  qed (use Cons.hyps in auto)
  show ?case
  proof (cases "diffToChange x y")
    case None
    then show ?thesis using ordered_mono [OF tail] by simp
  next
    case (Some c)
    then show ?thesis using diffToChange_Some(2,3) [OF Some] ordered_mono [OF tail] by simp
  qed
qed simp

text \<open>The changes of a block of lines, followed by lines both texts share.\<close>

lemma applyFrom_lineChanges:
  "length xs = length ys \<Longrightarrow> ls \<noteq> [] \<or> xs \<noteq> [] \<Longrightarrow>
     applyFrom off (joinWith newline (xs @ ls)) (lineChanges off (zip xs ys))
       = joinWith newline (ys @ ls)"
proof (induction xs ys arbitrary: off rule: list_induct2)
  case (Cons x xs y ys)
  let ?cs = "lineChanges (off + length x + 1) (zip xs ys)"
  let ?rest = "if xs @ ls = [] then [] else newline # joinWith newline (xs @ ls)"
  let ?rest' = "if xs @ ls = [] then [] else newline # joinWith newline (ys @ ls)"
  have "xs = [] \<longleftrightarrow> ys = []" using Cons.hyps by auto
  then have split: "joinWith newline ((x # xs) @ ls) = x @ ?rest"
    "joinWith newline ((y # ys) @ ls) = y @ ?rest'"
    by (auto simp: joinWith_Cons)
  have rest: "applyFrom (off + length x) ?rest ?cs = ?rest'"
  proof (cases "xs @ ls = []")
    case True
    then show ?thesis using Cons.hyps by simp
  next
    case False
    have IH: "applyFrom (off + length x + 1) (joinWith newline (xs @ ls)) ?cs
        = joinWith newline (ys @ ls)"
      using False Cons.IH by auto
    show ?thesis
    proof (cases "xs = []")
      case True
      then show ?thesis using False Cons.hyps by simp
    next
      case xs: False
      have "ordered (off + length x + 1) (off + length x + 1 + linesLength xs - 1) ?cs"
        using ordered_lineChanges [OF Cons.hyps xs, of "off + length x + 1"] by simp
      from applyFrom_skip [OF this, of "off + length x"] show ?thesis
        using IH False by simp
    qed
  qed
  have tail: "ordered (off + length x) (off + length x + linesLength xs) ?cs"
  proof (cases "xs = []")
    case False
    from ordered_lineChanges [OF Cons.hyps this, of "off + length x + 1"] show ?thesis
      by (rule ordered_mono) auto
  qed (use Cons.hyps in auto)
  have "applyFrom off (x @ ?rest) (lineChanges off (zip (x # xs) (y # ys))) = y @ ?rest'"
  proof (cases "diffToChange x y")
    case None
    then have "x = y" using applyChange_diffToChange [of x y] by (simp add: applyChange_def)
    then show ?thesis
      using None applyFrom_skip [OF tail, of off "x @ ?rest"] rest by simp
  next
    case (Some c)
    note c = diffToChange_Some [OF Some]
    have "applyFrom (off + chTo c) (drop (chTo c) (x @ ?rest)) ?cs
        = drop (chTo c) x @ applyFrom (off + length x) ?rest ?cs"
      using applyFrom_skip [OF tail, of "off + chTo c"] c(3) by simp
    then show ?thesis using Some c rest by simp
  qed
  then show ?case by (simp only: split)
qed auto

text \<open>Whole lines before the block: nothing of them is touched.\<close>

lemma joinWith_prefix:
  assumes "R \<noteq> []"
  shows "\<exists>t. length t = linesLength P \<and> joinWith c (P @ R) = t @ joinWith c R
    \<and> (\<forall>R'. R' \<noteq> [] \<longrightarrow> joinWith c (P @ R') = t @ joinWith c R')"
proof (induction P)
  case (Cons l P)
  then obtain t where t: "length t = linesLength P"
    "\<forall>R'. R' \<noteq> [] \<longrightarrow> joinWith c (P @ R') = t @ joinWith c R'" by auto
  have "joinWith c ((l # P) @ R') = (l @ c # t) @ joinWith c R'" if "R' \<noteq> []" for R'
    using that t(2) by (simp add: joinWith_Cons)
  then show ?case using t(1) assms by (intro exI [of _ "l @ c # t"]) auto
qed (use assms in auto)

text \<open>The two texts around the block of lines that differ.\<close>

lemma diffToChanges_block:
  assumes ne: "a \<noteq> b"
    and len: "length (splitOn newline a) = length (splitOn newline b)"
  obtains P xs ys ls where "splitOn newline a = P @ xs @ ls" "splitOn newline b = P @ ys @ ls"
    "length xs = length ys" "xs \<noteq> []"
    "diffToChanges a b = lineChanges (linesLength P) (zip xs ys)"
proof -
  let ?la = "splitOn newline a" and ?lb = "splitOn newline b"
  let ?p = "commonFrom ?la ?lb"
  let ?s = "commonTo (min (length ?la - ?p) (length ?lb - ?p)) ?la ?lb"
  have mn: "min (length ?la - ?p) (length ?lb - ?p) = min (length ?la) (length ?lb) - ?p"
    by (simp add: len)
  have s: "?s \<le> commonTo (min (length ?la) (length ?lb) - ?p) ?la ?lb" by (simp only: mn)
  note cb = common_bounds [OF order_refl s]
  define xs where "xs = jsSlice ?p (length ?la - ?s) ?la"
  define ys where "ys = jsSlice ?p (length ?lb - ?s) ?lb"
  define P where "P = take ?p ?la"
  define ls where "ls = drop (length ?la - ?s) ?la"
  have a: "?la = P @ xs @ ls" using take_drop_cover [OF cb(1)] by (simp only: P_def xs_def ls_def)
  have b: "?lb = P @ ys @ ls"
    using take_drop_cover [OF cb(2)] by (simp only: P_def ys_def ls_def cb(3,4))
  have l: "length xs = length ys" using a b len by (metis add_right_cancel length_append add_left_cancel)
  have "xs \<noteq> []"
  proof
    assume "xs = []"
    then have "?la = ?lb" using a b l by simp
    then show False using ne by (metis joinWith_splitOn)
  qed
  moreover have "diffToChanges a b = lineChanges (linesLength P) (zip xs ys)"
    using ne len by (simp add: diffToChanges_def Let_def xs_def ys_def P_def linesLength_conv)
  ultimately show ?thesis using that a b l by blast
qed

lemma applyChanges_diffToChanges: "applyChanges a (diffToChanges a b) = b"
proof (cases "a = b")
  case ne: False
  show ?thesis
  proof (cases "length (splitOn newline a) = length (splitOn newline b)")
    case False
    then show ?thesis using ne applyChange_diffToChange [of a b]
      by (auto simp: diffToChanges_def Let_def applyChanges_def applyChange_def split: option.splits)
  next
    case True
    obtain P xs ys ls where
      la: "splitOn newline a = P @ xs @ ls" and lb: "splitOn newline b = P @ ys @ ls"
      and l: "length xs = length ys" and nx: "xs \<noteq> []"
      and d: "diffToChanges a b = lineChanges (linesLength P) (zip xs ys)"
      by (rule diffToChanges_block [OF ne True])
    let ?cs = "lineChanges (linesLength P) (zip xs ys)"
    have n: "xs @ ls \<noteq> []" "ys @ ls \<noteq> []" using nx l by auto
    from joinWith_prefix [OF n(1)] obtain t where t: "length t = linesLength P"
      "joinWith newline (P @ xs @ ls) = t @ joinWith newline (xs @ ls)"
      "joinWith newline (P @ ys @ ls) = t @ joinWith newline (ys @ ls)" using n by blast
    have a: "a = t @ joinWith newline (xs @ ls)" by (metis t(2) la joinWith_splitOn)
    have b: "b = t @ joinWith newline (ys @ ls)" by (metis t(3) lb joinWith_splitOn)
    have "applyFrom 0 (t @ joinWith newline (xs @ ls)) ?cs
        = t @ applyFrom (linesLength P) (joinWith newline (xs @ ls)) ?cs"
      using applyFrom_skip [OF ordered_lineChanges [OF l nx, of "linesLength P"] le0] t(1) by simp
    also have "\<dots> = b" using applyFrom_lineChanges [OF l] nx b by simp
    finally show ?thesis unfolding applyChanges_def d by (simp only: a)
  qed
qed (simp add: diffToChanges_def applyChanges_def)

lemma ordered_diffToChanges: "ordered 0 (length a) (diffToChanges a b)"
proof (cases "a = b")
  case ne: False
  show ?thesis
  proof (cases "length (splitOn newline a) = length (splitOn newline b)")
    case False
    then show ?thesis using ne diffToChange_Some(2,3) [of a b]
      by (auto simp: diffToChanges_def Let_def split: option.splits)
  next
    case True
    obtain P xs ys ls where
      la: "splitOn newline a = P @ xs @ ls" and lb: "splitOn newline b = P @ ys @ ls"
      and l: "length xs = length ys" and nx: "xs \<noteq> []"
      and d: "diffToChanges a b = lineChanges (linesLength P) (zip xs ys)"
      by (rule diffToChanges_block [OF ne True])
    have ll: "linesLength (us @ vs) = linesLength us + linesLength vs" for us vs
      by (induction us) auto
    have "length a + 1 = linesLength (P @ xs @ ls)"
      using length_joinWith [of "splitOn newline a" newline] by (simp add: la [symmetric])
    then have "linesLength P + linesLength xs - 1 \<le> length a" by (simp add: ll)
    then show ?thesis
      unfolding d by (intro ordered_mono [OF ordered_lineChanges [OF l nx]]) auto
  qed
qed (simp add: diffToChanges_def)

interpretation outline_changes: quiet_differ diffToChanges applyChanges "[]"
proof unfold_locales
  show "applyChanges a (diffToChanges a b) = b" for a b by (rule applyChanges_diffToChanges)
  show "diffToChanges a a = []" for a by (simp add: diffToChanges_def)
  show "applyChanges a [] = a" for a by (simp add: applyChanges_def)
qed

text \<open>A change of the list touches the inside of one line only.\<close>

lemma lineChanges_within:
  assumes "c \<in> set (lineChanges off (zip xs ys))" "length xs = length ys"
  shows "\<exists>i < length xs. \<exists>d. diffToChange (xs ! i) (ys ! i) = Some d
    \<and> chFrom c = off + linesLength (take i xs) + chFrom d
    \<and> chTo c = off + linesLength (take i xs) + chTo d \<and> chInsert c = chInsert d"
  using assms(2,1)
proof (induction xs ys arbitrary: off rule: list_induct2)
  case (Cons x xs y ys)
  show ?case
  proof (cases "c \<in> set (lineChanges (off + length x + 1) (zip xs ys))")
    case True
    from Cons.IH [OF this] obtain i d where "i < length xs"
      "diffToChange (xs ! i) (ys ! i) = Some d"
      "chFrom c = off + length x + 1 + linesLength (take i xs) + chFrom d"
      "chTo c = off + length x + 1 + linesLength (take i xs) + chTo d" "chInsert c = chInsert d"
      by blast
    then show ?thesis by (intro exI [of _ "Suc i"]) auto
  next
    case False
    have "\<exists>d. diffToChange x y = Some d
      \<and> c = \<lparr>chFrom = off + chFrom d, chTo = off + chTo d, chInsert = chInsert d\<rparr>"
      using Cons.prems False by (cases "diffToChange x y") auto
    then show ?thesis by (intro exI [of _ 0]) auto
  qed
qed simp

lemma line_slice:
  assumes "i < length ls" "f \<le> t" "t \<le> length (ls ! i)"
  shows "jsSlice (linesLength (take i ls) + f) (linesLength (take i ls) + t) (joinWith c ls)
    = jsSlice f t (ls ! i)"
proof -
  have ls: "ls = take i ls @ (ls ! i) # drop (Suc i) ls" using assms(1) by (rule id_take_nth_drop)
  obtain u where u: "length u = linesLength (take i ls)"
    "joinWith c (take i ls @ (ls ! i) # drop (Suc i) ls)
       = u @ joinWith c ((ls ! i) # drop (Suc i) ls)"
    using joinWith_prefix [of "(ls ! i) # drop (Suc i) ls"] by blast
  have "\<exists>v. joinWith c ((ls ! i) # drop (Suc i) ls) = (ls ! i) @ v"
    by (cases "drop (Suc i) ls") auto
  then obtain v where v: "joinWith c ((ls ! i) # drop (Suc i) ls) = (ls ! i) @ v" by blast
  have "joinWith c ls = u @ (ls ! i) @ v" using u(2) v ls by metis
  then show ?thesis using u(1) assms(3) by (simp add: jsSlice_def)
qed

lemma diffToChanges_line:
  assumes len: "length (splitOn newline a) = length (splitOn newline b)"
    and c: "c \<in> set (diffToChanges a b)"
  obtains i d where "i < length (splitOn newline a)"
    "diffToChange (splitOn newline a ! i) (splitOn newline b ! i) = Some d"
    "jsSlice (chFrom c) (chTo c) a = jsSlice (chFrom d) (chTo d) (splitOn newline a ! i)"
    "chInsert c = chInsert d"
proof -
  have ne: "a \<noteq> b" using c by (auto simp: diffToChanges_def)
  obtain P xs ys ls where
      la: "splitOn newline a = P @ xs @ ls" and lb: "splitOn newline b = P @ ys @ ls"
      and l: "length xs = length ys" and nx: "xs \<noteq> []"
      and d: "diffToChanges a b = lineChanges (linesLength P) (zip xs ys)"
      by (rule diffToChanges_block [OF ne len])
  from lineChanges_within [OF c [unfolded d] l] obtain j e where j: "j < length xs"
    and e: "diffToChange (xs ! j) (ys ! j) = Some e" "chInsert c = chInsert e"
    and pos: "chFrom c = linesLength P + linesLength (take j xs) + chFrom e"
      "chTo c = linesLength P + linesLength (take j xs) + chTo e" by blast
  have ll: "linesLength (us @ vs) = linesLength us + linesLength vs" for us vs
    by (induction us) auto
  let ?i = "length P + j"
  have i: "?i < length (splitOn newline a)" "splitOn newline a ! ?i = xs ! j"
    "splitOn newline b ! ?i = ys ! j" "take ?i (splitOn newline a) = P @ take j xs"
    using j l by (auto simp: la lb nth_append)
  have "jsSlice (chFrom c) (chTo c) (joinWith newline (splitOn newline a))
      = jsSlice (chFrom e) (chTo e) (xs ! j)"
    using line_slice [OF i(1), of "chFrom e" "chTo e" newline] diffToChange_Some(2,3) [OF e(1)]
    by (simp add: i pos ll)
  then show ?thesis using that [of ?i e] i e by simp
qed

lemma diffToChanges_within_line:
  assumes len: "length (splitOn newline a) = length (splitOn newline b)"
    and c: "c \<in> set (diffToChanges a b)"
  shows "newline \<notin> set (jsSlice (chFrom c) (chTo c) a)" "newline \<notin> set (chInsert c)"
proof -
  obtain i d where i: "i < length (splitOn newline a)"
    and d: "diffToChange (splitOn newline a ! i) (splitOn newline b ! i) = Some d"
    and e: "jsSlice (chFrom c) (chTo c) a = jsSlice (chFrom d) (chTo d) (splitOn newline a ! i)"
      "chInsert c = chInsert d"
    by (rule diffToChanges_line [OF len c])
  have sub: "set (jsSlice p q x) \<subseteq> set x" for p q and x :: jsstr
    by (auto simp: jsSlice_def dest: in_set_takeD in_set_dropD)
  have "newline \<notin> set (splitOn newline a ! i)" "newline \<notin> set (splitOn newline b ! i)"
    using i len by (auto intro!: splitOn_sep_free [OF nth_mem])
  moreover have "set (chInsert d) \<subseteq> set (splitOn newline b ! i)"
    using d sub by (auto simp: diffToChange_def Let_def jsSlice_def split: if_splits
      dest!: in_set_takeD in_set_dropD)
  ultimately show "newline \<notin> set (jsSlice (chFrom c) (chTo c) a)" "newline \<notin> set (chInsert c)"
    using subsetD [OF sub] by (auto simp: e)
qed

section \<open>Changes that keep surrogate pairs whole\<close>

text \<open>\<open>minimalTextChange\<close> of the front matter editor.  Where the common prefix ends
  behind a high surrogate, or the common suffix starts at a low one, it gives one unit back.\<close>

definition minimalTextChange :: "jsstr \<Rightarrow> jsstr \<Rightarrow> cu text_change option" where
  "minimalTextChange before after =
     (if before = after then None
      else let mx = min (length before) (length after);
               start0 = commonFrom before after;
               start = (if 0 < start0 \<and> start0 < mx \<and> isHighSurrogate (before ! (start0 - 1))
                        then start0 - 1 else start0);
               end0 = commonTo (mx - start) before after;
               endd = (if 0 < end0 \<and> isLowSurrogate (before ! (length before - end0))
                       then end0 - 1 else end0)
           in Some \<lparr>chFrom = start, chTo = length before - endd,
                    chInsert = jsSlice start (length after - endd) after\<rparr>)"

text \<open>What the two back-offs leave: a prefix and a suffix of both texts.\<close>

lemma minimalTextChange_parts:
  assumes "minimalTextChange a b = Some c"
  obtains p s where
    "c = \<lparr>chFrom = p, chTo = length a - s, chInsert = jsSlice p (length b - s) b\<rparr>"
    "p + s \<le> length a" "p + s \<le> length b" "take p a = take p b"
    "drop (length a - s) a = drop (length b - s) b"
    "p = 0 \<or> p = min (length a) (length b) \<or> \<not> isHighSurrogate (a ! (p - 1))
       \<or> (p < min (length a) (length b) \<and> isHighSurrogate (a ! p))"
    "s = 0 \<or> \<not> isLowSurrogate (a ! (length a - s))
       \<or> isLowSurrogate (a ! (length a - s - 1))"
proof -
  define mx where "mx = min (length a) (length b)"
  define p0 where "p0 = commonFrom a b"
  define p where "p = (if 0 < p0 \<and> p0 < mx \<and> isHighSurrogate (a ! (p0 - 1)) then p0 - 1 else p0)"
  define s0 where "s0 = commonTo (mx - p) a b"
  define s where "s = (if 0 < s0 \<and> isLowSurrogate (a ! (length a - s0)) then s0 - 1 else s0)"
  note defs = p_def p0_def s_def s0_def mx_def
  have "a \<noteq> b" using assms by (auto simp: minimalTextChange_def)
  then have c: "c = \<lparr>chFrom = p, chTo = length a - s, chInsert = jsSlice p (length b - s) b\<rparr>"
    using assms unfolding minimalTextChange_def Let_def defs
    by (simp only: if_not_P option.inject not_False_eq_True)
  have le: "p \<le> p0" "s \<le> s0" by (simp_all add: p_def s_def)
  note cb = common_bounds [OF le [unfolded s0_def p0_def mx_def]]
  have "p0 \<le> mx" using commonFrom_spec(1,2) [of a b] by (simp add: p0_def mx_def)
  then have i: "p = 0 \<or> p = mx \<or> \<not> isHighSurrogate (a ! (p - 1))
      \<or> (p < mx \<and> isHighSurrogate (a ! p))"
    by (cases "0 < p0 \<and> p0 < mx \<and> isHighSurrogate (a ! (p0 - 1))") (auto simp: p_def)
  have "s0 \<le> length a" using common_bounds(1) [OF le(1) [unfolded p0_def] order_refl]
    by (simp add: s0_def mx_def)
  then have ii: "s = 0 \<or> \<not> isLowSurrogate (a ! (length a - s))
      \<or> isLowSurrogate (a ! (length a - s - 1))"
    by (cases "0 < s0 \<and> isLowSurrogate (a ! (length a - s0))") (auto simp: s_def Suc_diff_le)
  show ?thesis by (rule that [OF c cb i [unfolded mx_def] ii])
qed

lemma minimalTextChange_Some:
  assumes "minimalTextChange a b = Some c"
  shows "take (chFrom c) a @ chInsert c @ drop (chTo c) a = b"
    and "chFrom c \<le> chTo c" "chTo c \<le> length a"
proof -
  obtain p s where
    c: "c = \<lparr>chFrom = p, chTo = length a - s, chInsert = jsSlice p (length b - s) b\<rparr>"
    and cb: "p + s \<le> length a" "p + s \<le> length b" "take p a = take p b"
      "drop (length a - s) a = drop (length b - s) b"
    by (rule minimalTextChange_parts [OF assms])
  show "take (chFrom c) a @ chInsert c @ drop (chTo c) a = b"
    using replace_middle [OF cb(2-4)] c by simp
  show "chFrom c \<le> chTo c" "chTo c \<le> length a" using cb(1) c by auto
qed

interpretation frontmatter_change: quiet_differ minimalTextChange applyChange None
proof unfold_locales
  show "applyChange a (minimalTextChange a b) = b" for a b
    using minimalTextChange_Some(1) [of a b]
    by (cases "minimalTextChange a b")
      (auto simp: applyChange_def minimalTextChange_def Let_def split: if_splits)
  show "minimalTextChange a a = None" for a by (simp add: minimalTextChange_def)
  show "applyChange a None = a" for a :: jsstr by (simp add: applyChange_def)
qed

text \<open>Neither end of the change falls inside a pair: the four pieces are well formed.\<close>

lemma wellFormed_pieces:
  assumes a: "wellFormed a" and b: "wellFormed b" and c: "minimalTextChange a b = Some c"
  shows "wellFormed (take (chFrom c) a)" "wellFormed (jsSlice (chFrom c) (chTo c) a)"
    "wellFormed (chInsert c)" "wellFormed (drop (chTo c) a)"
proof -
  obtain p s where
    cc: "c = \<lparr>chFrom = p, chTo = length a - s, chInsert = jsSlice p (length b - s) b\<rparr>"
    and cb: "p + s \<le> length a" "p + s \<le> length b" "take p a = take p b"
      "drop (length a - s) a = drop (length b - s) b"
    and pre: "p = 0 \<or> p = min (length a) (length b) \<or> \<not> isHighSurrogate (a ! (p - 1))
       \<or> (p < min (length a) (length b) \<and> isHighSurrogate (a ! p))"
    and suf: "s = 0 \<or> \<not> isLowSurrogate (a ! (length a - s))
       \<or> isLowSurrogate (a ! (length a - s - 1))"
    by (rule minimalTextChange_parts [OF c])
  have wp: "wellFormed (take p a)"
  proof (cases "p = 0 \<or> p = min (length a) (length b)")
    case True
    then show ?thesis using a b cb(3) by (auto simp: min_def split: if_splits)
  next
    case False
    have "\<not> isHighSurrogate (a ! (p - 1))"
    proof
      assume h: "isHighSurrogate (a ! (p - 1))"
      then have "isHighSurrogate (a ! p)" using False pre by auto
      moreover have "p - 1 < length a" "Suc (p - 1) = p" using False cb(1) by auto
      ultimately show False using wellFormed_high [OF a _ h] high_not_low by auto
    qed
    moreover have "p \<le> length a" using cb(1) by simp
    ultimately have "take p a = [] \<or> \<not> isHighSurrogate (last (take p a))"
      using False by (auto simp: last_conv_nth min_absorb2)
    then show ?thesis using a wellFormed_prefix [of "take p a" "drop p a"] by simp
  qed
  have ws: "wellFormed (drop (length a - s) a)"
  proof (cases "s = 0")
    case False
    then have n: "length a - s < length a" using cb(1) by auto
    have "\<not> isLowSurrogate (a ! (length a - s))"
    proof
      assume low: "isLowSurrogate (a ! (length a - s))"
      then have "isLowSurrogate (a ! (length a - s - 1))" using suf False by auto
      then show False using wellFormed_low [OF a n low] high_not_low by auto
    qed
    then have "\<not> isLowSurrogate (hd (drop (length a - s) a))" using n by (simp add: hd_drop_conv_nth)
    then show ?thesis
      using a wellFormed_suffix [of "take (length a - s) a" "drop (length a - s) a"] by simp
  qed simp
  have mid: "wellFormed (jsSlice p (length x - s) x)"
    if x: "wellFormed x" "p + s \<le> length x" "wellFormed (take p x)"
      "wellFormed (drop (length x - s) x)" for x
  proof -
    have "wellFormed (take p x @ jsSlice p (length x - s) x @ drop (length x - s) x)"
      using x(1) take_drop_cover [OF x(2)] by simp
    then have "wellFormed (jsSlice p (length x - s) x @ drop (length x - s) x)"
      using x(3) by (simp add: wellFormed_append)
    then show ?thesis by (rule wellFormed_left) (rule x(4))
  qed
  show "wellFormed (take (chFrom c) a)" "wellFormed (drop (chTo c) a)" using wp ws cc by auto
  show "wellFormed (jsSlice (chFrom c) (chTo c) a)" using mid [OF a cb(1) wp ws] cc by simp
  show "wellFormed (chInsert c)" using mid [OF b cb(2)] wp ws cb(3,4) b cc by simp
qed

section \<open>Deltas of a shared text\<close>

text \<open>The operations \<open>{ retain }\<close>, \<open>{ delete }\<close>, \<open>{ insert }\<close>, and their
  application from left to right; what is left is kept.\<close>

datatype 'a edit = Retain nat | Delete nat | Insert "'a list"

fun applyEdits :: "'a list \<Rightarrow> 'a edit list \<Rightarrow> 'a list" where
  "applyEdits xs [] = xs"
| "applyEdits xs (Retain n # es) = take n xs @ applyEdits (drop n xs) es"
| "applyEdits xs (Delete n # es) = applyEdits (drop n xs) es"
| "applyEdits xs (Insert ys # es) = ys @ applyEdits xs es"

text \<open>\<open>toDelta\<close> of the mind map.\<close>

definition toDelta :: "nat \<Rightarrow> nat \<Rightarrow> 'a list \<Rightarrow> 'a edit list" where
  "toDelta at rm ins =
     (if 0 < at then [Retain at] else []) @ (if 0 < rm then [Delete rm] else [])
       @ (if ins \<noteq> [] then [Insert ins] else [])"

lemma applyEdits_toDelta [patch_simps]:
  "applyEdits xs (toDelta at rm ins) = take at xs @ ins @ drop (at + rm) xs"
  by (auto simp: toDelta_def add.commute)

record 'a splice =
  spAt :: nat
  spRemove :: nat
  spInsert :: "'a list"

definition textEdit :: "'a list \<Rightarrow> 'a list \<Rightarrow> 'a splice" where
  "textEdit a b =
     (let mx = min (length a) (length b);
          p = commonFrom a b;
          s = commonTo (mx - p) a b
      in \<lparr>spAt = p, spRemove = length a - p - s, spInsert = jsSlice p (length b - s) b\<rparr>)"

definition applySplice :: "'a list \<Rightarrow> 'a splice \<Rightarrow> 'a list" where
  "applySplice a e = applyEdits a (toDelta (spAt e) (spRemove e) (spInsert e))"

text \<open>\<open>topicDelta(current, base, next)\<close>: the place where the edit of \<open>base\<close> still fits
  \<open>current\<close>, or a replacement of the whole.\<close>

definition topicAt :: "'a list \<Rightarrow> 'a list \<Rightarrow> 'a splice \<Rightarrow> nat option" where
  "topicAt current base e =
     (let removed = jsSlice (spAt e) (spAt e + spRemove e) base;
          suffix = length base - spAt e - spRemove e
      in if current = base then Some (spAt e)
         else if take (spAt e) current = take (spAt e) base
                 \<and> jsSlice (spAt e) (spAt e + spRemove e) current = removed then Some (spAt e)
         else if suffix + spRemove e \<le> length current
                 \<and> drop (length current - suffix) current = drop (length base - suffix) base
                 \<and> (let pos = length current - suffix - spRemove e
                    in jsSlice pos (pos + spRemove e) current = removed)
              then Some (length current - suffix - spRemove e)
         else None)"

definition topicDelta :: "'a list \<Rightarrow> 'a list \<Rightarrow> 'a list \<Rightarrow> 'a edit list" where
  "topicDelta current base nxt =
     (let e = textEdit base nxt
      in case topicAt current base e of
           Some at \<Rightarrow> toDelta at (spRemove e) (spInsert e)
         | None \<Rightarrow> (let all = textEdit current nxt
                   in toDelta (spAt all) (spRemove all) (spInsert all)))"

lemma textEdit_parts:
  obtains p s where
    "textEdit a b = \<lparr>spAt = p, spRemove = length a - p - s, spInsert = jsSlice p (length b - s) b\<rparr>"
    "p + s \<le> length a" "p + s \<le> length b" "take p a = take p b"
    "drop (length a - s) a = drop (length b - s) b"
proof -
  note cb = common_bounds [of "commonFrom a b" a b
      "commonTo (min (length a) (length b) - commonFrom a b) a b", OF order_refl order_refl]
  show ?thesis by (rule that [OF _ cb]) (simp add: textEdit_def Let_def)
qed

lemma applySplice_textEdit: "applySplice a (textEdit a b) = b"
proof -
  obtain p s where
    e: "textEdit a b = \<lparr>spAt = p, spRemove = length a - p - s, spInsert = jsSlice p (length b - s) b\<rparr>"
    and cb: "p + s \<le> length a" "p + s \<le> length b" "take p a = take p b"
      "drop (length a - s) a = drop (length b - s) b"
    by (rule textEdit_parts)
  have "p + (length a - p - s) = length a - s" using cb(1) by simp
  then show ?thesis
    using replace_middle [OF cb(2-4)] e by (simp add: applySplice_def applyEdits_toDelta)
qed

interpretation topic_edit: text_differ textEdit applySplice
  by unfold_locales (rule applySplice_textEdit)

text \<open>Without a concurrent change, and in the fallback, the topic becomes \<open>next\<close>.\<close>

lemma topicDelta_alone: "applyEdits base (topicDelta base base nxt) = nxt"
  using applySplice_textEdit [of base nxt]
  by (simp add: topicDelta_def topicAt_def Let_def applySplice_def)

interpretation topic_delta: text_differ "\<lambda>base. topicDelta base base" applyEdits
  by unfold_locales (rule topicDelta_alone)

text \<open>A concurrent change that stays after the edited region keeps the edit at its place;
  one that stays before it moves the edit along, unless the text up to the edit happens to
  read the same.\<close>

lemma topicDelta_after:
  assumes e: "textEdit base nxt = e"
  shows "applyEdits (take (spAt e + spRemove e) base @ other) (topicDelta
      (take (spAt e + spRemove e) base @ other) base nxt)
    = take (spAt e) base @ spInsert e @ other"
proof -
  obtain p s where
    pe: "textEdit base nxt
        = \<lparr>spAt = p, spRemove = length base - p - s, spInsert = jsSlice p (length nxt - s) nxt\<rparr>"
    and cb: "p + s \<le> length base" by (rule textEdit_parts)
  let ?cur = "take (spAt e + spRemove e) base @ other"
  have le: "spAt e + spRemove e \<le> length base" using pe e cb by auto
  then have "take (spAt e) ?cur = take (spAt e) base" by (simp add: min_def)
  moreover have "jsSlice (spAt e) (spAt e + spRemove e) ?cur
      = jsSlice (spAt e) (spAt e + spRemove e) base"
    using le by (simp add: jsSlice_def drop_take)
  ultimately have "topicAt ?cur base e = Some (spAt e)"
    by (simp add: topicAt_def Let_def)
  then show ?thesis using le by (simp add: topicDelta_def e applyEdits_toDelta)
qed

lemma topicDelta_before:
  assumes e: "textEdit base nxt = e"
    and moved: "\<not> (take (spAt e) (other @ drop (spAt e) base) = take (spAt e) base
      \<and> jsSlice (spAt e) (spAt e + spRemove e) (other @ drop (spAt e) base)
        = jsSlice (spAt e) (spAt e + spRemove e) base)"
  shows "applyEdits (other @ drop (spAt e) base) (topicDelta (other @ drop (spAt e) base) base nxt)
    = other @ spInsert e @ drop (spAt e + spRemove e) base"
proof -
  obtain p s where
    pe: "textEdit base nxt
        = \<lparr>spAt = p, spRemove = length base - p - s, spInsert = jsSlice p (length nxt - s) nxt\<rparr>"
    and cb: "p + s \<le> length base" by (rule textEdit_parts)
  let ?cur = "other @ drop (spAt e) base"
  have le: "spAt e + spRemove e \<le> length base" using pe e cb by auto
  have ne: "?cur \<noteq> base"
  proof
    assume "?cur = base"
    then show False using moved by (simp only: simp_thms)
  qed
  let ?suf = "length base - spAt e - spRemove e"
  have l: "length ?cur = length other + spRemove e + ?suf" using le by simp
  have fit: "?suf + spRemove e \<le> length ?cur" unfolding l by simp
  have "drop (length ?cur - ?suf) ?cur = drop (spAt e + spRemove e) base"
    unfolding l by (simp add: add.commute)
  moreover have "length base - ?suf = spAt e + spRemove e" using le by simp
  ultimately have suf: "drop (length ?cur - ?suf) ?cur = drop (length base - ?suf) base" by simp
  have at: "length ?cur - ?suf - spRemove e = length other" unfolding l by simp
  have rem: "jsSlice (length other) (length other + spRemove e) ?cur
      = jsSlice (spAt e) (spAt e + spRemove e) base" by (simp add: jsSlice_def)
  have "topicAt ?cur base e = Some (length other)"
    unfolding topicAt_def Let_def at
    by (simp only: ne moved fit suf rem if_False if_True simp_thms)
  then show ?thesis by (simp add: topicDelta_def e applyEdits_toDelta add.commute)
qed

section \<open>Properties\<close>

text \<open>C5: the changes the outline view dispatches are in the order and the ranges an editor
  requires (sorted, disjoint, inside the old text), and applying them to the old text gives
  exactly the new text, whether lines were added or not.\<close>

theorem outline_changes_correct:
  "ordered 0 (length a) (diffToChanges a b) \<and> applyChanges a (diffToChanges a b) = b"
  by (simp add: ordered_diffToChanges outline_changes.patch_diff)

text \<open>C7: when an outline operation keeps the number of lines (an indentation, a checkbox),
  no change crosses a line end: neither the removed nor the inserted text holds one, so what
  another member types in other lines is left alone.\<close>

theorem outline_changes_stay_in_line:
  assumes "length (splitOn newline a) = length (splitOn newline b)"
    and "c \<in> set (diffToChanges a b)"
  shows "newline \<notin> set (jsSlice (chFrom c) (chTo c) a) \<and> newline \<notin> set (chInsert c)"
  using diffToChanges_within_line [OF assms] by blast

theorem outline_changes_stay_in_line_witness:
  "newline \<notin> set (jsSlice 4 4 [97, 10, 98, 10, 99::cu]) \<and> newline \<notin> set [32::cu, 32]"
  using outline_changes_stay_in_line [of "[97, 10, 98, 10, 99]" "[97, 10, 98, 10, 32, 32, 99]"
      "\<lparr>chFrom = 4, chTo = 4, chInsert = [32, 32]\<rparr>"]
  by code_simp

text \<open>C8: the front matter editor's change turns the old text into the new one, and between
  well-formed texts it never cuts a surrogate pair: the kept prefix, the removed range, the
  inserted text and the kept suffix are all well formed.\<close>

theorem minimalTextChange_safe:
  assumes "wellFormed before" "wellFormed after" "minimalTextChange before after = Some c"
  shows "applyChange before (Some c) = after
    \<and> chFrom c \<le> chTo c \<and> chTo c \<le> length before
    \<and> wellFormed (take (chFrom c) before) \<and> wellFormed (jsSlice (chFrom c) (chTo c) before)
    \<and> wellFormed (chInsert c) \<and> wellFormed (drop (chTo c) before)"
  using wellFormed_pieces [OF assms] minimalTextChange_Some [OF assms(3)]
  by (simp add: applyChange_def)

theorem minimalTextChange_safe_witness:
  "wellFormed [0xD83D, 0xDE01] \<and> wellFormed (take 1 [97, 0xD83D, 0xDE00::cu])"
  using minimalTextChange_safe [of "[97, 0xD83D, 0xDE00, 98]" "[97, 0xD83D, 0xDE01, 98]"
      "\<lparr>chFrom = 1, chTo = 3, chInsert = [0xD83D, 0xDE01]\<rparr>"]
  by code_simp

text \<open>An edit of a mind map topic made on \<open>base\<close> is carried over to the topic as it is
  now: alone it gives the edited text, after a change that came later in the text it keeps
  that change, and after one that came earlier (and does not read like the old beginning)
  it moves along with the text.\<close>

theorem topicDelta_rebases:
  assumes e: "textEdit base nxt = e"
    and moved: "\<not> (take (spAt e) (pre @ drop (spAt e) base) = take (spAt e) base
      \<and> jsSlice (spAt e) (spAt e + spRemove e) (pre @ drop (spAt e) base)
        = jsSlice (spAt e) (spAt e + spRemove e) base)"
  shows "applyEdits base (topicDelta base base nxt) = nxt
    \<and> applyEdits (take (spAt e + spRemove e) base @ post)
        (topicDelta (take (spAt e + spRemove e) base @ post) base nxt)
      = take (spAt e) base @ spInsert e @ post
    \<and> applyEdits (pre @ drop (spAt e) base) (topicDelta (pre @ drop (spAt e) base) base nxt)
      = pre @ spInsert e @ drop (spAt e + spRemove e) base"
  using topicDelta_alone topicDelta_after [OF e] topicDelta_before [OF e moved] by blast

theorem topicDelta_rebases_witness:
  "applyEdits [9, 9, 2, 3] (topicDelta [9, 9, 2, 3] [1, 2, 3] [1, 7, 3]) = [9, 9, 7, 3::nat]"
  using topicDelta_rebases [of "[1, 2, 3]" "[1, 7, 3::nat]"
      "\<lparr>spAt = 1, spRemove = 1, spInsert = [7]\<rparr>" "[9, 9]" "[]"]
  by (simp add: textEdit_def commonFrom_def commonTo_def scanWhile.simps jsSlice_def
      numeral_2_eq_2 numeral_3_eq_3)

end
