(* ===== verification/LineDiff.thy ===== *)
theory LineDiff
  imports TextPatch
begin

text \<open>
  The text diff of the vault synchronisation
  (\<open>infrastructure-sync/src/filesystem/textDiff.ts\<close>): a file another program rewrote
  becomes a delta of the shared text.  Common ends are stripped, the lines between them are
  compared with Myers' algorithm on an array of furthest reaching points, the trace is walked
  back into an edit script, the script is grouped into hunks, and a builder turns the hunks
  into a compact delta.  The abstract counterpart of the array is the function \<open>front\<close>; the
  sweep over the array is proved to compute it, and its first row that reaches the corner is
  proved to be the least number of line edits.
\<close>

section \<open>The array of furthest reaching points\<close>

definition maxLineEdits :: nat where "maxLineEdits = 500"

definition cell :: "int list \<Rightarrow> int \<Rightarrow> int \<Rightarrow> int" where
  "cell v off k = v ! nat (off + k)"

text \<open>The x a diagonal starts from: one step right of the diagonal below or one step down
  from the diagonal above, whichever reaches further.\<close>

definition pick :: "(int \<Rightarrow> int) \<Rightarrow> int \<Rightarrow> int \<Rightarrow> int" where
  "pick f d k = (if k = - d \<or> (k \<noteq> d \<and> f (k - 1) < f (k + 1)) then f (k + 1) else f (k - 1) + 1)"

text \<open>\<open>while (x < n && y < m && la[x] === lb[y]) { x++; y++ }\<close>\<close>

function slide :: "'l list \<Rightarrow> 'l list \<Rightarrow> int \<Rightarrow> int \<Rightarrow> int \<times> int" where
  "slide la lb x y =
     (if 0 \<le> x \<and> x < int (length la) \<and> 0 \<le> y \<and> y < int (length lb) \<and> la ! nat x = lb ! nat y
      then slide la lb (x + 1) (y + 1) else (x, y))"
  by pat_completeness auto
termination
  by (relation "measure (\<lambda>(la, lb, x, y). nat (int (length la) - x))") auto

declare slide.simps [simp del]

text \<open>One round of the outer loop; True when it reached the end of both texts.\<close>

function sweep :: "'l list \<Rightarrow> 'l list \<Rightarrow> int \<Rightarrow> int \<Rightarrow> int \<Rightarrow> int list \<Rightarrow> int list \<times> bool" where
  "sweep la lb off d k v =
     (if d < k then (v, False)
      else let x0 = pick (cell v off) d k;
               (x, y) = slide la lb x0 (x0 - k);
               v' = v[nat (off + k) := x]
           in if int (length la) \<le> x \<and> int (length lb) \<le> y then (v', True)
              else sweep la lb off d (k + 2) v')"
  by pat_completeness auto
termination
  by (relation "measure (\<lambda>(la, lb, off, d, k, v). nat (d + 2 - k))") auto

declare sweep.simps [simp del]

function rounds :: "'l list \<Rightarrow> 'l list \<Rightarrow> nat \<Rightarrow> int \<Rightarrow> nat \<Rightarrow> int list \<Rightarrow> int list list
    \<Rightarrow> int list list option" where
  "rounds la lb mx off d v trace =
     (if mx < d then None
      else let t = trace @ [v];
               (v', found) = sweep la lb off (int d) (- int d) v
           in if found then Some t else rounds la lb mx off (Suc d) v' t)"
  by pat_completeness auto
termination
  by (relation "measure (\<lambda>(la, lb, mx, off, d, v, trace). Suc mx - d)") auto

declare rounds.simps [simp del]

section \<open>Walking back\<close>

datatype line_op = Same | Del | Ins

text \<open>\<open>while (x > prevX && y > prevY) { ops.push('='); x--; y-- }\<close>; the operations are
  pushed from the last to the first and reversed at the end, here they are consed.\<close>

function unwind :: "int \<Rightarrow> int \<Rightarrow> int \<Rightarrow> int \<Rightarrow> line_op list \<Rightarrow> int \<times> int \<times> line_op list" where
  "unwind x y px py ops =
     (if px < x \<and> py < y then unwind (x - 1) (y - 1) px py (Same # ops) else (x, y, ops))"
  by pat_completeness auto
termination
  by (relation "measure (\<lambda>(x, y, px, py, ops). nat (x - px))") auto

declare unwind.simps [simp del]

fun backtrack :: "int \<Rightarrow> int list list \<Rightarrow> nat \<Rightarrow> int \<Rightarrow> int \<Rightarrow> line_op list \<Rightarrow> line_op list" where
  "backtrack off trace 0 x y ops = snd (snd (unwind x y 0 0 ops))"
| "backtrack off trace (Suc d) x y ops =
     (let vd = trace ! Suc d; D = int (Suc d); k = x - y;
          prevK = (if k = - D \<or> (k \<noteq> D \<and> cell vd off (k - 1) < cell vd off (k + 1))
                   then k + 1 else k - 1);
          prevX = cell vd off prevK;
          prevY = prevX - prevK;
          (x', y', ops') = unwind x y prevX prevY ops
      in if x' = prevX then backtrack off trace d x' (y' - 1) (Ins # ops')
         else backtrack off trace d (x' - 1) y' (Del # ops'))"

definition editScript :: "'l list \<Rightarrow> 'l list \<Rightarrow> line_op list option" where
  "editScript la lb =
     (let mx = min (length la + length lb) maxLineEdits;
          off = int mx + 1
      in case rounds la lb mx off 0 (replicate (2 * mx + 3) 0) [] of
           None \<Rightarrow> None
         | Some trace \<Rightarrow>
             Some (backtrack off trace (length trace - 1) (int (length la)) (int (length lb)) []))"

section \<open>Edit scripts\<close>

text \<open>What an edit script is: it reads the old lines and the new lines to their ends.\<close>

fun script :: "'l list \<Rightarrow> 'l list \<Rightarrow> line_op list \<Rightarrow> bool" where
  "script xs ys [] = (xs = [] \<and> ys = [])"
| "script xs ys (Same # ops) = (xs \<noteq> [] \<and> ys \<noteq> [] \<and> hd xs = hd ys \<and> script (tl xs) (tl ys) ops)"
| "script xs ys (Del # ops) = (xs \<noteq> [] \<and> script (tl xs) ys ops)"
| "script xs ys (Ins # ops) = (ys \<noteq> [] \<and> script xs (tl ys) ops)"

fun cost :: "line_op list \<Rightarrow> nat" where
  "cost [] = 0"
| "cost (op # ops) = (if op = Same then 0 else 1) + cost ops"

section \<open>Furthest reaching points\<close>

fun front :: "'l list \<Rightarrow> 'l list \<Rightarrow> nat \<Rightarrow> int \<Rightarrow> int" where
  "front la lb 0 k = (let x0 = pick (\<lambda>_. 0) 0 k in fst (slide la lb x0 (x0 - k)))"
| "front la lb (Suc d) k =
     (let x0 = pick (front la lb d) (int (Suc d)) k in fst (slide la lb x0 (x0 - k)))"

definition diag :: "nat \<Rightarrow> int \<Rightarrow> bool" where
  "diag d k \<longleftrightarrow> \<bar>k\<bar> \<le> int d \<and> even (k + int d)"

declare front.simps [simp del]

definition atEnd :: "'l list \<Rightarrow> 'l list \<Rightarrow> nat \<Rightarrow> int \<Rightarrow> bool" where
  "atEnd la lb d k \<longleftrightarrow> int (length la) \<le> front la lb d k
     \<and> int (length lb) \<le> front la lb d k - k"

definition match :: "'l list \<Rightarrow> 'l list \<Rightarrow> int \<Rightarrow> int \<Rightarrow> bool" where
  "match la lb x y \<longleftrightarrow> 0 \<le> x \<and> x < int (length la) \<and> 0 \<le> y \<and> y < int (length lb)
     \<and> la ! nat x = lb ! nat y"

lemma slide_step: "match la lb x y \<Longrightarrow> slide la lb x y = slide la lb (x + 1) (y + 1)"
  by (subst slide.simps) (simp add: match_def)

lemma slide_stop: "\<not> match la lb x y \<Longrightarrow> slide la lb x y = (x, y)"
  by (subst slide.simps) (auto simp: match_def)

lemma slide_induct:
  assumes "\<And>x y. \<not> match la lb x y \<Longrightarrow> P x y"
    and "\<And>x y. match la lb x y \<Longrightarrow> P (x + 1) (y + 1) \<Longrightarrow> P x y"
  shows "P x y"
proof -
  have "\<forall>x y. nat (int (length la) - x) = n \<longrightarrow> P x y" for n
  proof (induction n rule: less_induct)
    case (less n)
    have "P x y" if "nat (int (length la) - x) = n" for x y
    proof (cases "match la lb x y")
      case True
      then have "nat (int (length la) - (x + 1)) < n" using that by (auto simp: match_def)
      then have "P (x + 1) (y + 1)" using less by blast
      then show ?thesis by (rule assms(2) [OF True])
    qed (rule assms(1))
    then show ?case by blast
  qed
  then show ?thesis by blast
qed

text \<open>A slide runs along its diagonal, over equal lines, as far as they go.\<close>

lemma slide_diag: "snd (slide la lb x y) = fst (slide la lb x y) - (x - y)"
  by (induction x y rule: slide_induct [of la lb]) (simp_all add: slide_stop slide_step)

lemma slide_ge: "x \<le> fst (slide la lb x y)"
  by (induction x y rule: slide_induct [of la lb]) (simp_all add: slide_stop slide_step)

lemma slide_le:
  "fst (slide la lb x y) \<le> max x (int (length la))"
  "fst (slide la lb x y) - (x - y) \<le> max y (int (length lb))"
  by (induction x y rule: slide_induct [of la lb])
    (simp_all add: slide_stop slide_step match_def)

lemma slide_end:
  "\<not> match la lb (fst (slide la lb x y)) (fst (slide la lb x y) - (x - y))"
  by (induction x y rule: slide_induct [of la lb]) (simp_all add: slide_stop slide_step)

lemma slide_over:
  "x \<le> i \<Longrightarrow> i < fst (slide la lb x y) \<Longrightarrow> match la lb i (i - (x - y))"
proof (induction x y rule: slide_induct [of la lb])
  case (2 x y)
  then show ?case by (cases "i = x") (simp_all add: slide_step)
qed (simp add: slide_stop)

text \<open>One row of the table from the row before it.\<close>

definition row :: "'l list \<Rightarrow> 'l list \<Rightarrow> nat \<Rightarrow> (int \<Rightarrow> int) \<Rightarrow> int \<Rightarrow> int" where
  "row la lb d f k = fst (slide la lb (pick f (int d) k) (pick f (int d) k - k))"

definition before :: "'l list \<Rightarrow> 'l list \<Rightarrow> nat \<Rightarrow> int \<Rightarrow> int" where
  "before la lb d = (case d of 0 \<Rightarrow> (\<lambda>_. 0) | Suc e \<Rightarrow> front la lb e)"

lemma front_row: "front la lb d = row la lb d (before la lb d)"
  by (rule ext) (cases d; simp add: front.simps row_def before_def Let_def)

lemma pick_ge: "- d < k \<Longrightarrow> f (k - 1) + 1 \<le> pick f d k"
  "k < d \<Longrightarrow> f (k + 1) \<le> pick f d k"
  by (auto simp: pick_def)

lemma front_start:
  "pick (before la lb d) (int d) k \<le> front la lb d k"
  by (simp add: front_row row_def slide_ge)

lemma front_mono:
  "- int (Suc d) < k \<Longrightarrow> front la lb d (k - 1) + 1 \<le> front la lb (Suc d) k"
  "k < int (Suc d) \<Longrightarrow> front la lb d (k + 1) \<le> front la lb (Suc d) k"
  using front_start [of la lb "Suc d" k] pick_ge [where f = "front la lb d" and d = "int (Suc d)"]
  by (auto simp: before_def intro: order_trans)

lemma diag_0 [simp]: "diag 0 k \<longleftrightarrow> k = 0"
  by (auto simp: diag_def)

lemma diag_Suc:
  "diag (Suc d) k \<Longrightarrow> k \<noteq> - int (Suc d) \<Longrightarrow> diag d (k - 1)"
  "diag (Suc d) k \<Longrightarrow> k \<noteq> int (Suc d) \<Longrightarrow> diag d (k + 1)"
  "diag d k \<Longrightarrow> diag (Suc d) (k + 1)" "diag d k \<Longrightarrow> diag (Suc d) (k - 1)"
  unfolding diag_def by presburger+

text \<open>Where \<open>pick\<close> comes from.\<close>

lemma pick_cases:
  assumes "diag (Suc d) k"
  obtains (right) "diag d (k - 1)" "pick f (int (Suc d)) k = f (k - 1) + 1"
    | (down) "diag d (k + 1)" "pick f (int (Suc d)) k = f (k + 1)"
proof (cases "k = - int (Suc d) \<or> (k \<noteq> int (Suc d) \<and> f (k - 1) < f (k + 1))")
  case True
  moreover from True have "diag d (k + 1)" using diag_Suc(2) [OF assms] by auto
  ultimately show ?thesis using down by (simp add: pick_def)
next
  case False
  moreover from False have "diag d (k - 1)" using diag_Suc(1) [OF assms] by auto
  ultimately show ?thesis using right False unfolding pick_def by presburger
qed

lemma front_nonneg: "diag d k \<Longrightarrow> 0 \<le> front la lb d k \<and> k \<le> front la lb d k"
proof (induction d arbitrary: k)
  case 0
  then show ?case using front_start [of la lb 0 k] by (simp add: before_def pick_def)
next
  case (Suc d)
  from Suc.prems show ?case
  proof (cases rule: pick_cases [where f = "front la lb d"])
    case right
    then show ?thesis using Suc.IH [OF right(1)] front_start [of la lb "Suc d" k]
      by (simp add: before_def)
  next
    case down
    then show ?thesis using Suc.IH [OF down(1)] front_start [of la lb "Suc d" k]
      by (simp add: before_def)
  qed
qed

text \<open>A point behind the last old line was passed at its edge one round earlier, and so was a
  point below the last new line.\<close>

lemma front_bounds:
  "front la lb d k \<le> max (pick (before la lb d) (int d) k) (int (length la))"
  "front la lb d k - k \<le> max (pick (before la lb d) (int d) k - k) (int (length lb))"
  using slide_le [of la lb "pick (before la lb d) (int d) k" "pick (before la lb d) (int d) k - k"]
  by (simp_all add: front_row row_def)

lemma front_first:
  "front la lb 0 0 \<le> int (length la)" "front la lb 0 0 \<le> int (length lb)"
  using front_bounds [of la lb 0 0] by (auto simp: before_def pick_def)

lemma overshoot_right:
  "diag (Suc d) k \<Longrightarrow> int (length la) < front la lb (Suc d) k \<Longrightarrow>
     \<exists>k'. diag d k' \<and> int (length la) \<le> front la lb d k'
        \<and> front la lb (Suc d) k - k \<le> front la lb d k' - k'"
proof (induction d arbitrary: k)
  case (0 k)
  have x: "front la lb (Suc 0) k = pick (front la lb 0) (int (Suc 0)) k"
    using front_bounds(1) [of la lb "Suc 0" k] front_start [of la lb "Suc 0" k] "0.prems"(2)
    by (auto simp: before_def)
  from "0.prems"(1) show ?case
  proof (cases rule: pick_cases [where f = "front la lb 0"])
    case right
    then show ?thesis using x "0.prems"(2) by (intro exI [of _ 0]) auto
  next
    case down
    then show ?thesis using x "0.prems"(2) front_first(1) [of la lb] by auto
  qed
next
  case (Suc d)
  have x: "front la lb (Suc (Suc d)) k = pick (front la lb (Suc d)) (int (Suc (Suc d))) k"
    using front_bounds(1) [of la lb "Suc (Suc d)" k] front_start [of la lb "Suc (Suc d)" k]
      Suc.prems(2) by (auto simp: before_def)
  from Suc.prems(1) show ?case
  proof (cases rule: pick_cases [where f = "front la lb (Suc d)"])
    case right
    then show ?thesis using x Suc.prems(2) by (intro exI [of _ "k - 1"]) auto
  next
    case down
    then have p: "front la lb (Suc (Suc d)) k = front la lb (Suc d) (k + 1)" using x by simp
    with Suc.IH [OF down(1)] Suc.prems(2) obtain k' where k': "diag d k'"
      "int (length la) \<le> front la lb d k'"
      "front la lb (Suc d) (k + 1) - (k + 1) \<le> front la lb d k' - k'" by auto
    have "k' - 1 < int (Suc d)" using k'(1) by (auto simp: diag_def)
    then have "front la lb d k' \<le> front la lb (Suc d) (k' - 1)"
      using front_mono(2) [of "k' - 1" d la lb] by simp
    then show ?thesis using k' diag_Suc(4) [OF k'(1)] p
      by (intro exI [of _ "k' - 1"]) auto
  qed
qed

lemma overshoot_down:
  "diag (Suc d) k \<Longrightarrow> int (length lb) < front la lb (Suc d) k - k \<Longrightarrow>
     \<exists>k'. diag d k' \<and> int (length lb) \<le> front la lb d k' - k'
        \<and> front la lb (Suc d) k \<le> front la lb d k'"
proof (induction d arbitrary: k)
  case (0 k)
  have x: "front la lb (Suc 0) k = pick (front la lb 0) (int (Suc 0)) k"
    using front_bounds(2) [of la lb "Suc 0" k] front_start [of la lb "Suc 0" k] "0.prems"(2)
    by (auto simp: before_def)
  from "0.prems"(1) show ?case
  proof (cases rule: pick_cases [where f = "front la lb 0"])
    case right
    then show ?thesis using x "0.prems"(2) front_first(2) [of la lb] by auto
  next
    case down
    then have "k = - 1" by simp
    then show ?thesis using down x "0.prems"(2) by (intro exI [of _ 0]) auto
  qed
next
  case (Suc d)
  have x: "front la lb (Suc (Suc d)) k = pick (front la lb (Suc d)) (int (Suc (Suc d))) k"
    using front_bounds(2) [of la lb "Suc (Suc d)" k] front_start [of la lb "Suc (Suc d)" k]
      Suc.prems(2) by (auto simp: before_def)
  from Suc.prems(1) show ?case
  proof (cases rule: pick_cases [where f = "front la lb (Suc d)"])
    case down
    then show ?thesis using x Suc.prems(2) by (intro exI [of _ "k + 1"]) auto
  next
    case right
    then have p: "front la lb (Suc (Suc d)) k = front la lb (Suc d) (k - 1) + 1" using x by simp
    with Suc.IH [OF right(1)] Suc.prems(2) obtain k' where k': "diag d k'"
      "int (length lb) \<le> front la lb d k' - k'"
      "front la lb (Suc d) (k - 1) \<le> front la lb d k'" by auto
    have "- int (Suc d) < k' + 1" using k'(1) by (auto simp: diag_def)
    then have "front la lb d k' + 1 \<le> front la lb (Suc d) (k' + 1)"
      using front_mono(1) [of d "k' + 1" la lb] by simp
    then show ?thesis using k' diag_Suc(3) [OF k'(1)] p
      by (intro exI [of _ "k' + 1"]) auto
  qed
qed

text \<open>The first round that reaches the end reaches it exactly.\<close>

lemma first_exact:
  assumes "diag d k" "atEnd la lb d k" "\<And>e j. e < d \<Longrightarrow> diag e j \<Longrightarrow> \<not> atEnd la lb e j"
  shows "front la lb d k = int (length la)" "k = int (length la) - int (length lb)"
proof -
  have "front la lb d k \<le> int (length la) \<and> front la lb d k - k \<le> int (length lb)"
  proof (cases d)
    case 0
    then show ?thesis using assms(1) front_first [of la lb] by simp
  next
    case (Suc e)
    show ?thesis
      using assms overshoot_right [of e k la lb] overshoot_down [of e k lb la]
      unfolding Suc atEnd_def by (meson lessI linorder_not_le order_trans)
  qed
  then show "front la lb d k = int (length la)" "k = int (length la) - int (length lb)"
    using assms(2) by (auto simp: atEnd_def)
qed


text \<open>A diagonal ahead of the line of equal cells: no script gets further with as many edits.\<close>

lemma script_reaches:
  "script (drop i la) (drop j lb) ops \<Longrightarrow> i \<le> length la \<Longrightarrow> j \<le> length lb
    \<Longrightarrow> \<bar>int i - int j\<bar> \<le> int e
    \<Longrightarrow> int i \<le> front la lb e (int i - int j)
    \<Longrightarrow> \<bar>int (length la) - int (length lb)\<bar> \<le> int (e + cost ops)
      \<and> int (length la) \<le> front la lb (e + cost ops) (int (length la) - int (length lb))"
proof (induction ops arbitrary: i j e)
  case Nil
  then have "i = length la" "j = length lb" by auto
  then show ?case using Nil by simp
next
  case (Cons op ops)
  let ?k = "int i - int j"
  show ?case
  proof (cases op)
    case Same
    then have l: "i < length la" "j < length lb" "la ! i = lb ! j"
      and s: "script (drop (Suc i) la) (drop (Suc j) lb) ops"
      using Cons.prems(1) by (auto simp: hd_drop_conv_nth drop_Suc drop_tl)
    have "int i + 1 \<le> front la lb e ?k"
    proof (rule ccontr)
      assume "\<not> int i + 1 \<le> front la lb e ?k"
      then have "front la lb e ?k = int i" using Cons.prems(5) by simp
      then have "\<not> match la lb (int i) (int j)"
        using slide_end [of la lb "pick (before la lb e) (int e) ?k"
            "pick (before la lb e) (int e) ?k - ?k"] by (simp add: front_row row_def)
      then show False using l by (simp add: match_def)
    qed
    then show ?thesis using Cons.IH [OF s] l Cons.prems(4) Same by simp
  next
    case Del
    then have l: "i < length la" and s: "script (drop (Suc i) la) (drop j lb) ops"
      using Cons.prems(1) by (auto simp: drop_Suc drop_tl)
    have "- int (Suc e) < ?k + 1" using Cons.prems(4) by auto
    then have "front la lb e ?k + 1 \<le> front la lb (Suc e) (?k + 1)"
      using front_mono(1) [of e "?k + 1" la lb] by simp
    then have r: "int (Suc i) \<le> front la lb (Suc e) (int (Suc i) - int j)"
      using Cons.prems(5) by (simp add: algebra_simps)
    have "\<bar>int (Suc i) - int j\<bar> \<le> int (Suc e)" using Cons.prems(4) by simp
    from Cons.IH [OF s _ _ this r] show ?thesis using l Cons.prems(3) Del by simp
  next
    case Ins
    then have l: "j < length lb" and s: "script (drop i la) (drop (Suc j) lb) ops"
      using Cons.prems(1) by (auto simp: drop_Suc drop_tl)
    have "?k - 1 < int (Suc e)" using Cons.prems(4) by auto
    then have "front la lb e ?k \<le> front la lb (Suc e) (?k - 1)"
      using front_mono(2) [of "?k - 1" e la lb] by simp
    then have r: "int i \<le> front la lb (Suc e) (int i - int (Suc j))"
      using Cons.prems(5) by (simp add: algebra_simps)
    have "\<bar>int i - int (Suc j)\<bar> \<le> int (Suc e)" using Cons.prems(4) by simp
    from Cons.IH [OF s _ _ this r] show ?thesis using l Cons.prems(2) Ins by simp
  qed
qed

lemma script_parity:
  "script xs ys ops \<Longrightarrow> even (int (length xs) - int (length ys) + int (cost ops))"
proof (induction xs ys ops rule: script.induct)
  case (2 xs ys ops)
  then show ?case by (cases xs; cases ys) auto
next
  case (3 xs ys ops)
  then show ?case by (cases xs) (auto simp: algebra_simps)
next
  case (4 xs ys ops)
  then show ?case by (cases ys) (auto simp: algebra_simps)
qed auto

text \<open>A script is a witness that the end is reached within its cost.\<close>

lemma script_atEnd:
  assumes "script la lb ops"
  shows "\<exists>k. diag (cost ops) k \<and> atEnd la lb (cost ops) k"
proof -
  let ?k = "int (length la) - int (length lb)"
  have "0 \<le> front la lb 0 0" using front_nonneg [of 0 0 la lb] by simp
  then have "\<bar>?k\<bar> \<le> int (cost ops) \<and> int (length la) \<le> front la lb (cost ops) ?k"
    using script_reaches [of 0 la 0 lb ops 0] assms by simp
  then show ?thesis using script_parity [OF assms]
    by (intro exI [of _ ?k]) (simp add: diag_def atEnd_def)
qed

lemma script_all: "script xs ys (replicate (length xs) Del @ replicate (length ys) Ins)"
  "cost (replicate n Del @ replicate m Ins) = n + m"
proof -
  have "script [] ys (replicate (length ys) Ins)" by (induction ys) auto
  then show "script xs ys (replicate (length xs) Del @ replicate (length ys) Ins)"
    by (induction xs) auto
  have "cost (replicate m Ins) = m" by (induction m) auto
  then show "cost (replicate n Del @ replicate m Ins) = n + m" by (induction n) auto
qed

section \<open>The sweep computes the table\<close>

text \<open>The entries the round \<open>d\<close> may read.\<close>

definition known :: "nat \<Rightarrow> int \<Rightarrow> bool" where
  "known d j = (case d of 0 \<Rightarrow> j = 1 | Suc e \<Rightarrow> diag e j)"

lemma pick_known:
  assumes "diag d k" "\<And>j. known d j \<Longrightarrow> f j = g j"
  shows "pick f (int d) k = pick g (int d) k"
    and "0 < d \<Longrightarrow> (k = - int d \<or> (k \<noteq> int d \<and> f (k - 1) < f (k + 1)))
      = (k = - int d \<or> (k \<noteq> int d \<and> g (k - 1) < g (k + 1)))"
proof -
  have r: "k \<noteq> int d \<Longrightarrow> f (k + 1) = g (k + 1)" and l: "k \<noteq> - int d \<Longrightarrow> f (k - 1) = g (k - 1)"
    using assms diag_Suc(1,2) [of "d - 1" k] by (cases d; simp add: known_def)+
  have z: "d = 0 \<Longrightarrow> f (k + 1) = g (k + 1)" using assms by (simp add: known_def)
  show "pick f (int d) k = pick g (int d) k"
    using r l z by (cases "d = 0") (auto simp: pick_def)
  show "0 < d \<Longrightarrow> (k = - int d \<or> (k \<noteq> int d \<and> f (k - 1) < f (k + 1)))
      = (k = - int d \<or> (k \<noteq> int d \<and> g (k - 1) < g (k + 1)))"
    using r l by auto
qed

text \<open>Every access of the array is in range.\<close>

lemma cell_update:
  assumes "length v = 2 * mx + 3" "off = int mx + 1" "\<bar>k\<bar> \<le> int mx" "\<bar>j\<bar> \<le> int mx + 1"
  shows "cell (v[nat (off + k) := x]) off j = (if j = k then x else cell v off j)"
proof -
  have "nat (off + k) < length v" "nat (off + j) < length v"
    "nat (off + j) = nat (off + k) \<longleftrightarrow> j = k" using assms by auto
  then show ?thesis by (auto simp: cell_def nth_list_update)
qed

lemma sweep_spec:
  assumes len: "length v = 2 * mx + 3" and off: "off = int mx + 1" and d: "d \<le> mx"
    and k: "- int d \<le> k" "k \<le> int d + 2" "even (k + int d)"
    and kn: "\<And>j. known d j \<Longrightarrow> cell v off j = before la lb d j"
    and dn: "\<And>j. diag d j \<Longrightarrow> j < k \<Longrightarrow> cell v off j = front la lb d j \<and> \<not> atEnd la lb d j"
    and r: "sweep la lb off (int d) k v = (v', found)"
  shows "length v' = 2 * mx + 3
    \<and> (if found then \<exists>j. diag d j \<and> atEnd la lb d j
       else \<forall>j. diag d j \<longrightarrow> cell v' off j = front la lb d j \<and> \<not> atEnd la lb d j)"
  using len k kn dn r
proof (induction "nat (int d + 2 - k)" arbitrary: k v rule: less_induct)
  case less
  note prems = less.prems
  show ?case
  proof (cases "int d < k")
    case True
    then have "v' = v" "found = False" using prems(7) by (simp_all add: sweep.simps [of _ _ _ _ k])
    then show ?thesis using prems True by (auto simp: diag_def)
  next
    case False
    then have dk: "diag d k" using prems by (auto simp: diag_def)
    have km: "\<bar>k\<bar> \<le> int mx" using dk d by (auto simp: diag_def)
    let ?x0 = "pick (cell v off) (int d) k"
    define w where "w = v[nat (off + k) := front la lb d k]"
    have x0: "?x0 = pick (before la lb d) (int d) k" by (rule pick_known(1) [OF dk prems(5)])
    have sl: "slide la lb ?x0 (?x0 - k) = (front la lb d k, front la lb d k - k)"
      using slide_diag [of la lb ?x0 "?x0 - k"]
      by (simp add: x0 front_row row_def prod_eq_iff)
    have sw: "sweep la lb off (int d) k v =
        (if atEnd la lb d k then (w, True) else sweep la lb off (int d) (k + 2) w)"
      using False by (subst sweep.simps) (simp add: Let_def sl w_def atEnd_def)
    have lw: "length w = 2 * mx + 3" by (simp add: w_def prems(1))
    show ?thesis
    proof (cases "atEnd la lb d k")
      case True
      then show ?thesis using sw prems(7) lw dk by auto
    next
      case na: False
      have cw: "cell w off j = (if j = k then front la lb d k else cell v off j)"
        if "\<bar>j\<bar> \<le> int mx + 1" for j
        unfolding w_def by (rule cell_update [OF prems(1) off km that])
      have knw: "cell w off j = before la lb d j" if j: "known d j" for j
      proof -
        have "\<bar>j\<bar> \<le> int mx + 1 \<and> j \<noteq> k"
          using j d dk by (cases d) (auto simp: known_def diag_def)
        then show ?thesis using cw prems(5) [OF j] by simp
      qed
      have dnw: "cell w off j = front la lb d j \<and> \<not> atEnd la lb d j" if j: "diag d j" "j < k + 2" for j
      proof -
        have "\<bar>j\<bar> \<le> int mx + 1" using j d by (auto simp: diag_def)
        moreover have "j < k \<or> j = k" using j dk unfolding diag_def by presburger
        ultimately show ?thesis using cw prems(6) [OF j(1)] na by auto
      qed
      have "nat (int d + 2 - (k + 2)) < nat (int d + 2 - k)" using False by simp
      from less.hyps [OF this lw _ _ _ knw dnw] show ?thesis
        using prems False sw na by simp
    qed
  qed
qed

lemma rounds_spec:
  assumes off: "off = int mx + 1"
    and "length v = 2 * mx + 3" "length trace = d"
    and "\<And>j. known d j \<Longrightarrow> cell v off j = before la lb d j"
    and "\<And>e j. Suc e < d \<Longrightarrow> diag e j \<Longrightarrow> cell (trace ! Suc e) off j = front la lb e j"
    and "\<And>e j. e < d \<Longrightarrow> diag e j \<Longrightarrow> \<not> atEnd la lb e j"
  shows "case rounds la lb mx off d v trace of
      None \<Rightarrow> \<forall>e \<le> mx. \<forall>j. diag e j \<longrightarrow> \<not> atEnd la lb e j
    | Some t \<Rightarrow> \<exists>D. length t = Suc D \<and> D \<le> mx \<and> (\<exists>j. diag D j \<and> atEnd la lb D j)
        \<and> (\<forall>e < D. \<forall>j. diag e j \<longrightarrow> \<not> atEnd la lb e j)
        \<and> (\<forall>e < D. \<forall>j. diag e j \<longrightarrow> cell (t ! Suc e) off j = front la lb e j)"
  using assms(2-)
proof (induction "Suc mx - d" arbitrary: d v trace)
  case 0
  then have "mx < d" by simp
  moreover have "rounds la lb mx off d v trace = None"
    using \<open>mx < d\<close> by (subst rounds.simps) simp
  ultimately show ?case using "0.prems"(5) by auto
next
  case (Suc n)
  then have d: "d \<le> mx" by simp
  obtain v' found where sw: "sweep la lb off (int d) (- int d) v = (v', found)" by fastforce
  have sp: "length v' = 2 * mx + 3
    \<and> (if found then \<exists>j. diag d j \<and> atEnd la lb d j
       else \<forall>j. diag d j \<longrightarrow> cell v' off j = front la lb d j \<and> \<not> atEnd la lb d j)"
    by (rule sweep_spec [OF Suc.prems(1) off d _ _ _ Suc.prems(3) _ sw]) (auto simp: diag_def)
  let ?t = "trace @ [v]"
  have rd: "rounds la lb mx off d v trace =
      (if found then Some ?t else rounds la lb mx off (Suc d) v' ?t)"
    using d by (subst rounds.simps) (simp add: sw)
  have tr: "cell (?t ! Suc e) off j = front la lb e j" if "Suc e < Suc d" "diag e j" for e j
  proof (cases "Suc e = d")
    case True
    then have "?t ! Suc e = v" using Suc.prems(2) by (simp add: nth_append)
    moreover have "cell v off j = before la lb (Suc e) j"
      using that(2) by (intro Suc.prems(3) [unfolded True [symmetric]]) (simp add: known_def)
    ultimately show ?thesis by (simp add: before_def)
  next
    case False
    then show ?thesis using that Suc.prems(2,4) by (simp add: nth_append)
  qed
  show ?case
  proof (cases found)
    case True
    then show ?thesis using rd sp d Suc.prems(2,5) tr
      by (auto intro!: exI [of _ d])
  next
    case False
    have "case rounds la lb mx off (Suc d) v' ?t of
        None \<Rightarrow> \<forall>e \<le> mx. \<forall>j. diag e j \<longrightarrow> \<not> atEnd la lb e j
      | Some t \<Rightarrow> \<exists>D. length t = Suc D \<and> D \<le> mx \<and> (\<exists>j. diag D j \<and> atEnd la lb D j)
          \<and> (\<forall>e < D. \<forall>j. diag e j \<longrightarrow> \<not> atEnd la lb e j)
          \<and> (\<forall>e < D. \<forall>j. diag e j \<longrightarrow> cell (t ! Suc e) off j = front la lb e j)"
    proof (rule Suc.hyps(1))
      show "n = Suc mx - Suc d" using Suc.hyps(2) by simp
      show "length v' = 2 * mx + 3" using sp by simp
      show "length ?t = Suc d" using Suc.prems(2) by simp
      show "cell v' off j = before la lb (Suc d) j" if "known (Suc d) j" for j
        using that sp False by (simp add: known_def before_def)
      show "\<not> atEnd la lb e j" if "e < Suc d" "diag e j" for e j
        using that sp False Suc.prems(5) less_Suc_eq by metis
    qed (rule tr)
    then show ?thesis using rd False by simp
  qed
qed


section \<open>The walk back yields a script\<close>

lemma drop_nat_step:
  assumes "0 \<le> x" "x < int (length la)"
  shows "drop (nat x) la \<noteq> []" "tl (drop (nat x) la) = drop (nat (x + 1)) la"
    "hd (drop (nat x) la) = la ! nat x"
proof -
  have "nat x < length la" "nat (x + 1) = Suc (nat x)" using assms by auto
  then show "drop (nat x) la \<noteq> []" "tl (drop (nat x) la) = drop (nat (x + 1)) la"
    "hd (drop (nat x) la) = la ! nat x"
    by (simp_all add: drop_Suc drop_tl hd_drop_conv_nth)
qed

lemma unwind_spec:
  assumes "0 \<le> px" "0 \<le> py" "px \<le> x" "py \<le> y"
    and "\<And>i. max px (py + (x - y)) \<le> i \<Longrightarrow> i < x \<Longrightarrow> match la lb i (i - (x - y))"
    and "script (drop (nat x) la) (drop (nat y) lb) ops"
  shows "\<exists>ops'. unwind x y px py ops
      = (max px (py + (x - y)), max px (py + (x - y)) - (x - y), ops')
    \<and> script (drop (nat (max px (py + (x - y)))) la)
        (drop (nat (max px (py + (x - y)) - (x - y))) lb) ops' \<and> cost ops' = cost ops"
  using assms(3-)
proof (induction "nat (x - px)" arbitrary: x y ops rule: less_induct)
  case less
  show ?case
  proof (cases "px < x \<and> py < y")
    case False
    then have "max px (py + (x - y)) = x" using less.prems(1,2) by auto
    then show ?thesis using False less.prems(4) by (subst unwind.simps) auto
  next
    case True
    have m: "match la lb (x - 1) (y - 1)" using less.prems(3) [of "x - 1"] True by simp
    then have s: "script (drop (nat (x - 1)) la) (drop (nat (y - 1)) lb) (Same # ops)"
      using less.prems(4) drop_nat_step [of "x - 1" la] drop_nat_step [of "y - 1" lb]
      by (simp add: match_def)
    have u: "unwind x y px py ops = unwind (x - 1) (y - 1) px py (Same # ops)"
      using True by (subst unwind.simps) simp
    show ?thesis
      using less.hyps [of "x - 1" "y - 1" "Same # ops"] less.prems(3) s True unfolding u by simp
  qed
qed

lemma backtrack_spec:
  assumes trace: "\<And>e j. e < D \<Longrightarrow> diag e j \<Longrightarrow> cell (trace ! Suc e) off j = front la lb e j"
  shows "d \<le> D \<Longrightarrow> diag d (x - y)
    \<Longrightarrow> pick (before la lb d) (int d) (x - y) \<le> x \<Longrightarrow> x \<le> front la lb d (x - y)
    \<Longrightarrow> x \<le> int (length la) \<Longrightarrow> y \<le> int (length lb)
    \<Longrightarrow> script (drop (nat x) la) (drop (nat y) lb) ops
    \<Longrightarrow> script la lb (backtrack off trace d x y ops)
      \<and> cost (backtrack off trace d x y ops) = cost ops + d"
proof (induction d arbitrary: x y ops)
  case 0
  have k: "y = x" using "0.prems"(2) by simp
  have x0: "0 \<le> x" using "0.prems"(3) k by (simp add: before_def pick_def)
  have "match la lb i (i - (x - y))" if "max 0 (0 + (x - y)) \<le> i" "i < x" for i
    using that k "0.prems"(4) slide_over [of 0 i la lb 0]
    by (simp add: front_row row_def before_def pick_def)
  from unwind_spec [OF order_refl order_refl x0 _ this "0.prems"(7)] x0 k
  show ?case by auto
next
  case (Suc d)
  let ?k = "x - y" and ?vd = "trace ! Suc d" and ?D = "int (Suc d)"
  let ?f = "front la lb d"
  have cell: "cell ?vd off j = ?f j" if "diag d j" for j
    using trace [of d j] that Suc.prems(1) by simp
  have cond: "(?k = - ?D \<or> (?k \<noteq> ?D \<and> cell ?vd off (?k - 1) < cell ?vd off (?k + 1)))
      = (?k = - ?D \<or> (?k \<noteq> ?D \<and> ?f (?k - 1) < ?f (?k + 1)))"
    using pick_known(2) [OF Suc.prems(2), of "cell ?vd off" ?f] cell by (simp add: known_def)
  have over: "match la lb i (i - ?k)" if "pick ?f ?D ?k \<le> i" "i < x" for i
    using that Suc.prems(4)
      slide_over [of "pick ?f ?D ?k" i la lb "pick ?f ?D ?k - ?k"]
    by (simp add: front_row [of la lb "Suc d"] row_def before_def)
  have b: "before la lb (Suc d) = ?f" by (simp add: before_def)
  show ?case
  proof (cases "?k = - ?D \<or> (?k \<noteq> ?D \<and> ?f (?k - 1) < ?f (?k + 1))")
    case True
    then have pk: "pick ?f ?D ?k = ?f (?k + 1)" by (simp add: pick_def)
    have dk: "diag d (?k + 1)" using True diag_Suc(2) [OF Suc.prems(2)] by auto
    let ?px = "?f (?k + 1)" and ?py = "?f (?k + 1) - (?k + 1)"
    have nn: "0 \<le> ?px" "0 \<le> ?py" using front_nonneg [OF dk, of la lb] by auto
    have px: "?px \<le> x" "?py \<le> y" using Suc.prems(3) pk by (auto simp: b)
    have mx: "max ?px (?py + ?k) = ?px" by simp
    obtain ops' where u: "unwind x y ?px ?py ops = (?px, ?px - ?k, ops')"
      and s: "script (drop (nat ?px) la) (drop (nat (?px - ?k)) lb) ops'" "cost ops' = cost ops"
      using unwind_spec [OF nn px _ Suc.prems(7)] over unfolding mx pk by blast
    have bt: "backtrack off trace (Suc d) x y ops = backtrack off trace d ?px (?px - ?k - 1) (Ins # ops')"
      unfolding backtrack.simps Let_def cond
      by (simp only: True if_True, simp only: cell [OF dk] u prod.case) simp
    have "script (drop (nat ?px) la) (drop (nat (?px - ?k - 1)) lb) (Ins # ops')"
      using s drop_nat_step [of "?px - ?k - 1" lb] nn px Suc.prems(6) by simp
    from Suc.IH [OF _ _ _ _ _ _ this] show ?thesis
      using bt dk px Suc.prems(1,5,6) nn s(2) front_start [of la lb d "?k + 1"]
      by (simp add: algebra_simps)
  next
    case False
    then have pk: "pick ?f ?D ?k = ?f (?k - 1) + 1" unfolding pick_def by presburger
    have dk: "diag d (?k - 1)" using False diag_Suc(1) [OF Suc.prems(2)] by auto
    let ?px = "?f (?k - 1)" and ?py = "?f (?k - 1) - (?k - 1)"
    have nn: "0 \<le> ?px" "0 \<le> ?py" using front_nonneg [OF dk, of la lb] by auto
    have px: "?px + 1 \<le> x" "?py \<le> y" using Suc.prems(3) pk by (auto simp: b)
    have mx: "max ?px (?py + ?k) = ?px + 1" by simp
    obtain ops' where u: "unwind x y ?px ?py ops = (?px + 1, ?px + 1 - ?k, ops')"
      and s: "script (drop (nat (?px + 1)) la) (drop (nat (?px + 1 - ?k)) lb) ops'"
        "cost ops' = cost ops"
      using unwind_spec [OF nn _ px(2) _ Suc.prems(7)] px over unfolding mx pk by fastforce
    have bt: "backtrack off trace (Suc d) x y ops = backtrack off trace d ?px (?px + 1 - ?k) (Del # ops')"
      unfolding backtrack.simps Let_def cond
      by (simp only: False if_False, simp only: cell [OF dk] u prod.case) simp
    have "script (drop (nat ?px) la) (drop (nat (?px + 1 - ?k)) lb) (Del # ops')"
      using s drop_nat_step [of ?px la] nn px Suc.prems(5) by simp
    from Suc.IH [OF _ _ _ _ _ _ this] show ?thesis
      using bt dk px Suc.prems(1,5,6) nn s(2) front_start [of la lb d "?k - 1"]
      by (simp add: algebra_simps)
  qed
qed

text \<open>The script found is a shortest one; none is found only when the shortest needs more
  than the limit.\<close>

lemma editScript_spec:
  "case editScript la lb of
     None \<Rightarrow> \<forall>ops. script la lb ops \<longrightarrow> maxLineEdits < cost ops
   | Some ops \<Rightarrow> script la lb ops \<and> cost ops \<le> maxLineEdits
       \<and> (\<forall>ops'. script la lb ops' \<longrightarrow> cost ops \<le> cost ops')"
proof -
  let ?n = "int (length la)" and ?m = "int (length lb)"
  define mx where "mx = min (length la + length lb) maxLineEdits"
  let ?off = "int mx + 1" and ?v = "replicate (2 * mx + 3) (0::int)"
  have z: "cell ?v ?off j = before la lb 0 j" if "known 0 j" for j
    using that by (simp add: known_def cell_def before_def)
  note R = rounds_spec [of ?off mx ?v "[]" 0 la lb, OF refl _ _ z]
  show ?thesis
  proof (cases "rounds la lb mx ?off 0 ?v []")
    case None
    then have n: "\<not> atEnd la lb e j" if "e \<le> mx" "diag e j" for e j using R that by simp
    have gt: "mx < cost ops" if "script la lb ops" for ops
      using script_atEnd [OF that] n by (meson not_le)
    moreover have "mx = maxLineEdits"
      using gt [OF script_all(1)] by (simp add: script_all(2) mx_def)
    ultimately show ?thesis using None by (simp add: editScript_def Let_def mx_def [symmetric])
  next
    case (Some t)
    with R obtain D k where D: "length t = Suc D" "D \<le> mx" and k: "diag D k" "atEnd la lb D k"
      and fst: "\<And>e j. e < D \<Longrightarrow> diag e j \<Longrightarrow> \<not> atEnd la lb e j"
      and tr: "\<And>e j. e < D \<Longrightarrow> diag e j \<Longrightarrow> cell (t ! Suc e) ?off j = front la lb e j"
      by auto
    note ex = first_exact [OF k fst]
    let ?ops = "backtrack ?off t D ?n ?m []"
    have "script la lb ?ops \<and> cost ?ops = cost [] + D"
      by (rule backtrack_spec [OF tr order_refl])
        (use k ex front_start [of la lb D "?n - ?m"] in auto)
    moreover have "D \<le> cost ops'" if "script la lb ops'" for ops'
      using script_atEnd [OF that] fst by (meson not_le)
    moreover have "editScript la lb = Some ?ops"
      using Some D(1) by (simp add: editScript_def Let_def mx_def [symmetric])
    ultimately show ?thesis using D(2) by (simp add: mx_def)
  qed
qed


section \<open>Lines and hunks\<close>

text \<open>Lines with their ends.\<close>

fun splitLines :: "jsstr \<Rightarrow> jsstr list" where
  "splitLines [] = []"
| "splitLines (c # cs) =
     (if c = newline then [c] # splitLines cs
      else case splitLines cs of [] \<Rightarrow> [[c]] | l # ls \<Rightarrow> (c # l) # ls)"

datatype hunk = HSame jsstr | HChange jsstr jsstr

fun sameRun :: "jsstr list \<Rightarrow> nat \<Rightarrow> nat \<Rightarrow> line_op list \<Rightarrow> jsstr
    \<Rightarrow> jsstr \<times> nat \<times> nat \<times> line_op list" where
  "sameRun la ia ib (Same # ops) acc = sameRun la (Suc ia) (Suc ib) ops (acc @ la ! ia)"
| "sameRun la ia ib ops acc = (acc, ia, ib, ops)"

fun changeRun :: "jsstr list \<Rightarrow> jsstr list \<Rightarrow> nat \<Rightarrow> nat \<Rightarrow> line_op list \<Rightarrow> jsstr \<Rightarrow> jsstr
    \<Rightarrow> jsstr \<times> jsstr \<times> nat \<times> nat \<times> line_op list" where
  "changeRun la lb ia ib (Del # ops) delA insB =
     changeRun la lb (Suc ia) ib ops (delA @ la ! ia) insB"
| "changeRun la lb ia ib (Ins # ops) delA insB =
     changeRun la lb ia (Suc ib) ops delA (insB @ lb ! ib)"
| "changeRun la lb ia ib ops delA insB = (delA, insB, ia, ib, ops)"

lemma sameRun_length: "sameRun la ia ib ops acc = (s, ia', ib', r) \<Longrightarrow> length r \<le> length ops"
  by (induction la ia ib ops acc rule: sameRun.induct) auto

lemma changeRun_length:
  "changeRun la lb ia ib ops u w = (u', w', ia', ib', r) \<Longrightarrow> length r \<le> length ops"
  by (induction la lb ia ib ops u w rule: changeRun.induct) auto

function buildHunks :: "jsstr list \<Rightarrow> jsstr list \<Rightarrow> nat \<Rightarrow> nat \<Rightarrow> line_op list \<Rightarrow> hunk list" where
  "buildHunks la lb ia ib [] = []"
| "buildHunks la lb ia ib (Same # ops) =
     (case sameRun la ia ib (Same # ops) [] of
        (same, ia', ib', rest) \<Rightarrow> HSame same # buildHunks la lb ia' ib' rest)"
| "buildHunks la lb ia ib (Del # ops) =
     (case changeRun la lb ia ib (Del # ops) [] [] of
        (delA, insB, ia', ib', rest) \<Rightarrow> HChange delA insB # buildHunks la lb ia' ib' rest)"
| "buildHunks la lb ia ib (Ins # ops) =
     (case changeRun la lb ia ib (Ins # ops) [] [] of
        (delA, insB, ia', ib', rest) \<Rightarrow> HChange delA insB # buildHunks la lb ia' ib' rest)"
  by pat_completeness auto
termination
  by (relation "measure (\<lambda>(la, lb, ia, ib, ops). length ops)")
    (auto simp: less_Suc_eq_le dest: sameRun_length [OF sym] changeRun_length [OF sym])

definition diffLines :: "jsstr \<Rightarrow> jsstr \<Rightarrow> hunk list option" where
  "diffLines a b =
     (let la = splitLines a; lb = splitLines b
      in case editScript la lb of
           None \<Rightarrow> None
         | Some ops \<Rightarrow> Some (buildHunks la lb 0 0 ops))"

section \<open>The delta builder\<close>

definition pushRetain :: "nat \<Rightarrow> cu edit list \<Rightarrow> cu edit list" where
  "pushRetain n ops =
     (if n = 0 then ops
      else if ops = [] then [Retain n]
      else case last ops of Retain m \<Rightarrow> butlast ops @ [Retain (m + n)] | _ \<Rightarrow> ops @ [Retain n])"

definition pushDelete :: "nat \<Rightarrow> cu edit list \<Rightarrow> cu edit list" where
  "pushDelete n ops =
     (if n = 0 then ops
      else if ops = [] then [Delete n]
      else case last ops of Delete m \<Rightarrow> butlast ops @ [Delete (m + n)] | _ \<Rightarrow> ops @ [Delete n])"

definition pushInsert :: "jsstr \<Rightarrow> cu edit list \<Rightarrow> cu edit list" where
  "pushInsert s ops =
     (if s = [] then ops
      else if ops = [] then [Insert s]
      else case last ops of Insert t \<Rightarrow> butlast ops @ [Insert (t @ s)] | _ \<Rightarrow> ops @ [Insert s])"

definition pushReplace :: "nat \<Rightarrow> jsstr \<Rightarrow> cu edit list \<Rightarrow> cu edit list" where
  "pushReplace n s ops = pushInsert s (pushDelete n ops)"

fun isRetain :: "'a edit \<Rightarrow> bool" where
  "isRetain (Retain n) = True"
| "isRetain _ = False"

definition finishEdits :: "cu edit list \<Rightarrow> cu edit list" where
  "finishEdits ops = rev (dropWhile isRetain (rev ops))"

definition diffPrefix :: "jsstr \<Rightarrow> jsstr \<Rightarrow> nat" where
  "diffPrefix a b =
     (let i = commonFrom a b in if 0 < i \<and> isHighSurrogate (a ! (i - 1)) then i - 1 else i)"

definition diffSuffix :: "jsstr \<Rightarrow> jsstr \<Rightarrow> nat \<Rightarrow> nat" where
  "diffSuffix a b prefix =
     (let i = commonTo (min (length a) (length b) - prefix) a b
      in if 0 < i \<and> isLowSurrogate (a ! (length a - i)) then i - 1 else i)"

definition refine :: "jsstr \<Rightarrow> jsstr \<Rightarrow> cu edit list \<Rightarrow> cu edit list" where
  "refine a b out =
     (let prefix = diffPrefix a b;
          suffix = diffSuffix a b prefix
      in pushRetain suffix
           (pushReplace (length a - prefix - suffix) (jsSlice prefix (length b - suffix) b)
             (pushRetain prefix out)))"

definition pushHunk :: "cu edit list \<Rightarrow> hunk \<Rightarrow> cu edit list" where
  "pushHunk out h = (case h of HSame s \<Rightarrow> pushRetain (length s) out | HChange x y \<Rightarrow> refine x y out)"

definition diffText :: "jsstr \<Rightarrow> jsstr \<Rightarrow> cu edit list" where
  "diffText a b =
     (if a = b then []
      else let prefix = diffPrefix a b;
               suffix = diffSuffix a b prefix;
               out = pushRetain prefix [];
               midA = jsSlice prefix (length a - suffix) a;
               midB = jsSlice prefix (length b - suffix) b
           in finishEdits (case diffLines midA midB of
                None \<Rightarrow> pushReplace (length midA) midB out
              | Some hs \<Rightarrow> foldl pushHunk out hs))"

section \<open>Hunks rebuild both texts\<close>

fun hunkOld :: "hunk \<Rightarrow> jsstr" where
  "hunkOld (HSame s) = s"
| "hunkOld (HChange x y) = x"

fun hunkNew :: "hunk \<Rightarrow> jsstr" where
  "hunkNew (HSame s) = s"
| "hunkNew (HChange x y) = y"

lemma concat_splitLines [simp]: "concat (splitLines a) = a"
proof (induction a rule: splitLines.induct)
  case (2 c cs)
  then show ?case by (cases "splitLines cs") auto
qed simp

lemma drop_step: "drop i xs \<noteq> [] \<Longrightarrow> drop i xs = xs ! i # drop (Suc i) xs"
  by (simp add: Cons_nth_drop_Suc)

lemma sameRun_spec:
  "sameRun la ia ib ops acc = (s, ia', ib', r) \<Longrightarrow> script (drop ia la) (drop ib lb) ops
    \<Longrightarrow> \<exists>ls. s = acc @ concat ls \<and> drop ia la = ls @ drop ia' la \<and> drop ib lb = ls @ drop ib' lb
      \<and> script (drop ia' la) (drop ib' lb) r"
proof (induction la ia ib ops acc arbitrary: rule: sameRun.induct)
  case (1 la ia ib ops acc)
  have d: "drop ia la = la ! ia # drop (Suc ia) la" "drop ib lb = lb ! ib # drop (Suc ib) lb"
    using 1(3) drop_step by auto
  then have "script (drop (Suc ia) la) (drop (Suc ib) lb) ops" "la ! ia = lb ! ib"
    using 1(3) by auto
  with 1(1) [of] 1(2) obtain ls where "s = (acc @ la ! ia) @ concat ls"
    "drop (Suc ia) la = ls @ drop ia' la" "drop (Suc ib) lb = ls @ drop ib' lb"
    "script (drop ia' la) (drop ib' lb) r" by auto
  then show ?case using d \<open>la ! ia = lb ! ib\<close> by (intro exI [of _ "la ! ia # ls"]) simp
qed (auto intro!: exI [of _ "[]"])

lemma changeRun_spec:
  "changeRun la lb ia ib ops u w = (u', w', ia', ib', r) \<Longrightarrow> script (drop ia la) (drop ib lb) ops
    \<Longrightarrow> \<exists>xs ys. u' = u @ concat xs \<and> w' = w @ concat ys
      \<and> drop ia la = xs @ drop ia' la \<and> drop ib lb = ys @ drop ib' lb
      \<and> script (drop ia' la) (drop ib' lb) r"
proof (induction la lb ia ib ops u w rule: changeRun.induct)
  case (1 la lb ia ib ops u w)
  have d: "drop ia la = la ! ia # drop (Suc ia) la" using 1(3) drop_step by auto
  then have "script (drop (Suc ia) la) (drop ib lb) ops" using 1(3) by auto
  with 1(1,2) obtain xs ys where "u' = (u @ la ! ia) @ concat xs" "w' = w @ concat ys"
    "drop (Suc ia) la = xs @ drop ia' la" "drop ib lb = ys @ drop ib' lb"
    "script (drop ia' la) (drop ib' lb) r" by auto
  then show ?case using d by (intro exI [of _ "la ! ia # xs"] exI [of _ ys]) simp
next
  case (2 la lb ia ib ops u w)
  have d: "drop ib lb = lb ! ib # drop (Suc ib) lb" using 2(3) drop_step by auto
  then have "script (drop ia la) (drop (Suc ib) lb) ops" using 2(3) by auto
  with 2(1,2) obtain xs ys where "u' = u @ concat xs" "w' = (w @ lb ! ib) @ concat ys"
    "drop ia la = xs @ drop ia' la" "drop (Suc ib) lb = ys @ drop ib' lb"
    "script (drop ia' la) (drop ib' lb) r" by auto
  then show ?case using d by (intro exI [of _ xs] exI [of _ "lb ! ib # ys"]) simp
qed (auto intro!: exI [of _ "[]"])

text \<open>The hunks are blocks of whole lines of the two texts, in order.\<close>

definition blocksOf :: "jsstr list \<Rightarrow> jsstr list \<Rightarrow> bool" where
  "blocksOf ls bs \<longleftrightarrow> (\<exists>xss. bs = map concat xss \<and> ls = concat xss)"

lemma blocksOf_Nil [simp]: "blocksOf [] []"
  by (simp add: blocksOf_def)

lemma blocksOf_Cons: "blocksOf ls bs \<Longrightarrow> blocksOf (xs @ ls) (concat xs # bs)"
  unfolding blocksOf_def by (metis concat.simps(2) list.simps(9))

lemma concat_concat_map: "concat (concat xss) = concat (map concat xss)"
  by (induction xss) auto

lemma blocksOf_concat: "blocksOf ls bs \<Longrightarrow> concat bs = concat ls"
  by (auto simp: blocksOf_def concat_concat_map)

lemma buildHunks_spec:
  "script (drop ia la) (drop ib lb) ops \<Longrightarrow>
     blocksOf (drop ia la) (map hunkOld (buildHunks la lb ia ib ops))
     \<and> blocksOf (drop ib lb) (map hunkNew (buildHunks la lb ia ib ops))"
proof (induction la lb ia ib ops rule: buildHunks.induct)
  case (2 la lb ia ib ops)
  obtain s ia' ib' r where e: "sameRun la ia ib (Same # ops) [] = (s, ia', ib', r)"
    by (metis prod_cases4)
  from sameRun_spec [OF e 2(2)] obtain ls where ls: "s = concat ls"
    "drop ia la = ls @ drop ia' la" "drop ib lb = ls @ drop ib' lb"
    "script (drop ia' la) (drop ib' lb) r" by auto
  have "buildHunks la lb ia ib (Same # ops) = HSame s # buildHunks la lb ia' ib' r"
    using e by simp
  then show ?case using 2(1) [OF e [symmetric] refl refl ls(4)] ls(1)
    unfolding ls(2,3) by (simp add: blocksOf_Cons)
next
  case (3 la lb ia ib ops)
  obtain u w ia' ib' r where e: "changeRun la lb ia ib (Del # ops) [] [] = (u, w, ia', ib', r)"
    by (metis prod_cases5)
  from changeRun_spec [OF e 3(2)] obtain xs ys where ls: "u = concat xs" "w = concat ys"
    "drop ia la = xs @ drop ia' la" "drop ib lb = ys @ drop ib' lb"
    "script (drop ia' la) (drop ib' lb) r" by auto
  have "buildHunks la lb ia ib (Del # ops) = HChange u w # buildHunks la lb ia' ib' r"
    using e by simp
  then show ?case using 3(1) [OF e [symmetric] refl refl refl ls(5)] ls(1,2)
    unfolding ls(3,4) by (simp add: blocksOf_Cons)
next
  case (4 la lb ia ib ops)
  obtain u w ia' ib' r where e: "changeRun la lb ia ib (Ins # ops) [] [] = (u, w, ia', ib', r)"
    by (metis prod_cases5)
  from changeRun_spec [OF e 4(2)] obtain xs ys where ls: "u = concat xs" "w = concat ys"
    "drop ia la = xs @ drop ia' la" "drop ib lb = ys @ drop ib' lb"
    "script (drop ia' la) (drop ib' lb) r" by auto
  have "buildHunks la lb ia ib (Ins # ops) = HChange u w # buildHunks la lb ia' ib' r"
    using e by simp
  then show ?case using 4(1) [OF e [symmetric] refl refl refl ls(5)] ls(1,2)
    unfolding ls(3,4) by (simp add: blocksOf_Cons)
qed auto

lemma diffLines_Some:
  assumes "diffLines a b = Some hs"
  shows "blocksOf (splitLines a) (map hunkOld hs)" "blocksOf (splitLines b) (map hunkNew hs)"
proof -
  obtain ops where ops: "editScript (splitLines a) (splitLines b) = Some ops"
    and hs: "hs = buildHunks (splitLines a) (splitLines b) 0 0 ops"
    using assms by (auto simp: diffLines_def Let_def split: option.splits)
  have "script (drop 0 (splitLines a)) (drop 0 (splitLines b)) ops"
    using editScript_spec [of "splitLines a" "splitLines b"] ops by simp
  from buildHunks_spec [OF this] show "blocksOf (splitLines a) (map hunkOld hs)"
    "blocksOf (splitLines b) (map hunkNew hs)" by (simp_all add: hs)
qed

section \<open>What the builder builds\<close>

text \<open>The texts behind a delta: the kept, the removed and the added pieces.\<close>

datatype piece = Keep jsstr | Cut jsstr | Add jsstr

fun strip :: "piece \<Rightarrow> cu edit" where
  "strip (Keep s) = Retain (length s)"
| "strip (Cut s) = Delete (length s)"
| "strip (Add s) = Insert s"

fun pieceText :: "piece \<Rightarrow> jsstr" where
  "pieceText (Keep s) = s"
| "pieceText (Cut s) = s"
| "pieceText (Add s) = s"

fun oldText :: "piece list \<Rightarrow> jsstr" where
  "oldText [] = []"
| "oldText (Keep s # ps) = s @ oldText ps"
| "oldText (Cut s # ps) = s @ oldText ps"
| "oldText (Add s # ps) = oldText ps"

fun newText :: "piece list \<Rightarrow> jsstr" where
  "newText [] = []"
| "newText (Keep s # ps) = s @ newText ps"
| "newText (Cut s # ps) = newText ps"
| "newText (Add s # ps) = s @ newText ps"

fun sameKind :: "'a edit \<Rightarrow> 'a edit \<Rightarrow> bool" where
  "sameKind (Retain _) (Retain _) = True"
| "sameKind (Delete _) (Delete _) = True"
| "sameKind (Insert _) (Insert _) = True"
| "sameKind _ _ = False"

text \<open>Neighbours of the same kind are merged.\<close>

fun compact :: "'a edit list \<Rightarrow> bool" where
  "compact (x # y # es) \<longleftrightarrow> \<not> sameKind x y \<and> compact (y # es)"
| "compact _ = True"

text \<open>The invariant of the builder: its operations stand for pieces of both texts, none of
  them empty, each with the property \<open>Q\<close>.\<close>

definition built :: "(jsstr \<Rightarrow> bool) \<Rightarrow> cu edit list \<Rightarrow> jsstr \<Rightarrow> jsstr \<Rightarrow> bool" where
  "built Q ops a b \<longleftrightarrow> compact ops \<and> (\<exists>ps. ops = map strip ps \<and> oldText ps = a \<and> newText ps = b
     \<and> (\<forall>p \<in> set ps. pieceText p \<noteq> [] \<and> Q (pieceText p)))"

lemma oldText_append: "oldText (ps @ qs) = oldText ps @ oldText qs"
  by (induction ps rule: oldText.induct) auto

lemma newText_append: "newText (ps @ qs) = newText ps @ newText qs"
  by (induction ps rule: newText.induct) auto

lemma compact_snoc: "compact (es @ [x, y]) \<longleftrightarrow> compact (es @ [x]) \<and> \<not> sameKind x y"
proof (induction es)
  case (Cons e es)
  then show ?case by (cases es) auto
qed auto

lemma compact_snoc_cong: "(\<And>z. sameKind z x = sameKind z y) \<Longrightarrow> compact (es @ [x]) = compact (es @ [y])"
proof (induction es)
  case (Cons e es)
  then show ?case by (cases es) auto
qed auto

text \<open>Closed under concatenation: any text, and well-formed text.\<close>

definition closedText :: "(jsstr \<Rightarrow> bool) \<Rightarrow> bool" where
  "closedText Q \<longleftrightarrow> Q [] \<and> (\<forall>s t. Q s \<longrightarrow> Q t \<longrightarrow> Q (s @ t))"

lemma built_snoc:
  assumes "built Q ops a b" "pieceText p \<noteq> []" "Q (pieceText p)"
    and "ops = [] \<or> \<not> sameKind (last ops) (strip p)"
  shows "built Q (ops @ [strip p]) (a @ oldText [p]) (b @ newText [p])"
proof -
  obtain ps where ps: "ops = map strip ps" "oldText ps = a" "newText ps = b"
    "\<forall>p \<in> set ps. pieceText p \<noteq> [] \<and> Q (pieceText p)" and c: "compact ops"
    using assms(1) by (auto simp: built_def)
  have "compact (ops @ [strip p])"
  proof (cases "ops = []")
    case False
    then have "ops = butlast ops @ [last ops]" by simp
    then show ?thesis using c assms(4) False compact_snoc [of "butlast ops" "last ops" "strip p"]
      by (metis append.assoc append_Cons append_Nil)
  qed simp
  moreover have "ops @ [strip p] = map strip (ps @ [p])" using ps by simp
  ultimately show ?thesis
    unfolding built_def using ps assms(2,3)
    by (intro conjI exI [of _ "ps @ [p]"]) (auto simp: oldText_append newText_append)
qed

fun merge :: "'a edit \<Rightarrow> 'a edit \<Rightarrow> 'a edit" where
  "merge (Retain m) (Retain n) = Retain (m + n)"
| "merge (Delete m) (Delete n) = Delete (m + n)"
| "merge (Insert s) (Insert t) = Insert (s @ t)"
| "merge e _ = e"

fun mergePiece :: "piece \<Rightarrow> piece \<Rightarrow> piece" where
  "mergePiece (Keep s) p = Keep (s @ pieceText p)"
| "mergePiece (Cut s) p = Cut (s @ pieceText p)"
| "mergePiece (Add s) p = Add (s @ pieceText p)"

lemma sameKind_merge: "sameKind z (merge e f) = sameKind z e"
  by (cases z; cases e; cases f) auto

lemma built_merge:
  assumes Q: "closedText Q" and b: "built Q (ops @ [e]) a b"
    and q: "pieceText q \<noteq> []" "Q (pieceText q)" and k: "sameKind e (strip q)"
  shows "built Q (ops @ [merge e (strip q)]) (a @ oldText [q]) (b @ newText [q])"
proof -
  obtain ps p where ps: "ops = map strip ps" "e = strip p" "oldText (ps @ [p]) = a"
      "newText (ps @ [p]) = b" "\<forall>p \<in> set (ps @ [p]). pieceText p \<noteq> [] \<and> Q (pieceText p)"
    and c: "compact (ops @ [e])"
    using b by (auto simp: built_def map_eq_append_conv append_eq_map_conv)
  define r where "r = mergePiece p q"
  have r: "strip r = merge e (strip q)" "pieceText r = pieceText p @ pieceText q"
      "oldText [r] = oldText [p] @ oldText [q]" "newText [r] = newText [p] @ newText [q]"
    using k ps(2) by (cases p; cases q; simp add: r_def)+
  have "compact (ops @ [merge e (strip q)])"
    using c compact_snoc_cong [of e "merge e (strip q)" ops] by (simp add: sameKind_merge)
  moreover have "Q (pieceText r)" using Q ps(5) q r(2) by (simp add: closedText_def)
  ultimately show ?thesis
    unfolding built_def using ps r
    by (intro conjI exI [of _ "ps @ [r]"]) (auto simp: oldText_append newText_append)
qed

lemma built_retain:
  assumes Q: "closedText Q" and b: "built Q ops a b" and s: "s = [] \<or> Q s"
  shows "built Q (pushRetain (length s) ops) (a @ s) (b @ s)"
proof (cases "s = [] \<or> ops = []")
  case True
  then show ?thesis using b s built_snoc [OF b, of "Keep s"] by (auto simp: pushRetain_def)
next
  case False
  then have b': "built Q (butlast ops @ [last ops]) a b" using b by simp
  show ?thesis
    using False s built_merge [OF Q b', of "Keep s"] built_snoc [OF b, of "Keep s"]
    by (cases "last ops") (simp_all add: pushRetain_def)
qed

lemma built_delete:
  assumes Q: "closedText Q" and b: "built Q ops a b" and s: "s = [] \<or> Q s"
  shows "built Q (pushDelete (length s) ops) (a @ s) b"
proof (cases "s = [] \<or> ops = []")
  case True
  then show ?thesis using b s built_snoc [OF b, of "Cut s"] by (auto simp: pushDelete_def)
next
  case False
  then have b': "built Q (butlast ops @ [last ops]) a b" using b by simp
  show ?thesis
    using False s built_merge [OF Q b', of "Cut s"] built_snoc [OF b, of "Cut s"]
    by (cases "last ops") (simp_all add: pushDelete_def)
qed

lemma built_insert:
  assumes Q: "closedText Q" and b: "built Q ops a b" and s: "s = [] \<or> Q s"
  shows "built Q (pushInsert s ops) a (b @ s)"
proof (cases "s = [] \<or> ops = []")
  case True
  then show ?thesis using b s built_snoc [OF b, of "Add s"] by (auto simp: pushInsert_def)
next
  case False
  then have b': "built Q (butlast ops @ [last ops]) a b" using b by simp
  show ?thesis
    using False s built_merge [OF Q b', of "Add s"] built_snoc [OF b, of "Add s"]
    by (cases "last ops") (simp_all add: pushInsert_def)
qed

lemma built_replace:
  "closedText Q \<Longrightarrow> built Q ops a b \<Longrightarrow> s = [] \<or> Q s \<Longrightarrow> t = [] \<or> Q t
     \<Longrightarrow> built Q (pushReplace (length s) t ops) (a @ s) (b @ t)"
  by (simp add: pushReplace_def built_insert built_delete)

lemma applyEdits_pieces: "applyEdits (oldText ps @ r) (map strip ps) = newText ps @ r"
  by (induction ps rule: oldText.induct) auto

lemma applyEdits_snoc_retain: "applyEdits xs (es @ [Retain n]) = applyEdits xs es"
  by (induction xs es rule: applyEdits.induct) auto

lemma applyEdits_finish: "applyEdits xs (finishEdits es) = applyEdits xs es"
proof (induction es rule: rev_induct)
  case (snoc e es)
  then show ?case by (cases e) (simp_all add: finishEdits_def applyEdits_snoc_retain)
qed (simp add: finishEdits_def)

lemma finishEdits_prefix: "\<exists>rs. es = finishEdits es @ rs"
  unfolding finishEdits_def by (metis rev_append rev_rev_ident takeWhile_dropWhile_id)

lemma compact_prefix: "compact (es @ rs) \<Longrightarrow> compact es"
proof (induction es rule: compact.induct)
  case (1 x y es)
  then show ?case by simp
qed auto

section \<open>The pieces of a change\<close>

text \<open>Common ends that keep pairs whole, for texts with the property \<open>Q\<close>.\<close>

definition cutsAt :: "(jsstr \<Rightarrow> bool) \<Rightarrow> jsstr \<Rightarrow> nat \<Rightarrow> nat \<Rightarrow> bool" where
  "cutsAt Q a p s \<longleftrightarrow> Q (take p a) \<and> Q (jsSlice p (length a - s) a) \<and> Q (drop (length a - s) a)"

lemma diff_bounds:
  fixes a b
  defines "p \<equiv> diffPrefix a b" and "s \<equiv> diffSuffix a b (diffPrefix a b)"
  shows "p + s \<le> length a" "p + s \<le> length b" "take p a = take p b"
    "drop (length a - s) a = drop (length b - s) b"
proof -
  have p: "p \<le> commonFrom a b" by (auto simp: p_def diffPrefix_def Let_def)
  have s: "s \<le> commonTo (min (length a) (length b) - p) a b"
    by (auto simp: s_def p_def diffSuffix_def Let_def)
  show "p + s \<le> length a" "p + s \<le> length b" "take p a = take p b"
    "drop (length a - s) a = drop (length b - s) b"
    by (rule common_bounds [OF p s])+
qed

text \<open>The texts the diff cuts: with the trivial \<open>Q\<close> any text, with
  \<open>wellFormed\<close> a text whose surrogates come in pairs.\<close>

definition cuttable :: "(jsstr \<Rightarrow> bool) \<Rightarrow> bool" where
  "cuttable Q \<longleftrightarrow> closedText Q
     \<and> (\<forall>a b. Q a \<longrightarrow> Q b \<longrightarrow> (let p = diffPrefix a b; s = diffSuffix a b p in
          cutsAt Q a p s \<and> cutsAt Q b p s))
     \<and> (\<forall>a. Q a \<longrightarrow> (\<forall>l \<in> set (splitLines a). Q l))"

lemma cuttable_any: "cuttable (\<lambda>_. True)"
  by (simp add: cuttable_def closedText_def cutsAt_def Let_def)

lemma wellFormed_cut:
  assumes w: "wellFormed (x @ y)" and x: "x = [] \<or> \<not> isHighSurrogate (last x)"
  shows "wellFormed x" "wellFormed y"
proof -
  show "wellFormed x" using wellFormed_prefix [OF w x] .
  then show "wellFormed y" using w wellFormed_append by blast
qed

lemma splitLines_head:
  "splitLines a = l # ls \<Longrightarrow> a = l @ concat ls \<and> splitLines (concat ls) = ls
     \<and> l \<noteq> [] \<and> (ls = [] \<or> last l = newline)"
proof (induction a arbitrary: l ls rule: splitLines.induct)
  case (2 c cs)
  show ?case
  proof (cases "c = newline")
    case True
    then have "l = [c]" "ls = splitLines cs" using "2.prems" by auto
    then show ?thesis using True by simp
  next
    case False
    show ?thesis
    proof (cases "splitLines cs")
      case Nil
      then have "l = [c]" "ls = []" "cs = []" using "2.prems" False concat_splitLines [of cs] by auto
      then show ?thesis by simp
    next
      case (Cons k ks)
      then have "l = c # k" "ls = ks" using "2.prems" False by auto
      then show ?thesis using "2.IH"(2) [OF False Cons] by auto
    qed
  qed
qed simp

lemma wellFormed_splitLines: "wellFormed a \<Longrightarrow> l \<in> set (splitLines a) \<Longrightarrow> wellFormed l"
proof (induction "splitLines a" arbitrary: a)
  case (Cons k ks)
  note h = splitLines_head [OF Cons.hyps(2) [symmetric]]
  have nl: "\<not> isHighSurrogate newline" by (simp add: isHighSurrogate_def)
  have "wellFormed k \<and> wellFormed (concat ks)"
  proof (cases "ks = []")
    case False
    then show ?thesis using wellFormed_cut [of k "concat ks"] h Cons.prems(1) nl by auto
  qed (use h Cons.prems(1) in auto)
  moreover have "l = k \<or> l \<in> set (splitLines (concat ks))"
    using h Cons.prems(2) Cons.hyps(2) [symmetric] by simp
  ultimately show ?case using Cons.hyps(1) [of "concat ks"] h by auto
qed auto

lemma cutsAt_wellFormed:
  assumes w: "wellFormed x" and ps: "p + s \<le> length x"
    and p: "p = 0 \<or> \<not> isHighSurrogate (x ! (p - 1))"
    and s: "s = 0 \<or> \<not> isLowSurrogate (x ! (length x - s))"
  shows "cutsAt wellFormed x p s"
proof -
  have "take p x = [] \<or> \<not> isHighSurrogate (last (take p x))"
    using p ps by (auto simp: last_conv_nth min_absorb2)
  then have a: "wellFormed (take p x)" "wellFormed (drop p x)"
    using wellFormed_cut [of "take p x" "drop p x"] w by auto
  have "drop (length x - s) x = [] \<or> \<not> isLowSurrogate (hd (drop (length x - s) x))"
    using s ps by (cases "s = 0") (auto simp: hd_drop_conv_nth)
  then have b: "wellFormed (drop (length x - s) x)"
    using wellFormed_suffix [of "take (length x - s) x" "drop (length x - s) x"] w by simp
  have "jsSlice p (length x - s) x @ drop (length x - s) x = drop p x"
    by (rule jsSlice_append_drop) (use ps in simp)
  then show ?thesis using a b wellFormed_left by (metis cutsAt_def)
qed

lemma cuttable_wellFormed: "cuttable wellFormed"
proof -
  have "cutsAt wellFormed a p s \<and> cutsAt wellFormed b p s"
    if w: "wellFormed a" "wellFormed b" and p: "p = diffPrefix a b" and s: "s = diffSuffix a b p" for a b p s
  proof -
    note db = diff_bounds [of a b, folded p, folded s]
    have pa: "p = 0 \<or> \<not> isHighSurrogate (a ! (p - 1))"
    proof (cases "0 < commonFrom a b \<and> isHighSurrogate (a ! (commonFrom a b - 1))")
      case True
      then have e: "p = commonFrom a b - 1" by (simp add: p diffPrefix_def Let_def)
      then have l: "isHighSurrogate (a ! p)" "p < length a"
        using True commonFrom_spec(1) [of a b] by auto
      have "p - 1 < length a" using l(2) by linarith
      then show ?thesis
        using wellFormed_high [OF w(1), of "p - 1"] l(1) high_not_low by (cases "p = 0") auto
    qed (auto simp: p diffPrefix_def Let_def)
    let ?t = "commonTo (min (length a) (length b) - p) a b"
    have sa: "s = 0 \<or> \<not> isLowSurrogate (a ! (length a - s))"
    proof (cases "0 < ?t \<and> isLowSurrogate (a ! (length a - ?t))")
      case True
      have t: "?t \<le> length a"
      proof -
        have "min (length a) (length b) - p \<le> length a" "min (length a) (length b) - p \<le> length b"
          by auto
        from commonTo_spec(1) [OF this] show ?thesis by simp
      qed
      have e: "s = ?t - 1" using True by (simp add: s diffSuffix_def Let_def)
      show ?thesis
      proof (cases "s = 0")
        case s0: False
        have "\<not> isLowSurrogate (a ! (length a - s))"
        proof
          assume low: "isLowSurrogate (a ! (length a - s))"
          have "length a - s < length a" "length a - s - 1 = length a - ?t"
            using s0 e t by linarith+
          then show False using wellFormed_low [OF w(1) _ low] True high_not_low by metis
        qed
        then show ?thesis by simp
      qed simp
    qed (auto simp: s diffSuffix_def Let_def)
    have pb: "p = 0 \<or> \<not> isHighSurrogate (b ! (p - 1))"
    proof (cases "p = 0")
      case False
      then have "take p a ! (p - 1) = take p b ! (p - 1)" using db(3) by simp
      then show ?thesis using pa False by simp
    qed simp
    have sb: "s = 0 \<or> \<not> isLowSurrogate (b ! (length b - s))"
    proof (cases "s = 0")
      case False
      then have "hd (drop (length a - s) a) = hd (drop (length b - s) b)" using db(4) by simp
      then show ?thesis using sa False db(1,2) by (simp add: hd_drop_conv_nth)
    qed simp
    show ?thesis using cutsAt_wellFormed db(1,2) w pa pb sa sb by blast
  qed
  then have "cutsAt wellFormed a (diffPrefix a b) (diffSuffix a b (diffPrefix a b))
      \<and> cutsAt wellFormed b (diffPrefix a b) (diffSuffix a b (diffPrefix a b))"
    if "wellFormed a" "wellFormed b" for a b using that by blast
  moreover have "closedText wellFormed" by (simp add: closedText_def wellFormed_append)
  ultimately show ?thesis
    unfolding cuttable_def Let_def using wellFormed_splitLines by blast
qed

section \<open>The diff\<close>

lemma built_refine:
  assumes c: "cuttable Q" and b: "built Q ops a b" and x: "Q x" "Q y"
  shows "built Q (refine x y ops) (a @ x) (b @ y)"
proof -
  define p where "p = diffPrefix x y"
  define s where "s = diffSuffix x y p"
  note db = diff_bounds [of x y, folded p_def, folded s_def]
  have Q: "closedText Q" using c by (simp add: cuttable_def)
  have cut: "cutsAt Q x p s" "cutsAt Q y p s"
    using c x by (simp_all add: cuttable_def Let_def p_def s_def)
  have l: "length (take p x) = p" "length (jsSlice p (length x - s) x) = length x - p - s"
    "length (drop (length x - s) x) = s" using db(1) by auto
  have "built Q (pushRetain p ops) (a @ take p x) (b @ take p x)"
    using built_retain [OF Q b, of "take p x"] cut(1) l(1) by (simp add: cutsAt_def)
  from built_replace [OF Q this, of "jsSlice p (length x - s) x" "jsSlice p (length y - s) y"]
  have "built Q (pushReplace (length x - p - s) (jsSlice p (length y - s) y) (pushRetain p ops))
      ((a @ take p x) @ jsSlice p (length x - s) x) ((b @ take p x) @ jsSlice p (length y - s) y)"
    using cut l(2) by (simp add: cutsAt_def)
  from built_retain [OF Q this, of "drop (length x - s) x"]
  have "built Q (refine x y ops)
      (a @ take p x @ jsSlice p (length x - s) x @ drop (length x - s) x)
      (b @ take p x @ jsSlice p (length y - s) y @ drop (length x - s) x)"
    using cut(1) l(3) by (simp add: cutsAt_def refine_def Let_def p_def [symmetric] s_def [symmetric])
  then show ?thesis
    using take_drop_cover [OF db(1)] take_drop_cover [OF db(2)] by (simp only: db(3,4))
qed

lemma built_hunks:
  assumes c: "cuttable Q"
  shows "built Q ops a b \<Longrightarrow> \<forall>h \<in> set hs. Q (hunkOld h) \<and> Q (hunkNew h) \<Longrightarrow>
    built Q (foldl pushHunk ops hs) (a @ concat (map hunkOld hs)) (b @ concat (map hunkNew hs))"
proof (induction hs arbitrary: ops a b)
  case (Cons h hs)
  have Q: "closedText Q" using c by (simp add: cuttable_def)
  have "built Q (pushHunk ops h) (a @ hunkOld h) (b @ hunkNew h)"
    using Cons.prems built_retain [OF Q Cons.prems(1)] built_refine [OF c Cons.prems(1)]
    by (cases h) (auto simp: pushHunk_def)
  from Cons.IH [OF this] Cons.prems(2) show ?case by simp
qed simp

lemma blocksOf_closed:
  assumes "closedText Q" "blocksOf ls bs" "\<forall>l \<in> set ls. Q l" "x \<in> set bs"
  shows "Q x"
proof -
  obtain xss where "bs = map concat xss" "ls = concat xss" using assms(2) by (auto simp: blocksOf_def)
  then obtain xs where "x = concat xs" "set xs \<subseteq> set ls" using assms(4) by fastforce
  moreover have "set xs \<subseteq> set ls \<Longrightarrow> Q (concat xs)"
    using assms(1,3) by (induction xs) (auto simp: closedText_def)
  ultimately show ?thesis by simp
qed

lemma diffText_built:
  assumes c: "cuttable Q" and q: "Q a" "Q b" and ne: "a \<noteq> b"
  obtains ops x y r where "diffText a b = finishEdits ops" "built Q ops x y"
    "a = x @ r" "b = y @ r" "Q r"
proof -
  define p where "p = diffPrefix a b"
  define s where "s = diffSuffix a b p"
  define ma where "ma = jsSlice p (length a - s) a"
  define mb where "mb = jsSlice p (length b - s) b"
  note db = diff_bounds [of a b, folded p_def, folded s_def]
  have Q: "closedText Q" using c by (simp add: cuttable_def)
  have cut: "cutsAt Q a p s" "cutsAt Q b p s"
    using c q by (simp_all add: cuttable_def Let_def p_def s_def)
  let ?out = "pushRetain p []"
  let ?ops = "case diffLines ma mb of None \<Rightarrow> pushReplace (length ma) mb ?out
    | Some hs \<Rightarrow> foldl pushHunk ?out hs"
  have "built Q [] [] []" by (auto simp: built_def)
  from built_retain [OF Q this, of "take p a"] have out: "built Q ?out (take p a) (take p a)"
    using cut(1) db(1) by (simp add: cutsAt_def min_absorb2)
  have m: "Q ma" "Q mb" using cut by (simp_all add: cutsAt_def ma_def mb_def)
  have "built Q ?ops (take p a @ ma) (take p a @ mb)"
  proof (cases "diffLines ma mb")
    case None
    then show ?thesis using built_replace [OF Q out, of ma mb] m by simp
  next
    case (Some hs)
    note bl = diffLines_Some [OF Some]
    have "\<forall>l \<in> set (splitLines ma). Q l" "\<forall>l \<in> set (splitLines mb). Q l"
      using c m by (simp_all add: cuttable_def)
    then have "\<forall>h \<in> set hs. Q (hunkOld h) \<and> Q (hunkNew h)"
      using blocksOf_closed [OF Q bl(1)] blocksOf_closed [OF Q bl(2)] by simp
    from built_hunks [OF c out this] show ?thesis
      using Some blocksOf_concat [OF bl(1)] blocksOf_concat [OF bl(2)] by simp
  qed
  moreover have "diffText a b = finishEdits ?ops"
    using ne unfolding diffText_def Let_def p_def [symmetric] s_def [symmetric]
      ma_def [symmetric] mb_def [symmetric] by (simp only: if_False)
  moreover have "a = (take p a @ ma) @ drop (length a - s) a"
    using take_drop_cover [OF db(1)] by (simp add: ma_def)
  moreover have "b = (take p a @ mb) @ drop (length a - s) a"
    using take_drop_cover [OF db(2)] by (simp add: mb_def db(3,4))
  moreover have "Q (drop (length a - s) a)" using cut(1) by (simp add: cutsAt_def)
  ultimately show ?thesis using that by blast
qed

text \<open>The pieces of the old text an edit list cuts, and the texts it inserts.\<close>

fun touched :: "'a list \<Rightarrow> 'a edit list \<Rightarrow> 'a list list" where
  "touched xs [] = [xs]"
| "touched xs (Retain n # es) = take n xs # touched (drop n xs) es"
| "touched xs (Delete n # es) = take n xs # touched (drop n xs) es"
| "touched xs (Insert s # es) = s # touched xs es"

text \<open>How far an edit list reads the old text.\<close>

fun reads :: "'a edit list \<Rightarrow> nat" where
  "reads [] = 0"
| "reads (Retain n # es) = n + reads es"
| "reads (Delete n # es) = n + reads es"
| "reads (Insert s # es) = reads es"

fun idle :: "'a edit \<Rightarrow> bool" where
  "idle (Retain n) = (n = 0)"
| "idle (Delete n) = (n = 0)"
| "idle (Insert s) = (s = [])"

lemma touched_pieces: "touched (oldText ps @ r) (map strip ps) = map pieceText ps @ [r]"
  by (induction ps rule: oldText.induct) auto

lemma reads_pieces: "reads (map strip ps) = length (oldText ps)"
  by (induction ps rule: oldText.induct) auto

lemma oldText_closed: "closedText Q \<Longrightarrow> \<forall>p \<in> set ps. Q (pieceText p) \<Longrightarrow> Q (oldText ps)"
  by (induction ps rule: oldText.induct) (auto simp: closedText_def)

lemma diffText_spec:
  assumes c: "cuttable Q" and q: "Q a" "Q b"
  shows "applyEdits a (diffText a b) = b" "compact (diffText a b)"
    "reads (diffText a b) \<le> length a" "\<forall>e \<in> set (diffText a b). \<not> idle e"
    "diffText a b = [] \<or> \<not> isRetain (last (diffText a b))"
    "\<forall>t \<in> set (touched a (diffText a b)). Q t"
proof -
  have "applyEdits a (diffText a b) = b \<and> compact (diffText a b)
    \<and> reads (diffText a b) \<le> length a \<and> (\<forall>e \<in> set (diffText a b). \<not> idle e)
    \<and> (diffText a b = [] \<or> \<not> isRetain (last (diffText a b)))
    \<and> (\<forall>t \<in> set (touched a (diffText a b)). Q t)"
  proof (cases "a = b")
    case True
    then show ?thesis using q by (simp add: diffText_def)
  next
    case False
    obtain ops x y r where d: "diffText a b = finishEdits ops" and b: "built Q ops x y"
      and a: "a = x @ r" "b = y @ r" "Q r" by (rule diffText_built [OF c q False])
    obtain ps where ps: "ops = map strip ps" "oldText ps = x" "newText ps = y"
      "\<forall>p \<in> set ps. pieceText p \<noteq> [] \<and> Q (pieceText p)" and cp: "compact ops"
      using b by (auto simp: built_def)
    obtain rs where rs: "ops = finishEdits ops @ rs" using finishEdits_prefix by blast
    then obtain p1 p2 where p: "ps = p1 @ p2" "finishEdits ops = map strip p1"
      using ps(1) by (metis append_eq_map_conv)
    have ap: "applyEdits a (diffText a b) = b"
      using applyEdits_pieces [of ps r] ps a d by (simp add: applyEdits_finish)
    have a1: "a = oldText p1 @ oldText p2 @ r" using a ps(2) p by (simp add: oldText_append)
    have Q: "closedText Q" using c by (simp add: cuttable_def)
    have Qr: "Q (oldText p2 @ r)"
      using oldText_closed [OF Q, of p2] ps(4) p a(3) Q by (simp add: closedText_def)
    have t: "\<forall>t \<in> set (touched a (diffText a b)). Q t"
      using ps(4) p Qr touched_pieces [of p1 "oldText p2 @ r"] a1 d by auto
    have "\<not> idle (strip q)" if "q \<in> set ps" for q using ps(4) that by (cases q) auto
    then have i: "\<forall>e \<in> set (diffText a b). \<not> idle e" using d p by auto
    have l: "diffText a b = [] \<or> \<not> isRetain (last (diffText a b))"
      unfolding d finishEdits_def
      by (cases "dropWhile isRetain (rev ops)") (auto simp: last_rev dest: dropWhile_eq_Cons_conv [THEN iffD1])
    have "reads (diffText a b) \<le> length a" using d p(2) a1 by (simp add: reads_pieces)
    then show ?thesis using ap cp rs d compact_prefix [of "finishEdits ops" rs] i l t by simp
  qed
  then show "applyEdits a (diffText a b) = b" "compact (diffText a b)"
    "reads (diffText a b) \<le> length a" "\<forall>e \<in> set (diffText a b). \<not> idle e"
    "diffText a b = [] \<or> \<not> isRetain (last (diffText a b))"
    "\<forall>t \<in> set (touched a (diffText a b)). Q t" by blast+
qed

interpretation file_diff: quiet_differ diffText applyEdits "[]"
proof unfold_locales
  show "applyEdits a (diffText a b) = b" for a b
    using diffText_spec(1) [OF cuttable_any] by simp
  show "diffText a a = []" for a by (simp add: diffText_def)
  show "applyEdits a [] = a" for a :: jsstr by simp
qed

section \<open>Properties\<close>

text \<open>C1: the delta the synchronisation applies for a file that another program rewrote turns
  the old text into the new one; it is empty exactly for equal texts, stays inside the old
  text, and is in the builder's normal form (no empty operation, no two neighbours of the same
  kind, no trailing retain).\<close>

theorem diffText_correct:
  "applyEdits a (diffText a b) = b
    \<and> (diffText a b = [] \<longleftrightarrow> a = b)
    \<and> reads (diffText a b) \<le> length a
    \<and> compact (diffText a b) \<and> \<not> list_ex idle (diffText a b)
    \<and> (diffText a b = [] \<or> \<not> isRetain (last (diffText a b)))"
  using diffText_spec [OF cuttable_any TrueI TrueI, of a b] file_diff.diff_nothing_iff [of a b]
  by (simp add: list_ex_iff)

theorem diffText_correct_witness:
  "applyEdits [97, 10, 98, 10, 99] (diffText [97, 10, 98, 10, 99] [97, 10, 120, 10, 99::cu])
    = [97, 10, 120, 10, 99]"
  using diffText_correct [of "[97, 10, 98, 10, 99]" "[97, 10, 120, 10, 99]"] by blast

text \<open>C6: between texts whose surrogates come in pairs, the delta never cuts a pair: every
  piece of the old text it keeps or deletes, the rest behind it, and every text it inserts is
  itself well formed.\<close>

theorem diffText_keeps_pairs:
  assumes "wellFormed a" "wellFormed b" "t \<in> set (touched a (diffText a b))"
  shows "wellFormed t"
  using diffText_spec(6) [OF cuttable_wellFormed assms(1,2)] assms(3) by blast

theorem diffText_keeps_pairs_witness: "wellFormed [0xD83D, 0xDE01::cu]"
  using diffText_keeps_pairs [of "[97, 0xD83D, 0xDE00, 98]" "[97, 0xD83D, 0xDE01, 98]"
      "[0xD83D, 0xDE01]"]
  by code_simp

text \<open>C2: the line comparison is Myers' algorithm: the script it walks back is a valid edit
  script between the two lists of lines, and no edit script needs fewer deletions and
  insertions.  It gives up exactly when every script needs more than the limit of edits.\<close>

theorem editScript_shortest:
  "case editScript la lb of
     None \<Rightarrow> (\<forall>ops. script la lb ops \<longrightarrow> maxLineEdits < cost ops)
   | Some ops \<Rightarrow> script la lb ops \<and> cost ops \<le> maxLineEdits
       \<and> (\<forall>ops'. script la lb ops' \<longrightarrow> cost ops \<le> cost ops')"
  by (rule editScript_spec)

theorem editScript_shortest_witness:
  "cost [Ins, Same, Same, Del] \<le> cost [Del, Del, Same, Ins, Ins]
    \<and> script [1, 2, 3::nat] [3, 1, 2] [Ins, Same, Same, Del]"
proof -
  have "editScript [1, 2, 3::nat] [3, 1, 2] = Some [Ins, Same, Same, Del]" by code_simp
  then show ?thesis
    using editScript_shortest [of "[1, 2, 3::nat]" "[3, 1, 2]"] by (simp add: eval_nat_numeral)
qed

end
