(* ===== verification/OrderKeys.thy ===== *)
theory OrderKeys
  imports Prelude
begin

text \<open>
  Fractional sort keys of the mind map (\<open>plugin-mindmap/src/order.ts\<close>): a key strictly
  between two neighbours, the order of siblings, and the keys to write so that a list of
  siblings gets a wanted order with as few writes as possible (the longest increasing
  subsequence of the present keys keeps its keys).
\<close>

section \<open>Keys\<close>

datatype key_error = BadDigit | OutOfOrder | Diverges

definition DIGITS :: jsstr where
  "DIGITS = js ''0123456789ABCDEFGHIJKLMNOPQRSTUVWXYZabcdefghijklmnopqrstuvwxyz''"

definition BASE :: nat where "BASE = length DIGITS"

text \<open>\<open>DIGITS.indexOf(c)\<close>, an error when it is not there.\<close>

definition digitValue :: "cu \<Rightarrow> key_error + nat" where
  "digitValue c = (case indexOf c DIGITS of None \<Rightarrow> Inl BadDigit | Some v \<Rightarrow> Inr v)"

abbreviation zero :: cu where "zero \<equiv> 48"

text \<open>The common prefix, with \<open>a\<close> filled up with zeros.\<close>

definition padPrefix :: "jsstr \<Rightarrow> jsstr \<Rightarrow> nat" where
  "padPrefix a b =
     scanWhile (length b) (\<lambda>n. (if n < length a then a ! n else zero) = b ! n) 0"

lemma padPrefix_le: "padPrefix a b \<le> length b"
  unfolding padPrefix_def by (rule scanWhile_spec(2)) simp

lemma BASE_gt: "0 + 1 < BASE"
  by (simp add: BASE_def DIGITS_def js_def)

function midpoint :: "jsstr \<Rightarrow> jsstr option \<Rightarrow> key_error + jsstr" where
  "midpoint a b =
     (let n = (case b of None \<Rightarrow> 0 | Some b' \<Rightarrow> padPrefix a b')
      in if 0 < n
         then (case midpoint (drop n a) (Some (drop n (the b))) of
                 Inl e \<Rightarrow> Inl e | Inr m \<Rightarrow> Inr (take n (the b) @ m))
         else case (if a = [] then Inr 0 else digitValue (hd a)) of Inl e \<Rightarrow> Inl e | Inr da \<Rightarrow>
           case (case b of None \<Rightarrow> Inr BASE
                 | Some b' \<Rightarrow> if b' = [] then Inl BadDigit else digitValue (hd b')) of
             Inl e \<Rightarrow> Inl e
           | Inr db \<Rightarrow>
               if da + 1 < db then Inr [DIGITS ! ((da + db) div 2)]
               else if b \<noteq> None \<and> 1 < length (the b) then Inr [hd (the b)]
               else (case midpoint (tl a) None of
                       Inl e \<Rightarrow> Inl e | Inr m \<Rightarrow> Inr (DIGITS ! da # m)))"
  by pat_completeness auto

termination
proof (relation "measure (\<lambda>(a, b). length a + (case b of None \<Rightarrow> 0 | Some b' \<Rightarrow> Suc (length b')))",
    goal_cases)
  case (2 a b n)
  then show ?case using padPrefix_le [of a "the b"] by (cases b) auto
next
  case (3 a b n da db)
  then show ?case using BASE_gt by (cases b; cases a) auto
qed simp

declare midpoint.simps [simp del]

definition keyBetween :: "jsstr option \<Rightarrow> jsstr option \<Rightarrow> key_error + jsstr" where
  "keyBetween before after =
     (if before \<noteq> None \<and> after \<noteq> None \<and> the after \<le> the before then Inl OutOfOrder
      else midpoint (case before of None \<Rightarrow> [] | Some b \<Rightarrow> b) after)"

text \<open>\<open>compareSiblings\<close>: by key, then by id.\<close>

definition compareSiblings :: "jsstr \<times> jsstr \<Rightarrow> jsstr \<times> jsstr \<Rightarrow> int" where
  "compareSiblings a b =
     (if fst a \<noteq> fst b then (if fst a < fst b then - 1 else 1)
      else if snd a < snd b then - 1 else if snd b < snd a then 1 else 0)"

section \<open>Longest increasing subsequence\<close>

text \<open>The binary search for the place of key \<open>k\<close> among the tails.\<close>

function tailPlace :: "jsstr option list \<Rightarrow> nat list \<Rightarrow> jsstr \<Rightarrow> nat \<Rightarrow> nat \<Rightarrow> nat" where
  "tailPlace keys tails k lo hi =
     (if lo < hi
      then let mid = (lo + hi) div 2
           in if the (keys ! (tails ! mid)) < k then tailPlace keys tails k (mid + 1) hi
              else tailPlace keys tails k lo mid
      else lo)"
  by pat_completeness auto
termination
  by (relation "measure (\<lambda>(keys, tails, k, lo, hi). hi - lo)") auto

declare tailPlace.simps [simp del]

text \<open>One step of the loop over the siblings that have a key.\<close>

definition lisStep :: "jsstr option list \<Rightarrow> nat \<Rightarrow> nat list \<times> (nat \<times> nat) list
    \<Rightarrow> nat list \<times> (nat \<times> nat) list" where
  "lisStep keys i st =
     (case st of (tails, prev) \<Rightarrow>
        let k = the (keys ! i);
            lo = tailPlace keys tails k 0 (length tails);
            prev' = (if 0 < lo then AList.update i (tails ! (lo - 1)) prev else prev)
        in (if lo < length tails then tails[lo := i] else tails @ [i], prev'))"

text \<open>\<open>while (cur !== undefined) { kept.add(cur); cur = prev.get(cur) }\<close>, with fuel.\<close>

fun follow :: "nat \<Rightarrow> (nat \<times> nat) list \<Rightarrow> nat option \<Rightarrow> nat list \<Rightarrow> nat list option" where
  "follow fuel prev None kept = Some kept"
| "follow 0 prev (Some cur) kept = None"
| "follow (Suc fuel) prev (Some cur) kept =
     follow fuel prev (map_of prev cur) (if cur \<in> set kept then kept else kept @ [cur])"

definition keyed :: "jsstr option list \<Rightarrow> nat list" where
  "keyed keys = filter (\<lambda>i. keys ! i \<noteq> None) [0..<length keys]"

definition keptKeys :: "jsstr option list \<Rightarrow> nat list option" where
  "keptKeys keys =
     (let (tails, prev) = fold (lisStep keys) (keyed keys) ([], [])
      in follow (length keys) prev (if tails = [] then None else Some (last tails)) [])"

text \<open>The first kept key after position \<open>i\<close>.\<close>

definition keptAfter :: "jsstr option list \<Rightarrow> nat list \<Rightarrow> nat \<Rightarrow> jsstr option" where
  "keptAfter keys kept i =
     (case filter (\<lambda>j. j \<in> set kept) [Suc i..<length keys] of [] \<Rightarrow> None | j # rest \<Rightarrow> keys ! j)"

function fillKeys :: "jsstr option list \<Rightarrow> nat list \<Rightarrow> nat \<Rightarrow> jsstr option \<Rightarrow> (nat \<times> jsstr) list
    \<Rightarrow> key_error + (nat \<times> jsstr) list" where
  "fillKeys keys kept i before out =
     (if length keys \<le> i then Inr out
      else if i \<in> set kept then fillKeys keys kept (Suc i) (keys ! i) out
      else case keyBetween before (keptAfter keys kept i) of
             Inl e \<Rightarrow> Inl e
           | Inr k \<Rightarrow> fillKeys keys kept (Suc i) (Some k) (AList.update i k out))"
  by pat_completeness auto
termination
  by (relation "measure (\<lambda>(keys, kept, i, before, out). length keys - i)") auto

declare fillKeys.simps [simp del]

definition reorderKeys :: "jsstr option list \<Rightarrow> key_error + (nat \<times> jsstr) list" where
  "reorderKeys keys =
     (case keptKeys keys of None \<Rightarrow> Inl Diverges
      | Some kept \<Rightarrow> fillKeys keys kept 0 None [])"

section \<open>Digits and keys\<close>

definition digits :: "jsstr \<Rightarrow> bool" where
  "digits s \<longleftrightarrow> set s \<subseteq> set DIGITS"

definition validKey :: "jsstr \<Rightarrow> bool" where
  "validKey s \<longleftrightarrow> s \<noteq> [] \<and> digits s \<and> last s \<noteq> zero"

lemma DIGITS_facts: "sorted_wrt (<) DIGITS" "length DIGITS = 62" "DIGITS ! 0 = zero"
  by code_simp+

lemma BASE_eq: "BASE = 62"
  by (simp add: BASE_def DIGITS_facts)

lemma DIGITS_less: "i < 62 \<Longrightarrow> j < 62 \<Longrightarrow> DIGITS ! i < DIGITS ! j \<longleftrightarrow> i < j"
  using DIGITS_facts(1) sorted_wrt_nth_less [of "(<)" DIGITS]
  by (metis DIGITS_facts(2) linorder_neqE_nat order_less_asym)

lemma digitValue_in:
  assumes "c \<in> set DIGITS"
  obtains v where "digitValue c = Inr v" "v < 62" "DIGITS ! v = c"
proof -
  obtain v where "indexOf c DIGITS = Some v" using assms indexOf_None by fastforce
  then show ?thesis using that [of v] indexOf_Some [of c DIGITS v]
    by (simp add: digitValue_def DIGITS_facts)
qed

lemma digits_Cons [simp]: "digits (c # s) \<longleftrightarrow> c \<in> set DIGITS \<and> digits s"
  by (simp add: digits_def)

lemma digits_Nil [simp]: "digits []"
  by (simp add: digits_def)

lemma digits_drop: "digits s \<Longrightarrow> digits (drop n s)"
  unfolding digits_def using set_drop_subset [of n s] by blast

lemma digits_take: "digits s \<Longrightarrow> digits (take n s)"
  unfolding digits_def using set_take_subset [of n s] by blast

lemma digits_tl: "digits s \<Longrightarrow> digits (tl s)"
  by (cases s) auto

lemma digits_append: "digits (s @ t) \<longleftrightarrow> digits s \<and> digits t"
  by (simp add: digits_def)

lemma append_less_append: "u @ s < u @ t \<longleftrightarrow> s < (t::cu list)"
  by (induction u) auto

text \<open>After the common prefix: the rest of \<open>a\<close> is still below the rest of \<open>b\<close>.\<close>

lemma padPrefix_spec:
  assumes ab: "a < b" and l: "last b \<noteq> zero"
  defines "n \<equiv> padPrefix a b"
  shows "n < length b" "drop n a < drop n b" "(if n < length a then a ! n else zero) \<noteq> b ! n"
    "\<And>m. drop n a < m \<Longrightarrow> a < take n b @ m"
proof -
  let ?P = "\<lambda>i. (if i < length a then a ! i else zero) = b ! i"
  note sp = scanWhile_spec [of 0 "length b" ?P, OF le0, folded padPrefix_def [of a b], folded n_def]
  have bne: "b \<noteq> []" using ab by auto
  have pre: "take n a = take (min n (length a)) b"
  proof (rule nth_equalityI)
    show "length (take n a) = length (take (min n (length a)) b)" using sp(2) by auto
    fix i assume "i < length (take n a)"
    then show "take n a ! i = take (min n (length a)) b ! i" using sp(3) by auto
  qed
  have nb: "n \<noteq> length b"
  proof
    assume n: "n = length b"
    show False
    proof (cases "length b \<le> length a")
      case True
      then have "take (length b) a = b" using pre n by (simp add: min_def)
      then have "a = b @ drop (length b) a" by (metis append_take_drop_id)
      then show False using ab append_less_append [of b "drop (length b) a" "[]"] by simp
    next
      case False
      then have "length b - 1 < n" "\<not> length b - 1 < length a" using n bne
        by (cases b; simp)+
      then have "b ! (length b - 1) = zero" using sp(3) by auto
      then show False using l bne by (simp add: last_conv_nth)
    qed
  qed
  show n: "n < length b" using sp(2) nb by simp
  show "(if n < length a then a ! n else zero) \<noteq> b ! n" using sp(4) n by simp
  have "drop n a < drop n b \<and> (\<forall>m. drop n a < m \<longrightarrow> a < take n b @ m)"
  proof (cases "n \<le> length a")
    case True
    then have t: "take n a = take n b" using pre by (simp add: min_absorb1)
    have "take n b @ drop n a < take n b @ drop n b" using ab t by (metis append_take_drop_id)
    moreover have "a = take n b @ drop n a" by (metis t append_take_drop_id)
    ultimately show ?thesis by (metis append_less_append)
  next
    case False
    have t: "take (length a) b = a" using pre False by (simp add: min_absorb2)
    have "take (length a) (take n b) = a" using t False by (simp add: min_absorb1)
    then obtain r where nb: "take n b = a @ r" by (metis append_take_drop_id)
    then have "length (a @ r) = n" using n by (metis length_take min_absorb2 less_imp_le)
    then have "r \<noteq> []" using False by auto
    then have "[] < r @ m" for m by (cases r) auto
    then have "a < take n b @ m" for m
      using append_less_append [of a "[]" "r @ m"] by (simp add: nb)
    moreover have "drop n b \<noteq> []" using n by simp
    ultimately show ?thesis using False by (cases "drop n b") auto
  qed
  then show "drop n a < drop n b" "\<And>m. drop n a < m \<Longrightarrow> a < take n b @ m" by blast+
qed

text \<open>What \<open>keyBetween\<close> requires of its neighbours.\<close>

definition upperKey :: "jsstr \<Rightarrow> jsstr option \<Rightarrow> bool" where
  "upperKey a b \<longleftrightarrow> (case b of None \<Rightarrow> True | Some b' \<Rightarrow> digits b' \<and> last b' \<noteq> zero \<and> a < b')"

lemma validKey_single: "0 < v \<Longrightarrow> v < 62 \<Longrightarrow> validKey [DIGITS ! v]"
  using DIGITS_less [of 0 v] nth_mem [of v DIGITS] by (auto simp: validKey_def DIGITS_facts)

lemma validKey_prepend:
  "digits s \<Longrightarrow> validKey m \<Longrightarrow> validKey (s @ m)"
  by (simp add: validKey_def digits_append)

lemma midpoint_spec:
  "digits a \<Longrightarrow> upperKey a b \<Longrightarrow>
     \<exists>m. midpoint a b = Inr m \<and> validKey m \<and> a < m \<and> (b \<noteq> None \<longrightarrow> m < the b)"
proof (induction a b rule: midpoint.induct)
  case (1 a b)
  let ?n = "case b of None \<Rightarrow> 0 | Some b' \<Rightarrow> padPrefix a b'"
  show ?case
  proof (cases "0 < ?n")
    case True
    then obtain b' where b: "b = Some b'" and n: "?n = padPrefix a b'" "0 < padPrefix a b'"
      by (cases b) auto
    have b': "digits b'" "last b' \<noteq> zero" "a < b'" using "1.prems"(2) b by (auto simp: upperKey_def)
    note pp = padPrefix_spec [OF b'(3,2)]
    let ?p = "padPrefix a b'"
    have "upperKey (drop ?p a) (Some (drop ?p b'))"
      using b' pp(1,2) digits_drop by (simp add: upperKey_def)
    with "1.IH"(1) [OF refl True] digits_drop [OF "1.prems"(1)] b n obtain m where
      m: "midpoint (drop ?p a) (Some (drop ?p b')) = Inr m" "validKey m" "drop ?p a < m"
        "m < drop ?p b'" by auto
    have "midpoint a b = Inr (take ?p b' @ m)"
      using m(1) b n by (subst midpoint.simps) (simp add: Let_def)
    moreover have "take ?p b' @ m < b'"
      using m(4) append_less_append [of "take ?p b'" m "drop ?p b'"] by simp
    ultimately show ?thesis
      using pp(4) [OF m(3)] validKey_prepend [OF digits_take [OF b'(1)] m(2)] b by auto
  next
    case False
    obtain da where da: "(if a = [] then Inr 0 else digitValue (hd a)) = Inr da" "da < 62"
      "a \<noteq> [] \<longrightarrow> DIGITS ! da = hd a" "a = [] \<longrightarrow> da = 0"
      using "1.prems"(1) digitValue_in [of "hd a"] by (cases a) auto
    obtain db where db: "(case b of None \<Rightarrow> Inr BASE
        | Some b' \<Rightarrow> if b' = [] then Inl BadDigit else digitValue (hd b')) = Inr db" "db \<le> 62"
      and lt: "da < db" and bh: "b \<noteq> None \<longrightarrow> the b \<noteq> [] \<and> db < 62 \<and> DIGITS ! db = hd (the b)"
    proof (cases b)
      case None
      then show ?thesis using that [of 62] da(2) by (simp add: BASE_eq)
    next
      case (Some b')
      then have b': "digits b'" "last b' \<noteq> zero" "a < b'"
        using "1.prems"(2) by (auto simp: upperKey_def)
      then obtain c cs where c: "b' = c # cs" by (cases b') auto
      obtain v where v: "digitValue c = Inr v" "v < 62" "DIGITS ! v = c"
        using digitValue_in [of c] b'(1) c by auto
      have n0: "padPrefix a b' = 0" using False Some by simp
      have ne: "(if a \<noteq> [] then a ! 0 else zero) \<noteq> c"
        using padPrefix_spec(3) [OF b'(3,2), unfolded n0] c by simp
      have "da < v"
      proof (cases a)
        case Nil
        then have "v \<noteq> 0" using ne v(3) DIGITS_facts(3) by (cases "v = 0") auto
        then show ?thesis using Nil da(4) by simp
      next
        case (Cons x xs)
        then have "x < c" using b'(3) c ne by (auto simp: Cons_less_Cons)
        then show ?thesis using DIGITS_less [OF da(2) v(2)] v(3) da(3) Cons by simp
      qed
      then show ?thesis using that [of v] v c Some by simp
    qed
    have up: "a < s" if "s \<noteq> []" "a \<noteq> [] \<longrightarrow> hd a < hd s" for s
      using that by (cases a; cases s) auto
    have eq: "midpoint a b = (if da + 1 < db then Inr [DIGITS ! ((da + db) div 2)]
        else if b \<noteq> None \<and> 1 < length (the b) then Inr [hd (the b)]
        else (case midpoint (tl a) None of Inl e \<Rightarrow> Inl e | Inr m \<Rightarrow> Inr (DIGITS ! da # m)))"
      using False da(1) db(1) by (subst midpoint.simps) (simp add: Let_def)
    consider (mid) "da + 1 < db" | (short) "\<not> da + 1 < db" "b \<noteq> None" "1 < length (the b)"
      | (deep) "\<not> da + 1 < db" "\<not> (b \<noteq> None \<and> 1 < length (the b))" by blast
    then show ?thesis
    proof cases
      case mid
      let ?v = "(da + db) div 2"
      have v: "da < ?v" "?v < db" "?v < 62" using mid db(2) by auto
      have "a < [DIGITS ! ?v]" using v da DIGITS_less [of da ?v] by (intro up) auto
      moreover have "b \<noteq> None \<longrightarrow> [DIGITS ! ?v] < the b"
        using bh v DIGITS_less [of ?v db] by (cases "the b") auto
      ultimately show ?thesis using mid eq validKey_single [of ?v] v by simp
    next
      case short
      then have h: "hd (the b) = DIGITS ! db" "db < 62" using bh by auto
      have "a < [DIGITS ! db]" using lt h(2) da DIGITS_less [of da db] by (intro up) auto
      moreover have "[DIGITS ! db] < the b" using short bh
        by (cases "the b"; cases "tl (the b)") auto
      ultimately show ?thesis using short eq h validKey_single [of db] lt by simp
    next
      case deep
      have "upperKey (tl a) None" by (simp add: upperKey_def)
      with "1.IH"(2) [OF refl False da(1) db(1) deep] digits_tl [OF "1.prems"(1)] obtain m where
        m: "midpoint (tl a) None = Inr m" "validKey m" "tl a < m" by auto
      have "a < DIGITS ! da # m" using m(3) da(3) by (cases a) auto
      moreover have "b \<noteq> None \<longrightarrow> DIGITS ! da # m < the b"
        using bh lt da(2) DIGITS_less [of da db] by (cases "the b") auto
      moreover have "validKey (DIGITS ! da # m)"
        using m(2) da(2) nth_mem [of da DIGITS] by (auto simp: validKey_def DIGITS_facts)
      moreover have "midpoint a b = Inr (DIGITS ! da # m)"
        by (simp only: eq if_not_P [OF deep(1)] if_not_P [OF deep(2)] m(1) sum.case)
      ultimately show ?thesis by simp
    qed
  qed
qed

lemma keyBetween_spec:
  assumes "case before of None \<Rightarrow> True | Some b \<Rightarrow> digits b"
    and "upperKey (case before of None \<Rightarrow> [] | Some b \<Rightarrow> b) after"
  shows "\<exists>m. keyBetween before after = Inr m \<and> validKey m
    \<and> (before \<noteq> None \<longrightarrow> the before < m) \<and> (after \<noteq> None \<longrightarrow> m < the after)"
  using midpoint_spec [of "case before of None \<Rightarrow> [] | Some b \<Rightarrow> b" after] assms
  by (auto simp: keyBetween_def upperKey_def split: option.splits)

section \<open>The siblings that keep their key\<close>

text \<open>Positions with strictly increasing keys.\<close>

definition increasing :: "jsstr option list \<Rightarrow> nat list \<Rightarrow> bool" where
  "increasing keys s \<longleftrightarrow> sorted_wrt (\<lambda>i j. i < j \<and> the (keys ! i) < the (keys ! j)) s
     \<and> (\<forall>i \<in> set s. i < length keys \<and> keys ! i \<noteq> None)"

lemma tailPlace_spec:
  assumes "lo \<le> hi" "hi \<le> length tails"
    and "\<And>l m. l < m \<Longrightarrow> m < length tails \<Longrightarrow> the (keys ! (tails ! l)) < the (keys ! (tails ! m))"
    and "\<And>l. l < lo \<Longrightarrow> the (keys ! (tails ! l)) < k"
    and "\<And>l. hi \<le> l \<Longrightarrow> l < length tails \<Longrightarrow> \<not> the (keys ! (tails ! l)) < k"
  shows "tailPlace keys tails k lo hi \<le> length tails
    \<and> (\<forall>l < tailPlace keys tails k lo hi. the (keys ! (tails ! l)) < k)
    \<and> (\<forall>l. tailPlace keys tails k lo hi \<le> l \<longrightarrow> l < length tails
        \<longrightarrow> \<not> the (keys ! (tails ! l)) < k)"
  using assms
proof (induction keys tails k lo hi rule: tailPlace.induct)
  case (1 keys tails k lo hi)
  let ?key = "\<lambda>l. the (keys ! (tails ! l))" and ?mid = "(lo + hi) div 2"
  show ?case
  proof (cases "lo < hi")
    case False
    then have "tailPlace keys tails k lo hi = lo" by (simp add: tailPlace.simps [of keys tails k lo hi])
    then show ?thesis using "1.prems" False by simp
  next
    case True
    then have m: "lo \<le> ?mid" "?mid < hi" by auto
    show ?thesis
    proof (cases "?key ?mid < k")
      case less: True
      have lo: "?key l < k" if "l < ?mid + 1" for l
      proof (cases "l = ?mid")
        case False
        then have "?key l < ?key ?mid" using "1.prems"(2,3) that m by auto
        then show ?thesis using less by (rule order_less_trans)
      qed (use less in simp)
      show ?thesis
        using "1.IH"(1) [OF True refl less _ "1.prems"(2,3) lo "1.prems"(5)] m True less
        by (simp add: tailPlace.simps [of keys tails k lo hi] Let_def)
    next
      case ge: False
      have hi: "\<not> ?key l < k" if "?mid \<le> l" "l < length tails" for l
      proof (cases "l = ?mid")
        case False
        then have "?key ?mid < ?key l" using "1.prems"(3) that by auto
        then show ?thesis using ge by (meson order_less_trans)
      qed (use ge in simp)
      show ?thesis
        using "1.IH"(2) [OF True refl ge m(1) _ "1.prems"(3,4) hi] m True ge "1.prems"(2)
        by (simp add: tailPlace.simps [of keys tails k lo hi] Let_def)
    qed
  qed
qed

text \<open>A chain of predecessors, read backwards.\<close>

fun chain :: "(nat \<times> nat) list \<Rightarrow> nat list \<Rightarrow> bool" where
  "chain prev [] = True"
| "chain prev [i] = (map_of prev i = None)"
| "chain prev (i # j # c) = (map_of prev i = Some j \<and> chain prev (j # c))"

lemma chain_update: "i \<notin> set c \<Longrightarrow> chain (AList.update i x prev) c = chain prev c"
  by (induction prev c rule: chain.induct) (auto simp: update_conv')

text \<open>The invariant of the loop: after the positions below \<open>n\<close>.\<close>

definition lisInv :: "jsstr option list \<Rightarrow> nat \<Rightarrow> nat list \<times> (nat \<times> nat) list \<Rightarrow> bool" where
  "lisInv keys n st \<longleftrightarrow> (case st of (tails, prev) \<Rightarrow>
     (\<forall>i. n \<le> i \<longrightarrow> map_of prev i = None)
     \<and> (\<forall>l m. l < m \<longrightarrow> m < length tails \<longrightarrow> the (keys ! (tails ! l)) < the (keys ! (tails ! m)))
     \<and> (\<forall>l < length tails. \<exists>c. increasing keys (rev (tails ! l # c)) \<and> chain prev (tails ! l # c)
           \<and> length c = l \<and> (\<forall>i \<in> set (tails ! l # c). i < n))
     \<and> (\<forall>s. increasing keys s \<longrightarrow> s \<noteq> [] \<longrightarrow> (\<forall>i \<in> set s. i < n) \<longrightarrow>
           length s \<le> length tails \<and> the (keys ! (tails ! (length s - 1))) \<le> the (keys ! last s)))"

lemma increasing_snoc:
  "increasing keys (s @ [i]) \<longleftrightarrow> increasing keys s \<and> i < length keys \<and> keys ! i \<noteq> None
     \<and> (\<forall>j \<in> set s. j < i \<and> the (keys ! j) < the (keys ! i))"
  by (auto simp: increasing_def sorted_wrt_append)

lemma increasing_last:
  "increasing keys s \<Longrightarrow> j \<in> set s \<Longrightarrow> j \<le> last s \<and> the (keys ! j) \<le> the (keys ! last s)"
proof (induction s rule: rev_induct)
  case (snoc i s)
  then show ?case by (auto simp: increasing_snoc)
qed simp

lemma lisInv_step:
  assumes inv: "lisInv keys i st" and i: "i < length keys" "keys ! i \<noteq> None"
  shows "lisInv keys (Suc i) (lisStep keys i st)"
proof -
  obtain tails prev where st: "st = (tails, prev)" by fastforce
  let ?key = "\<lambda>j. the (keys ! j)"
  define lo where "lo = tailPlace keys tails (?key i) 0 (length tails)"
  define prev' where "prev' = (if 0 < lo then AList.update i (tails ! (lo - 1)) prev else prev)"
  define tails' where "tails' = (if lo < length tails then tails[lo := i] else tails @ [i])"
  have np: "map_of prev j = None" if "i \<le> j" for j using inv that by (simp add: lisInv_def st)
  have srt: "?key (tails ! l) < ?key (tails ! m)" if "l < m" "m < length tails" for l m
    using inv that by (simp add: lisInv_def st)
  have ch: "\<exists>c. increasing keys (rev (tails ! l # c)) \<and> chain prev (tails ! l # c)
      \<and> length c = l \<and> (\<forall>j \<in> set (tails ! l # c). j < i)" if "l < length tails" for l
    using inv that by (simp add: lisInv_def st)
  have opt: "length s \<le> length tails \<and> ?key (tails ! (length s - 1)) \<le> ?key (last s)"
    if "increasing keys s" "s \<noteq> []" "\<forall>j \<in> set s. j < i" for s
    using inv that by (simp add: lisInv_def st)
  have lo: "lo \<le> length tails" "\<And>l. l < lo \<Longrightarrow> ?key (tails ! l) < ?key i"
    "\<And>l. lo \<le> l \<Longrightarrow> l < length tails \<Longrightarrow> \<not> ?key (tails ! l) < ?key i"
    using tailPlace_spec [of 0 "length tails" tails keys "?key i", OF _ order_refl srt] lo_def by auto
  have step: "lisStep keys i st = (tails', prev')"
    by (simp add: lisStep_def st Let_def lo_def prev'_def tails'_def)
  have len: "length tails' = max (length tails) (Suc lo)"
    using lo(1) by (auto simp: tails'_def)
  have nth: "tails' ! l = (if l = lo then i else tails ! l)" if "l < length tails'" for l
    using that lo(1) by (auto simp: tails'_def nth_append nth_list_update)
  have upd: "chain prev' c" if "chain prev c" "\<forall>j \<in> set c. j < i" for c
    using that chain_update [of i c] by (auto simp: prev'_def)
  have c1: "map_of prev' j = None" if "Suc i \<le> j" for j
    using np [of j] that by (simp add: prev'_def update_conv')
  have c2: "?key (tails' ! l) < ?key (tails' ! m)" if "l < m" "m < length tails'" for l m
  proof -
    consider "l = lo" | "m = lo" | "l \<noteq> lo" "m \<noteq> lo" by blast
    then show ?thesis
    proof cases
      case 1
      then have "m < length tails" using that len lo(1) by auto
      then have "?key (tails ! lo) < ?key (tails ! m)" "\<not> ?key (tails ! lo) < ?key i"
        using srt that lo(3) [of lo] 1 by auto
      then show ?thesis using 1 that nth by auto
    next
      case 2
      then show ?thesis using that nth lo(2) by auto
    next
      case 3
      then have "m < length tails" using that len lo(1) by auto
      then show ?thesis using 3 that nth srt by auto
    qed
  qed
  have c3: "\<exists>c. increasing keys (rev (tails' ! l # c)) \<and> chain prev' (tails' ! l # c)
      \<and> length c = l \<and> (\<forall>j \<in> set (tails' ! l # c). j < Suc i)" if l: "l < length tails'" for l
  proof (cases "l = lo")
    case False
    then have "l < length tails" using l len lo(1) by auto
    from ch [OF this] obtain c where c: "increasing keys (rev (tails ! l # c))"
      "chain prev (tails ! l # c)" "length c = l" "\<forall>j \<in> set (tails ! l # c). j < i" by blast
    then have "\<forall>j \<in> set (tails ! l # c). j < Suc i" by auto
    then show ?thesis using upd [OF c(2,4)] c(1,3) nth [OF l] False by (intro exI [of _ c]) auto
  next
    case here: True
    show ?thesis
    proof (cases "lo = 0")
      case True
      then show ?thesis using here nth [OF l] i np [of i]
        by (intro exI [of _ "[]"]) (auto simp: prev'_def increasing_def)
    next
      case False
      let ?t = "tails ! (lo - 1)"
      have "lo - 1 < length tails" using False lo(1) by simp
      from ch [OF this] obtain c where c: "increasing keys (rev (?t # c))" "chain prev (?t # c)"
        "length c = lo - 1" "\<forall>j \<in> set (?t # c). j < i" by blast
      have "?key j < ?key i" if "j \<in> set (?t # c)" for j
      proof -
        have "?key j \<le> ?key ?t" using increasing_last [OF c(1), of j] that by auto
        moreover have "?key ?t < ?key i" using lo(2) [of "lo - 1"] False by simp
        ultimately show ?thesis by (rule order_le_less_trans)
      qed
      then have "increasing keys (rev (?t # c) @ [i])"
        using c(1,4) i by (auto simp: increasing_snoc simp del: rev.simps)
      moreover have "chain prev' (i # ?t # c)"
        using upd [OF c(2,4)] False by (simp add: prev'_def update_conv')
      ultimately show ?thesis using here nth [OF l] c(3,4) False
        by (intro exI [of _ "?t # c"]) auto
    qed
  qed
  have c4: "length s \<le> length tails' \<and> ?key (tails' ! (length s - 1)) \<le> ?key (last s)"
    if s: "increasing keys s" "s \<noteq> []" "\<forall>j \<in> set s. j < Suc i" for s
  proof (cases "last s = i")
    case False
    have "\<forall>j \<in> set s. j < i"
    proof
      fix j assume j: "j \<in> set s"
      have "last s < Suc i" using s(2,3) by simp
      then show "j < i" using increasing_last [OF s(1) j] False by auto
    qed
    note o = opt [OF s(1,2) this]
    then have n: "tails' ! (length s - 1) = (if length s - 1 = lo then i else tails ! (length s - 1))"
      using nth [of "length s - 1"] len s(2) by (cases s) auto
    show ?thesis
    proof (cases "length s - 1 = lo")
      case True
      then have "?key i \<le> ?key (tails ! lo)" using lo(3) [of lo] o s(2) by (cases s) auto
      then show ?thesis using o n True len by (auto intro: order_trans)
    qed (use o n len in auto)
  next
    case True
    then obtain r where r: "s = r @ [i]" using s(2) by (metis append_butlast_last_id)
    have "length r \<le> lo"
    proof (cases "r = []")
      case False
      have q: "increasing keys r" "\<forall>j \<in> set r. j < i" "?key (last r) < ?key i"
        using s(1) False by (auto simp: r increasing_snoc)
      note o = opt [OF q(1) False q(2)]
      show ?thesis
      proof (rule ccontr)
        assume "\<not> length r \<le> lo"
        then have "\<not> ?key (tails ! (length r - 1)) < ?key i"
          using lo(3) [of "length r - 1"] o False by (cases r) auto
        then show False using o q(3) by auto
      qed
    qed simp
    then show ?thesis using len nth [of "length r"] lo(2) [of "length r"]
      by (auto simp: r le_less)
  qed
  show ?thesis
    unfolding step lisInv_def prod.case using c1 c2 c3 c4 by blast
qed

lemma lisInv_skip:
  assumes "lisInv keys i st" "keys ! i = None"
  shows "lisInv keys (Suc i) st"
proof -
  have "\<forall>j \<in> set s. j < i" if "increasing keys s" "\<forall>j \<in> set s. j < Suc i" for s
    using that assms(2) unfolding increasing_def by (metis less_antisym)
  moreover obtain tails prev where st: "st = (tails, prev)" by fastforce
  moreover have "\<forall>l < length tails. \<exists>c. increasing keys (rev (tails ! l # c))
      \<and> chain prev (tails ! l # c) \<and> length c = l \<and> (\<forall>j \<in> set (tails ! l # c). j < Suc i)"
    using assms(1) unfolding lisInv_def st prod.case by (meson less_Suc_eq)
  ultimately show ?thesis using assms(1) unfolding lisInv_def by simp
qed

lemma lisInv_all:
  "n \<le> length keys \<Longrightarrow>
     lisInv keys n (fold (lisStep keys) (filter (\<lambda>i. keys ! i \<noteq> None) [0..<n]) ([], []))"
proof (induction n)
  case 0
  then show ?case by (auto simp: lisInv_def increasing_def neq_Nil_conv)
next
  case (Suc n)
  then show ?case using lisInv_step lisInv_skip by auto
qed

lemma follow_chain:
  "chain prev c \<Longrightarrow> length c \<le> fuel \<Longrightarrow> distinct (kept @ c) \<Longrightarrow>
     follow fuel prev (if c = [] then None else Some (hd c)) kept = Some (kept @ c)"
proof (induction c arbitrary: fuel kept)
  case (Cons x c)
  then obtain f where f: "fuel = Suc f" by (cases fuel) auto
  have "map_of prev x = (if c = [] then None else Some (hd c))" "chain prev c"
    using Cons.prems(1) by (cases c; simp)+
  then show ?case using Cons.IH [of f "kept @ [x]"] Cons.prems(2,3) f by simp
qed simp

lemma increasing_distinct: "increasing keys s \<Longrightarrow> distinct s"
  by (induction s rule: rev_induct) (auto simp: increasing_snoc)

lemma increasing_length: "increasing keys s \<Longrightarrow> length s \<le> length keys"
proof -
  assume s: "increasing keys s"
  then have "set s \<subseteq> {..<length keys}" by (auto simp: increasing_def)
  then have "card (set s) \<le> length keys"
    using card_mono [of "{..<length keys}" "set s"] by simp
  then show ?thesis using increasing_distinct [OF s] by (simp add: distinct_card)
qed

text \<open>The walk over the predecessors ends; the kept positions have increasing keys, and no
  increasing sequence of keys is longer.\<close>

lemma keptKeys_spec:
  "\<exists>kept. keptKeys keys = Some kept \<and> increasing keys (rev kept)
     \<and> (\<forall>s. increasing keys s \<longrightarrow> length s \<le> length kept)"
proof -
  obtain tails prev where st: "fold (lisStep keys) (keyed keys) ([], []) = (tails, prev)" by fastforce
  have inv: "lisInv keys (length keys) (tails, prev)"
    using lisInv_all [OF order_refl, of keys] st by (simp add: keyed_def)
  have opt: "length s \<le> length tails" if "increasing keys s" for s
  proof (cases "s = []")
    case False
    have "\<forall>j \<in> set s. j < length keys" using that by (simp add: increasing_def)
    then show ?thesis using inv that False by (simp add: lisInv_def)
  qed simp
  show ?thesis
  proof (cases "tails = []")
    case True
    then show ?thesis
      using st opt by (cases "length keys") (auto simp: keptKeys_def increasing_def)
  next
    case False
    have "\<forall>l < length tails. \<exists>c. increasing keys (rev (tails ! l # c))
        \<and> chain prev (tails ! l # c) \<and> length c = l"
      using inv unfolding lisInv_def prod.case by blast
    moreover have "length tails - 1 < length tails" "tails ! (length tails - 1) = last tails"
      using False by (simp_all add: last_conv_nth)
    ultimately obtain c where c: "increasing keys (rev (last tails # c))" "chain prev (last tails # c)"
      "length c = length tails - 1" by metis
    have "length (last tails # c) \<le> length keys" using increasing_length [OF c(1)] by simp
    from follow_chain [OF c(2) this, of "[]"] increasing_distinct [OF c(1)]
    have "keptKeys keys = Some (last tails # c)"
      using st False by (simp add: keptKeys_def)
    then show ?thesis using c(1,3) opt False by (cases tails) auto
  qed
qed

lemma increasing_less:
  "increasing keys s \<Longrightarrow> i \<in> set s \<Longrightarrow> j \<in> set s \<Longrightarrow> i < j \<Longrightarrow> the (keys ! i) < the (keys ! j)"
proof (induction s rule: rev_induct)
  case (snoc x s)
  then show ?case by (fastforce simp: increasing_snoc)
qed simp

lemma keptAfter_spec:
  "case keptAfter keys kept i of
     None \<Rightarrow> (\<exists>j \<in> set kept. i < j \<and> j < length keys \<and> keys ! j = None)
       \<or> (\<forall>j \<in> set kept. i < j \<longrightarrow> length keys \<le> j)
   | Some a \<Rightarrow> \<exists>j \<in> set kept. i < j \<and> j < length keys \<and> keys ! j = Some a
       \<and> (\<forall>j' \<in> set kept. i < j' \<longrightarrow> j' < length keys \<longrightarrow> j \<le> j')"
proof (cases "filter (\<lambda>j. j \<in> set kept) [Suc i..<length keys]")
  case Nil
  then have "\<forall>j \<in> set kept. i < j \<longrightarrow> length keys \<le> j" by (auto simp: filter_empty_conv Suc_le_eq)
  then show ?thesis by (simp add: keptAfter_def Nil)
next
  case (Cons j js')
  have srt: "sorted (j # js')" unfolding Cons [symmetric] by (rule sorted_wrt_filter) simp
  have mem: "j' \<in> set (j # js') \<longleftrightarrow> j' \<in> set kept \<and> i < j' \<and> j' < length keys" for j'
    unfolding Cons [symmetric] by auto
  have "j \<le> j'" if "j' \<in> set kept" "i < j'" "j' < length keys" for j'
    using mem [of j'] that srt by auto
  then show ?thesis using mem [of j] by (auto simp: keptAfter_def Cons split: option.splits)
qed

text \<open>The key of a sibling after the writes.\<close>

definition newKey :: "jsstr option list \<Rightarrow> (nat \<times> jsstr) list \<Rightarrow> nat \<Rightarrow> jsstr" where
  "newKey keys out i = (case map_of out i of Some k \<Rightarrow> k | None \<Rightarrow> the (keys ! i))"

lemma fillKeys_spec:
  assumes kept: "increasing keys (rev kept)" "\<And>j. j \<in> set kept \<Longrightarrow> validKey (the (keys ! j))"
  shows "i \<le> length keys \<Longrightarrow> case before of None \<Rightarrow> True | Some b \<Rightarrow> digits b \<Longrightarrow>
    (\<And>j. j \<in> set kept \<Longrightarrow> i \<le> j \<Longrightarrow> before \<noteq> None \<Longrightarrow> the before < the (keys ! j)) \<Longrightarrow>
    (\<And>j. i \<le> j \<Longrightarrow> map_of out j = None) \<Longrightarrow>
    \<exists>out'. fillKeys keys kept i before out = Inr out'
      \<and> (\<forall>j < i. map_of out' j = map_of out j)
      \<and> (\<forall>j \<ge> length keys. map_of out' j = None)
      \<and> (\<forall>j. i \<le> j \<longrightarrow> j < length keys \<longrightarrow> (map_of out' j = None \<longleftrightarrow> j \<in> set kept)
          \<and> validKey (newKey keys out' j) \<and> (before \<noteq> None \<longrightarrow> the before < newKey keys out' j)
          \<and> (\<forall>j'. j < j' \<longrightarrow> j' < length keys \<longrightarrow> newKey keys out' j < newKey keys out' j'))"
proof (induction "length keys - i" arbitrary: i before out)
  case 0
  then show ?case by (subst fillKeys.simps) auto
next
  case (Suc n)
  then have i: "i < length keys" by simp
  have kin: "j < length keys \<and> keys ! j \<noteq> None" if "j \<in> set kept" for j
    using kept(1) that by (auto simp: increasing_def)
  have kless: "the (keys ! j) < the (keys ! j')" if "j \<in> set kept" "j' \<in> set kept" "j < j'" for j j'
    using increasing_less [OF kept(1)] that by simp
  show ?case
  proof (cases "i \<in> set kept")
    case True
    then obtain k where k: "keys ! i = Some k" using kin by auto
    have f: "fillKeys keys kept i before out = fillKeys keys kept (Suc i) (keys ! i) out"
      using i True by (subst fillKeys.simps) simp
    have dk: "validKey k" using kept(2) [OF True] k by simp
    have "\<exists>out'. fillKeys keys kept (Suc i) (keys ! i) out = Inr out'
      \<and> (\<forall>j < Suc i. map_of out' j = map_of out j)
      \<and> (\<forall>j \<ge> length keys. map_of out' j = None)
      \<and> (\<forall>j. Suc i \<le> j \<longrightarrow> j < length keys \<longrightarrow> (map_of out' j = None \<longleftrightarrow> j \<in> set kept)
          \<and> validKey (newKey keys out' j) \<and> (keys ! i \<noteq> None \<longrightarrow> the (keys ! i) < newKey keys out' j)
          \<and> (\<forall>j'. j < j' \<longrightarrow> j' < length keys \<longrightarrow> newKey keys out' j < newKey keys out' j'))"
    proof (rule Suc.hyps(1))
      show "case keys ! i of None \<Rightarrow> True | Some b \<Rightarrow> digits b" using k dk by (simp add: validKey_def)
      show "the (keys ! i) < the (keys ! j)" if "j \<in> set kept" "Suc i \<le> j" for j
        using kless [OF True] that by simp
      show "map_of out j = None" if "Suc i \<le> j" for j using Suc.prems(4) that by simp
    qed (use Suc.hyps(2) i in auto)
    then obtain out' where o: "fillKeys keys kept (Suc i) (keys ! i) out = Inr out'"
      "\<And>j. j < Suc i \<Longrightarrow> map_of out' j = map_of out j"
      "\<And>j. length keys \<le> j \<Longrightarrow> map_of out' j = None"
      "\<And>j. Suc i \<le> j \<Longrightarrow> j < length keys \<Longrightarrow> (map_of out' j = None \<longleftrightarrow> j \<in> set kept)
          \<and> validKey (newKey keys out' j) \<and> k < newKey keys out' j
          \<and> (\<forall>j'. j < j' \<longrightarrow> j' < length keys \<longrightarrow> newKey keys out' j < newKey keys out' j')"
      using k by auto
    have ni: "map_of out' i = None" using o(2) [of i] Suc.prems(4) [of i] by simp
    then have nk: "newKey keys out' i = k" by (simp add: newKey_def k)
    have bk: "before \<noteq> None \<longrightarrow> the before < k" using Suc.prems(3) [OF True] k by simp
    show ?thesis
    proof (intro exI [of _ out'] conjI allI impI)
      fix j assume j: "i \<le> j" "j < length keys"
      show "(map_of out' j = None) = (j \<in> set kept)" using o(4) [of j] j ni True by (cases "j = i") auto
      show "validKey (newKey keys out' j)" using o(4) [of j] j nk dk by (cases "j = i") auto
      show "the before < newKey keys out' j" if "before \<noteq> None"
        using o(4) [of j] j nk bk that by (cases "j = i") (auto intro: order_less_trans)
      show "newKey keys out' j < newKey keys out' j'" if "j < j'" "j' < length keys" for j'
        using o(4) [of j] o(4) [of j'] j nk that by (cases "j = i") auto
    qed (use o f in auto)
  next
    case False
    let ?after = "keptAfter keys kept i"
    note ka = keptAfter_spec [where keys = keys and kept = kept and i = i]
    have up: "upperKey (case before of None \<Rightarrow> [] | Some b \<Rightarrow> b) ?after"
    proof (cases ?after)
      case (Some a)
      then obtain j where j: "j \<in> set kept" "i < j" "keys ! j = Some a" using ka by auto
      have "validKey a" using kept(2) [OF j(1)] j(3) by simp
      moreover have "before \<noteq> None \<longrightarrow> the before < a" using Suc.prems(3) [of j] j by auto
      ultimately show ?thesis using Some
        by (auto simp: upperKey_def validKey_def neq_Nil_conv split: option.splits)
    qed (simp add: upperKey_def)
    from keyBetween_spec [OF Suc.prems(2) up] obtain m where
      m: "keyBetween before ?after = Inr m" "validKey m" "before \<noteq> None \<longrightarrow> the before < m"
        "?after \<noteq> None \<longrightarrow> m < the ?after" by blast
    have mk: "m < the (keys ! j)" if j: "j \<in> set kept" "Suc i \<le> j" for j
    proof (cases ?after)
      case None
      then have "length keys \<le> j" using ka j kin by (auto simp: Suc_le_eq)
      then show ?thesis using kin [OF j(1)] by simp
    next
      case (Some a)
      then obtain l where l: "l \<in> set kept" "keys ! l = Some a" "l \<le> j"
        using ka j kin by (auto simp: Suc_le_eq)
      then show ?thesis using kless [OF l(1) j(1)] m(4) Some by (cases "l = j") auto
    qed
    let ?out = "AList.update i m out"
    have f: "fillKeys keys kept i before out = fillKeys keys kept (Suc i) (Some m) ?out"
      using i False m(1) by (subst fillKeys.simps) simp
    have "\<exists>out'. fillKeys keys kept (Suc i) (Some m) ?out = Inr out'
      \<and> (\<forall>j < Suc i. map_of out' j = map_of ?out j)
      \<and> (\<forall>j \<ge> length keys. map_of out' j = None)
      \<and> (\<forall>j. Suc i \<le> j \<longrightarrow> j < length keys \<longrightarrow> (map_of out' j = None \<longleftrightarrow> j \<in> set kept)
          \<and> validKey (newKey keys out' j) \<and> (Some m \<noteq> None \<longrightarrow> the (Some m) < newKey keys out' j)
          \<and> (\<forall>j'. j < j' \<longrightarrow> j' < length keys \<longrightarrow> newKey keys out' j < newKey keys out' j'))"
    proof (rule Suc.hyps(1))
      show "case Some m of None \<Rightarrow> True | Some b \<Rightarrow> digits b" using m(2) by (simp add: validKey_def)
      show "the (Some m) < the (keys ! j)" if "j \<in> set kept" "Suc i \<le> j" for j
        using mk that by simp
      show "map_of ?out j = None" if "Suc i \<le> j" for j
        using Suc.prems(4) that by (simp add: update_conv')
    qed (use Suc.hyps(2) i in auto)
    then obtain out' where o: "fillKeys keys kept (Suc i) (Some m) ?out = Inr out'"
      "\<And>j. j < Suc i \<Longrightarrow> map_of out' j = map_of ?out j"
      "\<And>j. length keys \<le> j \<Longrightarrow> map_of out' j = None"
      "\<And>j. Suc i \<le> j \<Longrightarrow> j < length keys \<Longrightarrow> (map_of out' j = None \<longleftrightarrow> j \<in> set kept)
          \<and> validKey (newKey keys out' j) \<and> m < newKey keys out' j
          \<and> (\<forall>j'. j < j' \<longrightarrow> j' < length keys \<longrightarrow> newKey keys out' j < newKey keys out' j')"
      by auto
    have ni: "map_of out' i = Some m" using o(2) [of i] by (simp add: update_conv')
    then have nk: "newKey keys out' i = m" by (simp add: newKey_def)
    show ?thesis
    proof (intro exI [of _ out'] conjI allI impI)
      fix j assume j: "i \<le> j" "j < length keys"
      show "(map_of out' j = None) = (j \<in> set kept)" using o(4) [of j] j ni False by (cases "j = i") auto
      show "validKey (newKey keys out' j)" using o(4) [of j] j nk m(2) by (cases "j = i") auto
      show "the before < newKey keys out' j" if "before \<noteq> None"
        using o(4) [of j] j nk m(3) that by (cases "j = i") (auto intro: order_less_trans)
      show "newKey keys out' j < newKey keys out' j'" if "j < j'" "j' < length keys" for j'
        using o(4) [of j] o(4) [of j'] j nk that by (cases "j = i") auto
    next
      show "map_of out' j = map_of out j" if "j < i" for j
        using o(2) [of j] that by (simp add: update_conv')
    qed (use o f in auto)
  qed
qed

lemma reorderKeys_spec:
  assumes valid: "\<And>k. Some k \<in> set keys \<Longrightarrow> validKey k"
  obtains kept out where "keptKeys keys = Some kept" "reorderKeys keys = Inr out"
    "increasing keys (rev kept)" "\<And>s. increasing keys s \<Longrightarrow> length s \<le> length kept"
    "\<And>i. map_of out i = None \<longleftrightarrow> length keys \<le> i \<or> i \<in> set kept"
    "\<And>i. i < length keys \<Longrightarrow> validKey (newKey keys out i)"
    "\<And>i j. i < j \<Longrightarrow> j < length keys \<Longrightarrow> newKey keys out i < newKey keys out j"
proof -
  obtain kept where k: "keptKeys keys = Some kept" "increasing keys (rev kept)"
    "\<forall>s. increasing keys s \<longrightarrow> length s \<le> length kept" using keptKeys_spec by blast
  have kin: "j < length keys \<and> keys ! j \<noteq> None" if "j \<in> set kept" for j
    using k(2) that by (auto simp: increasing_def)
  have "validKey (the (keys ! j))" if "j \<in> set kept" for j
    using kin [OF that] valid [of "the (keys ! j)"] nth_mem [of j keys] by auto
  from fillKeys_spec [OF k(2) this, of 0 None "[]"] obtain out where
    o: "fillKeys keys kept 0 None [] = Inr out"
    "\<forall>j \<ge> length keys. map_of out j = None"
    "\<forall>j. j < length keys \<longrightarrow> (map_of out j = None \<longleftrightarrow> j \<in> set kept)
          \<and> validKey (newKey keys out j)
          \<and> (\<forall>j'. j < j' \<longrightarrow> j' < length keys \<longrightarrow> newKey keys out j < newKey keys out j')" by auto
  have "map_of out i = None \<longleftrightarrow> length keys \<le> i \<or> i \<in> set kept" for i
    using o(2,3) by (meson not_le)
  moreover have "reorderKeys keys = Inr out" using k(1) o(1) by (simp add: reorderKeys_def)
  ultimately show ?thesis using that k o(3) by simp
qed

text \<open>Keeping the key of every position a strictly increasing list of keys agrees with.\<close>

lemma agreeing_increasing:
  assumes "sorted_wrt (<) ks" "length ks = length keys"
  shows "increasing keys (filter (\<lambda>i. keys ! i = Some (ks ! i)) [0..<length keys])"
proof -
  have "the (keys ! i) < the (keys ! j)"
    if "keys ! i = Some (ks ! i)" "keys ! j = Some (ks ! j)" "i < j" "j < length keys" for i j
    using that assms sorted_wrt_nth_less [of "(<)" ks i j] by simp
  then show ?thesis
    by (auto simp: increasing_def sorted_wrt_filter intro!: sorted_wrt_mono_rel [OF _ sorted_wrt_filter])
qed

section \<open>Properties\<close>

text \<open>C4: between two keys in order there is always room: for a lower neighbour made of digits
  and an upper neighbour that does not end in 0 (or for no neighbour), \<open>keyBetween\<close>
  terminates without an error in a key strictly between them, which again is made of digits
  and does not end in 0, so that insertions can go on for ever.\<close>

theorem keyBetween_between:
  assumes "\<And>b. before = Some b \<Longrightarrow> digits b" "\<And>a. after = Some a \<Longrightarrow> validKey a"
    and "\<And>b a. before = Some b \<Longrightarrow> after = Some a \<Longrightarrow> b < a"
  shows "\<exists>m. keyBetween before after = Inr m \<and> validKey m
    \<and> (before \<noteq> None \<longrightarrow> the before < m) \<and> (after \<noteq> None \<longrightarrow> m < the after)"
proof (rule keyBetween_spec)
  show "case before of None \<Rightarrow> True | Some b \<Rightarrow> digits b" using assms(1) by (cases before) auto
  have "[] < a" if "validKey a" for a using that by (cases a) (auto simp: validKey_def)
  then show "upperKey (case before of None \<Rightarrow> [] | Some b \<Rightarrow> b) after"
    using assms(2,3) by (auto simp: upperKey_def validKey_def split: option.splits)
qed

theorem keyBetween_between_witness:
  "\<exists>m. keyBetween (Some (js ''V'')) (Some (js ''V1'')) = Inr m \<and> js ''V'' < m \<and> m < js ''V1''"
proof -
  have v: "digits (js ''V'')" "validKey (js ''V1'')" "js ''V'' < js ''V1''" by code_simp+
  from keyBetween_between [of "Some (js ''V'')" "Some (js ''V1'')"] v show ?thesis by auto
qed

text \<open>C3: the keys to write for a wanted order of the siblings: \<open>reorderKeys\<close> always
  returns (the predecessor chain is finite, no key is invalid), the keys after the writes are
  valid and strictly increasing in the wanted order, and no other strictly increasing
  assignment of keys leaves more of the present keys untouched.\<close>

theorem reorderKeys_minimal:
  assumes valid: "\<And>k. Some k \<in> set keys \<Longrightarrow> validKey k"
    and ks: "sorted_wrt (<) ks" "length ks = length keys"
  shows "\<exists>out. reorderKeys keys = Inr out
    \<and> sorted_wrt (<) (map (newKey keys out) [0..<length keys])
    \<and> list_all (\<lambda>i. validKey (newKey keys out i)) [0..<length keys]
    \<and> card (dom (map_of out)) \<le> card {i. i < length keys \<and> keys ! i \<noteq> Some (ks ! i)}"
proof -
  obtain kept out where r: "reorderKeys keys = Inr out" "increasing keys (rev kept)"
    "\<And>s. increasing keys s \<Longrightarrow> length s \<le> length kept"
    "\<And>i. map_of out i = None \<longleftrightarrow> length keys \<le> i \<or> i \<in> set kept"
    "\<And>i. i < length keys \<Longrightarrow> validKey (newKey keys out i)"
    "\<And>i j. i < j \<Longrightarrow> j < length keys \<Longrightarrow> newKey keys out i < newKey keys out j"
    by (rule reorderKeys_spec [OF valid]) auto
  let ?n = "length keys" and ?same = "filter (\<lambda>i. keys ! i = Some (ks ! i)) [0..<length keys]"
  have k: "card (set kept) = length kept" "set kept \<subseteq> {..<?n}"
    using increasing_distinct [OF r(2)] r(2) by (auto simp: distinct_card increasing_def)
  have "dom (map_of out) = {..<?n} - set kept"
    unfolding dom_def r(4) by auto
  then have "card (dom (map_of out)) = ?n - length kept"
    using k by (simp add: card_Diff_subset finite_subset)
  moreover have "{i. i < ?n \<and> keys ! i \<noteq> Some (ks ! i)} = {..<?n} - set ?same" by auto
  then have "card {i. i < ?n \<and> keys ! i \<noteq> Some (ks ! i)} = ?n - length ?same"
    by (simp add: card_Diff_subset distinct_card [symmetric] subset_iff)
  moreover have "length ?same \<le> length kept" using r(3) agreeing_increasing [OF ks] .
  moreover have "sorted_wrt (<) (map (newKey keys out) [0..<?n])"
    using r(6) by (simp add: sorted_wrt_iff_nth_less)
  ultimately show ?thesis using r(1,5) by (auto simp: list_all_iff)
qed

theorem reorderKeys_minimal_witness:
  "\<exists>out. reorderKeys [Some (js ''V''), None, Some (js ''1'')] = Inr out
    \<and> card (dom (map_of out)) \<le> card {i. i < 3 \<and>
        [Some (js ''V''), None, Some (js ''1'')] ! i \<noteq> Some ([js ''V'', js ''W'', js ''X''] ! i)}"
proof -
  let ?keys = "[Some (js ''V''), None, Some (js ''1'')]"
  have "validKey (js ''V'')" "validKey (js ''1'')" by code_simp+
  then have v: "validKey k" if "Some k \<in> set ?keys" for k using that by auto
  have s: "sorted_wrt (<) [js ''V'', js ''W'', js ''X'']" by code_simp
  have l: "length [js ''V'', js ''W'', js ''X''] = length ?keys" "length ?keys = 3" by simp_all
  show ?thesis using reorderKeys_minimal [OF v s l(1)] unfolding l(2) by blast
qed

end
