(* ===== verification/MindMap.thy ===== *)
theory MindMap
  imports OrderKeys TextPatch "HOL-Library.Product_Lexorder" "HOL-Library.Multiset"
begin

text \<open>
  The reading side of the mind map (\<open>plugin-mindmap/src/model.ts\<close>): the flat model is
  a map of nodes, each naming its parent; after a merge of concurrent edits it may hold
  orphans, cycles and several roots.  \<open>resolveParents\<close> repairs it, the same way for every
  member, and \<open>materialize\<close> builds the tree to show.
\<close>

section \<open>The flat model\<close>

text \<open>The node entries; arrows and summaries are JSON objects.\<close>

record flat_node =
  fnId :: jsstr
  fnParent :: "jsstr option"
  fnOrder :: jsstr
  fnTopic :: jsstr
  fnProps :: "(jsstr \<times> json) list"

record flat_model =
  fmNodes :: "(jsstr \<times> flat_node) list"
  fmArrows :: "(jsstr \<times> obj) list"
  fmSummaries :: "(jsstr \<times> obj) list"

section \<open>Parents after the repair\<close>

type_synonym parents = "(jsstr \<times> jsstr) list"
type_synonym children = "(jsstr \<times> jsstr list) list"

definition kidsOf :: "children \<Rightarrow> jsstr \<Rightarrow> jsstr list" where
  "kidsOf ch p = (case map_of ch p of None \<Rightarrow> [] | Some l \<Rightarrow> l)"

definition addKid :: "jsstr \<Rightarrow> jsstr \<Rightarrow> children \<Rightarrow> children" where
  "addKid p c ch = AList.update p (kidsOf ch p @ [c]) ch"

text \<open>The first choice of the parents: an extra root, an orphan and a node that is its own
  parent go under the root.\<close>

definition firstParents :: "(jsstr \<times> flat_node) list \<Rightarrow> jsstr list \<Rightarrow> jsstr \<Rightarrow> parents" where
  "firstParents nodes ids rootId =
     map (\<lambda>id. (id, case fnParent (the (map_of nodes id)) of
              None \<Rightarrow> rootId
            | Some p \<Rightarrow> if p = id \<or> map_of nodes p = None then rootId else p))
       (filter (\<lambda>id. id \<noteq> rootId) ids)"

definition childrenMap :: "parents \<Rightarrow> children" where
  "childrenMap ps = fold (\<lambda>(id, p) ch. addKid p id ch) ps []"

text \<open>One child of a popped node: mark it and push it, unless it was reached before.\<close>

definition visit :: "jsstr \<Rightarrow> jsstr list \<times> jsstr list \<Rightarrow> jsstr list \<times> jsstr list" where
  "visit c st = (case st of (reached, stack) \<Rightarrow>
     if c \<in> set reached then (reached, stack) else (reached @ [c], stack @ [c]))"

lemma visit_fold:
  "\<exists>new. fold visit cs (reached, stack) = (reached @ new, stack @ new)
     \<and> set new = set cs - set reached \<and> distinct new"
proof (induction cs arbitrary: reached stack)
  case (Cons c cs)
  show ?case
  proof (cases "c \<in> set reached")
    case True
    then show ?thesis using Cons.IH [of reached stack] by (auto simp: visit_def)
  next
    case False
    obtain new where "fold visit cs (reached @ [c], stack @ [c])
        = ((reached @ [c]) @ new, (stack @ [c]) @ new)"
      "set new = set cs - set (reached @ [c])" "distinct new" using Cons.IH by blast
    moreover have "fold visit (c # cs) (reached, stack) = fold visit cs (reached @ [c], stack @ [c])"
      using False by (simp add: visit_def)
    moreover have "set (c # new) = set (c # cs) - set reached \<and> distinct (c # new)"
      if "set new = set cs - set (reached @ [c])" "distinct new" for new
      using that False by auto
    ultimately show ?thesis by (metis append.assoc append_Cons append_Nil)
  qed
qed simp

definition kidSet :: "children \<Rightarrow> jsstr set" where
  "kidSet ch = (\<Union>l \<in> snd ` set ch. set l)"

lemma kidsOf_kidSet: "set (kidsOf ch p) \<subseteq> kidSet ch"
  by (cases "map_of ch p") (force simp: kidsOf_def kidSet_def dest: map_of_SomeD)+

lemma reach_measure:
  assumes "stack \<noteq> []" and v: "fold visit (kidsOf ch (last stack)) (reached, butlast stack) = (r, s)"
  shows "2 * card (kidSet ch - set r) + length s < 2 * card (kidSet ch - set reached) + length stack"
proof -
  obtain new where n: "r = reached @ new" "s = butlast stack @ new" "distinct new"
    "set new = set (kidsOf ch (last stack)) - set reached"
    using visit_fold [of "kidsOf ch (last stack)" reached "butlast stack"] v by auto
  have "set new \<subseteq> kidSet ch - set reached" using n(4) kidsOf_kidSet by auto
  moreover have "finite (kidSet ch)" by (simp add: kidSet_def)
  moreover have "kidSet ch - set r = (kidSet ch - set reached) - set new" using n(1) by auto
  ultimately have "card (kidSet ch - set r) + length new = card (kidSet ch - set reached)"
    by (metis card_Diff_subset List.finite_set card_mono distinct_card finite_Diff le_add_diff_inverse2 n(3))
  then show ?thesis using n(2) assms(1) by (cases stack) auto
qed

function reach :: "children \<Rightarrow> jsstr list \<Rightarrow> jsstr list \<Rightarrow> jsstr list" where
  "reach ch reached stack =
     (if stack = [] then reached
      else case fold visit (kidsOf ch (last stack)) (reached, butlast stack) of
             (r, s) \<Rightarrow> reach ch r s)"
  by pat_completeness auto
termination
  by (relation "measure (\<lambda>(ch, reached, stack). 2 * card (kidSet ch - set reached) + length stack)")
    (auto dest: reach_measure [OF _ sym] split: prod.splits)

declare reach.simps [simp del]

text \<open>The walk up from an unreached node, to a reached node or to a node seen before; the
  path and the set of seen nodes hold the same ids.\<close>

function climb :: "parents \<Rightarrow> jsstr list \<Rightarrow> jsstr list \<Rightarrow> jsstr \<Rightarrow> jsstr list \<times> jsstr" where
  "climb ps reached path cur =
     (if cur \<in> set reached \<or> cur \<in> set path then (path, cur)
      else case map_of ps cur of
             None \<Rightarrow> (path @ [cur], cur)
           | Some p \<Rightarrow> climb ps reached (path @ [cur]) p)"
  by pat_completeness auto
termination
proof (relation "measure (\<lambda>(ps, reached, path, cur). card (fst ` set ps - set path))", goal_cases)
  case (2 ps reached path cur p)
  then have "cur \<in> fst ` set ps - set path" by (force dest: map_of_SomeD)
  then have "card (fst ` set ps - set path - {cur}) < card (fst ` set ps - set path)"
    by (intro card_Diff1_less) auto
  moreover have "fst ` set ps - set (path @ [cur]) = fst ` set ps - set path - {cur}" by auto
  ultimately show ?case by simp
qed simp

declare climb.simps [simp del]

text \<open>One unreached node: its cycle is broken at the smallest id.\<close>

definition breakCycle :: "jsstr \<Rightarrow> jsstr \<Rightarrow> jsstr list \<times> parents \<times> children
    \<Rightarrow> jsstr list \<times> parents \<times> children" where
  "breakCycle rootId nid st = (case st of (reached, ps, ch) \<Rightarrow>
     if nid \<in> set reached then st
     else case climb ps reached [] nid of (path, cur) \<Rightarrow>
       if cur \<in> set reached then st
       else let cycle = dropWhile (\<lambda>x. x \<noteq> cur) path;
                breakAt = hd (sort cycle);
                old = the (map_of ps breakAt);
                ch1 = AList.update old (filter (\<lambda>c. c \<noteq> breakAt) (kidsOf ch old)) ch;
                ch2 = addKid rootId breakAt ch1
            in (reach ch2 (reached @ [breakAt]) [breakAt], AList.update breakAt rootId ps, ch2))"

definition resolveParents :: "(jsstr \<times> flat_node) list \<Rightarrow> (jsstr \<times> parents) option" where
  "resolveParents nodes =
     (if nodes = [] then None
      else let ids = sort (map fst nodes);
               roots = filter (\<lambda>id. fnParent (the (map_of nodes id)) = None) ids;
               rootId = (if roots = [] then hd ids else hd roots);
               ps = firstParents nodes ids rootId;
               ch = childrenMap ps;
               reached = reach ch [rootId] [rootId]
           in case fold (breakCycle rootId) ids (reached, ps, ch) of
                (_, ps', _) \<Rightarrow> Some (rootId, ps'))"

section \<open>The invariant of the repair\<close>

text \<open>Everything under a reached node is reached; what is not reached was not touched.\<close>

definition consistent :: "parents \<Rightarrow> children \<Rightarrow> bool" where
  "consistent ps ch \<longleftrightarrow> (\<forall>c p. c \<in> set (kidsOf ch p) \<longleftrightarrow> map_of ps c = Some p)"

inductive rooted :: "parents \<Rightarrow> jsstr \<Rightarrow> jsstr \<Rightarrow> bool" for ps r where
  root: "rooted ps r r"
| step: "map_of ps c = Some p \<Longrightarrow> rooted ps r p \<Longrightarrow> rooted ps r c"

text \<open>What \<open>reach\<close> returns: a set that holds what was reached, is closed under children as
  far as the stack goes, and grows only by children of reached nodes.\<close>

lemma reach_spec:
  "set stack \<subseteq> set reached \<Longrightarrow>
    \<forall>x \<in> set reached. x \<notin> set stack \<longrightarrow> set (kidsOf ch x) \<subseteq> set reached \<Longrightarrow>
    set reached \<subseteq> set (reach ch reached stack)
    \<and> (\<forall>x \<in> set (reach ch reached stack). set (kidsOf ch x) \<subseteq> set (reach ch reached stack))
    \<and> (\<forall>P. (\<forall>x \<in> set reached. P x) \<longrightarrow> (\<forall>x y. P x \<longrightarrow> y \<in> set (kidsOf ch x) \<longrightarrow> P y)
        \<longrightarrow> (\<forall>x \<in> set (reach ch reached stack). P x))
    \<and> (\<forall>x \<in> set (reach ch reached stack). x \<in> set reached
        \<or> (\<exists>y \<in> set (reach ch reached stack). x \<in> set (kidsOf ch y)))"
proof (induction ch reached stack rule: reach.induct)
  case (1 ch reached stack)
  show ?case
  proof (cases "stack = []")
    case True
    then have "reach ch reached stack = reached" by (subst reach.simps) simp
    then show ?thesis using "1.prems" True by simp
  next
    case False
    let ?k = "kidsOf ch (last stack)"
    obtain new where v: "fold visit ?k (reached, butlast stack) = (reached @ new, butlast stack @ new)"
      and n: "set new = set ?k - set reached" using visit_fold by blast
    have r: "reach ch reached stack = reach ch (reached @ new) (butlast stack @ new)"
      using False v by (simp add: reach.simps [of ch reached stack])
    have last: "last stack \<in> set reached" using "1.prems"(1) False by auto
    have "set (butlast stack) \<subseteq> set reached" using "1.prems"(1) in_set_butlastD by fastforce
    then have p1: "set (butlast stack @ new) \<subseteq> set (reached @ new)" by auto
    have "set (kidsOf ch x) \<subseteq> set (reached @ new)"
      if "x \<in> set (reached @ new)" "x \<notin> set (butlast stack @ new)" for x
    proof (cases "x = last stack")
      case True
      then show ?thesis using n by auto
    next
      case neq: False
      have "x \<notin> set stack"
        using that(2) neq False by (metis append_butlast_last_id Un_iff empty_iff insert_iff
            list.set(1) list.set(2) set_append)
      then show ?thesis using "1.prems"(2) that by auto
    qed
    then have p2: "\<forall>x \<in> set (reached @ new). x \<notin> set (butlast stack @ new)
        \<longrightarrow> set (kidsOf ch x) \<subseteq> set (reached @ new)" by blast
    note IH = "1.IH" [OF False v [symmetric] p1 p2]
    have new: "x \<in> set (kidsOf ch (last stack))" if "x \<in> set new" for x using that n by auto
    let ?R = "reach ch (reached @ new) (butlast stack @ new)"
    note a = IH [THEN conjunct1] and b = IH [THEN conjunct2, THEN conjunct1]
      and c0 = IH [THEN conjunct2, THEN conjunct2, THEN conjunct1]
      and d0 = IH [THEN conjunct2, THEN conjunct2, THEN conjunct2]
    have c: "\<forall>x \<in> set ?R. P x" if P: "\<forall>x \<in> set reached. P x"
      "\<forall>x y. P x \<longrightarrow> y \<in> set (kidsOf ch x) \<longrightarrow> P y" for P
    proof -
      have "\<forall>x \<in> set (reached @ new). P x" using P new last by auto
      from c0 [THEN spec, THEN mp, OF this] P(2) show ?thesis by (rule mp)
    qed
    have d: "x \<in> set reached \<or> (\<exists>y \<in> set ?R. x \<in> set (kidsOf ch y))" if "x \<in> set ?R" for x
    proof (cases "x \<in> set new")
      case True
      then show ?thesis using new last a by auto
    next
      case False
      then show ?thesis using d0 that by auto
    qed
    show ?thesis
      unfolding r
    proof (intro conjI allI impI)
      show "\<forall>x \<in> set ?R. P x" if "\<forall>x \<in> set reached. P x"
        "\<forall>x y. P x \<longrightarrow> y \<in> set (kidsOf ch x) \<longrightarrow> P y" for P
        using that by (rule c)
    qed (use a b d in auto)
  qed
qed

text \<open>Each element of a list is the parent of the one before it.\<close>

definition linked :: "parents \<Rightarrow> jsstr list \<Rightarrow> bool" where
  "linked ps xs \<longleftrightarrow> (\<forall>i. Suc i < length xs \<longrightarrow> map_of ps (xs ! i) = Some (xs ! Suc i))"

definition isCycle :: "parents \<Rightarrow> jsstr list \<Rightarrow> bool" where
  "isCycle ps xs \<longleftrightarrow> xs \<noteq> [] \<and> distinct xs \<and> linked ps (xs @ [hd xs])"

lemma linked_snoc: "xs \<noteq> [] \<Longrightarrow> linked ps (xs @ [y]) \<longleftrightarrow> linked ps xs \<and> map_of ps (last xs) = Some y"
proof -
  assume ne: "xs \<noteq> []"
  have "linked ps (xs @ [y]) \<longleftrightarrow> (\<forall>i < length xs. map_of ps (xs ! i) = Some ((xs @ [y]) ! Suc i))"
    by (auto simp: linked_def nth_append)
  also have "\<dots> \<longleftrightarrow> (\<forall>i. Suc i < length xs \<longrightarrow> map_of ps (xs ! i) = Some (xs ! Suc i))
      \<and> map_of ps (xs ! (length xs - 1)) = Some y"
    using ne by (auto simp: nth_append less_Suc_eq_le) (metis Suc_lessI Suc_pred diff_Suc_1 length_greater_0_conv)+
  finally show ?thesis using ne by (simp add: linked_def last_conv_nth)
qed

lemma climb_spec:
  assumes r: "climb ps reached path cur = (path', cur')"
    and "distinct path" "set path \<inter> set reached = {}" "path = [] \<or> linked ps (path @ [cur])"
    and total: "\<And>x. x \<in> N \<Longrightarrow> x \<notin> set reached \<Longrightarrow> \<exists>p \<in> N. map_of ps x = Some p" and "cur \<in> N"
  shows "distinct path' \<and> set path' \<inter> set reached = {} \<and> (path' = [] \<or> linked ps (path' @ [cur']))
    \<and> (cur' \<in> set reached \<or> cur' \<in> set path') \<and> (\<exists>more. path' = path @ more)
    \<and> (cur \<notin> set reached \<longrightarrow> cur \<in> set path') \<and> set path' \<subseteq> set path \<union> N"
  using assms
proof (induction ps reached path cur rule: climb.induct)
  case (1 ps reached path cur)
  show ?case
  proof (cases "cur \<in> set reached \<or> cur \<in> set path")
    case True
    then have "path' = path" "cur' = cur"
      using "1.prems"(1) by (simp_all add: climb.simps [of ps reached path cur])
    then show ?thesis using "1.prems" True by auto
  next
    case False
    obtain p where p: "map_of ps cur = Some p" "p \<in> N" using "1.prems"(5,6) False by blast
    have c: "climb ps reached (path @ [cur]) p = (path', cur')"
      using "1.prems"(1) False p(1) by (simp add: climb.simps [of ps reached path cur])
    have l: "linked ps ((path @ [cur]) @ [p])"
      using "1.prems"(4) p(1) linked_snoc [of "path @ [cur]" ps p]
      by (auto simp: linked_def)
    have "distinct (path @ [cur])" "set (path @ [cur]) \<inter> set reached = {}"
      using "1.prems"(2,3) False by auto
    from "1.IH" [OF False p(1) c this _ "1.prems"(5) p(2)] l show ?thesis
      using "1.prems"(6) by auto
  qed
qed

text \<open>The invariant of the loop that breaks the cycles; \<open>ps0\<close> are the first parents.\<close>

definition repairInv :: "parents \<Rightarrow> jsstr \<Rightarrow> jsstr set \<Rightarrow> jsstr list \<times> parents \<times> children \<Rightarrow> bool" where
  "repairInv ps0 r N st \<longleftrightarrow> (case st of (reached, ps, ch) \<Rightarrow>
     r \<in> set reached \<and> consistent ps ch
     \<and> (\<forall>x \<in> set reached. set (kidsOf ch x) \<subseteq> set reached)
     \<and> (\<forall>x \<in> set reached. rooted ps r x)
     \<and> (\<forall>x \<in> set reached. x = r \<or> (\<exists>p \<in> set reached. map_of ps x = Some p))
     \<and> (\<forall>x. x \<notin> set reached \<longrightarrow> map_of ps x = map_of ps0 x)
     \<and> dom (map_of ps) = N - {r} \<and> ran (map_of ps) \<subseteq> N \<and> map fst ps = map fst ps0
     \<and> (\<forall>x p. map_of ps0 x = Some p \<longrightarrow> map_of ps x \<noteq> Some p \<longrightarrow>
          map_of ps x = Some r \<and> (\<exists>xs. isCycle ps0 xs \<and> x = Min (set xs))))"

lemma kidsOf_update: "kidsOf (AList.update p l ch) q = (if q = p then l else kidsOf ch q)"
  by (simp add: kidsOf_def update_conv')

lemma hd_sort: "xs \<noteq> [] \<Longrightarrow> hd (sort xs) = Min (set xs)"
proof -
  assume "xs \<noteq> []"
  then obtain y ys where y: "sort xs = y # ys" by (metis list.exhaust set_sort set_empty)
  have "sorted (y # ys)" unfolding y [symmetric] by simp
  then have "Min (set (y # ys)) = y" by (intro Min_eqI) auto
  moreover have "set (y # ys) = set xs" unfolding y [symmetric] by simp
  ultimately show ?thesis using y by (metis list.sel(1))
qed

lemma breakCycle_inv:
  assumes inv: "repairInv ps0 r N (reached, ps, ch)" and n: "n \<in> N" and rN: "r \<in> N"
  shows "repairInv ps0 r N (breakCycle r n (reached, ps, ch))"
    and "insert n (set reached) \<subseteq> set (fst (breakCycle r n (reached, ps, ch)))"
proof -
  let ?res = "breakCycle r n (reached, ps, ch)"
  have I: "r \<in> set reached" "consistent ps ch"
    "\<And>x. x \<in> set reached \<Longrightarrow> set (kidsOf ch x) \<subseteq> set reached"
    "\<And>x. x \<in> set reached \<Longrightarrow> rooted ps r x"
    "\<And>x. x \<in> set reached \<Longrightarrow> x = r \<or> (\<exists>p \<in> set reached. map_of ps x = Some p)"
    "\<And>x. x \<notin> set reached \<Longrightarrow> map_of ps x = map_of ps0 x"
    "dom (map_of ps) = N - {r}" "ran (map_of ps) \<subseteq> N"
    "\<And>x p. map_of ps0 x = Some p \<Longrightarrow> map_of ps x \<noteq> Some p \<Longrightarrow>
       map_of ps x = Some r \<and> (\<exists>xs. isCycle ps0 xs \<and> x = Min (set xs))"
    "map fst ps = map fst ps0"
    using inv by (simp_all add: repairInv_def)
  have "repairInv ps0 r N ?res \<and> insert n (set reached) \<subseteq> set (fst ?res)"
  proof (cases "n \<in> set reached")
    case True
    then show ?thesis using inv by (auto simp: breakCycle_def)
  next
    case nr: False
    obtain path cur where c: "climb ps reached [] n = (path, cur)" by fastforce
    have total: "\<exists>p \<in> N. map_of ps x = Some p" if "x \<in> N" "x \<notin> set reached" for x
    proof -
      have "x \<in> dom (map_of ps)" using that I(1) unfolding I(7) by auto
      then obtain p where "map_of ps x = Some p" by blast
      then show ?thesis using I(8) by (blast intro: ranI)
    qed
    have cs: "distinct path" "set path \<inter> set reached = {}" "linked ps (path @ [cur])"
      "cur \<in> set reached \<or> cur \<in> set path" "n \<in> set path" "set path \<subseteq> N" "path \<noteq> []"
    proof -
      from climb_spec [OF c _ _ _ total n]
      have "distinct path \<and> set path \<inter> set reached = {} \<and> (path = [] \<or> linked ps (path @ [cur]))
        \<and> (cur \<in> set reached \<or> cur \<in> set path)
        \<and> (n \<notin> set reached \<longrightarrow> n \<in> set path) \<and> set path \<subseteq> N" by simp
      then show "distinct path" "set path \<inter> set reached = {}" "linked ps (path @ [cur])"
        "cur \<in> set reached \<or> cur \<in> set path" "n \<in> set path" "set path \<subseteq> N" "path \<noteq> []"
        using nr by auto
    qed
    have par: "map_of ps (path ! i) = Some ((path @ [cur]) ! Suc i)" if "i < length path" for i
      using cs(3) that by (auto simp: linked_def nth_append)
    have kid: "path ! i \<in> set (kidsOf ch ((path @ [cur]) ! Suc i))" if "i < length path" for i
      using par [OF that] I(2) by (simp add: consistent_def)
    have cur: "cur \<notin> set reached"
    proof
      assume "cur \<in> set reached"
      moreover have "last path \<in> set (kidsOf ch cur)"
        using kid [of "length path - 1"] cs(7) by (simp add: last_conv_nth nth_append)
      moreover have "last path \<in> set path" using cs(7) by simp
      ultimately show False using I(3) [of cur] cs(2) by auto
    qed
    then have cp: "cur \<in> set path" using cs(4) by simp
    obtain us ws where sp: "path = us @ cur # ws" "cur \<notin> set us"
      using split_list_first [OF cp] by blast
    define k where "k = length us"
    define cyc where "cyc = dropWhile (\<lambda>x. x \<noteq> cur) path"
    have "cyc = cur # ws"
      unfolding cyc_def sp(1) using sp(2) by (subst dropWhile_append2) auto
    then have cyc: "cyc = drop k path" "k < length path" "path ! k = cur" "cyc \<noteq> []" "hd cyc = cur"
      by (simp_all add: sp(1) k_def nth_append)
    define b where "b = hd (sort cyc)"
    have bm: "b = Min (set cyc)" "b \<in> set cyc" using hd_sort [OF cyc(4)] cyc(4) by (auto simp: b_def)
    have "linked ps (cyc @ [hd cyc])"
      using par cyc by (auto simp: linked_def nth_append)
    moreover have unr: "x \<notin> set reached" if "x \<in> set path" for x using cs(2) that by auto
    moreover have cyp: "set cyc \<subseteq> set path" unfolding cyc(1) by (rule set_drop_subset)
    ultimately have "linked ps0 (cyc @ [hd cyc])"
      using I(6) by (auto simp: linked_def nth_append subset_iff)
    then have ic: "isCycle ps0 cyc" using cs(1) cyc(1,4) by (simp add: isCycle_def)
    have bp: "b \<in> set path" "b \<notin> set reached" using bm cyp unr by auto
    obtain old where old: "map_of ps b = Some old" using total bp cs(6) by blast
    have oldr: "old \<noteq> r"
    proof
      assume "old = r"
      then have "b \<in> set (kidsOf ch r)" using old I(2) by (simp add: consistent_def)
      then show False using I(1,3) bp by auto
    qed
    define ch1 where "ch1 = AList.update old (filter (\<lambda>c. c \<noteq> b) (kidsOf ch old)) ch"
    define ch2 where "ch2 = addKid r b ch1"
    define ps' where "ps' = AList.update b r ps"
    define re where "re = reach ch2 (reached @ [b]) [b]"
    have res: "?res = (re, ps', ch2)"
      using nr c cur by (simp add: breakCycle_def Let_def old ch1_def ch2_def ps'_def re_def
          cyc_def [symmetric] b_def [symmetric])
    have kids2: "set (kidsOf ch2 q) = (if q = r then insert b (set (kidsOf ch r))
        else set (kidsOf ch q) - {b})" for q
    proof (cases "q = r")
      case True
      then show ?thesis using oldr by (simp add: ch2_def ch1_def addKid_def kidsOf_update)
    next
      case False
      have "b \<notin> set (kidsOf ch q)" if "q \<noteq> old"
        using I(2) old that by (simp add: consistent_def)
      then show ?thesis using False by (auto simp: ch2_def ch1_def addKid_def kidsOf_update)
    qed
    have m': "map_of ps' x = (if x = b then Some r else map_of ps x)" for x
      by (simp add: ps'_def update_conv')
    have con: "consistent ps' ch2"
      using I(2) bp(2) I(1,3) unfolding consistent_def m' kids2 by auto
    have pre: "\<forall>x \<in> set (reached @ [b]). x \<notin> set [b] \<longrightarrow> set (kidsOf ch2 x) \<subseteq> set (reached @ [b])"
      using I(1,3) kids2 by auto
    have "set [b] \<subseteq> set (reached @ [b])" by simp
    note rs = reach_spec [OF this pre, folded re_def]
    note sub = rs [THEN conjunct1]
      and closed = rs [THEN conjunct2, THEN conjunct1, THEN bspec]
      and ind = rs [THEN conjunct2, THEN conjunct2, THEN conjunct1, THEN spec, THEN mp, THEN mp, THEN bspec]
      and orig = rs [THEN conjunct2, THEN conjunct2, THEN conjunct2, THEN bspec]
    have induct: "P x" if "\<And>x. x \<in> set (reached @ [b]) \<Longrightarrow> P x"
      "\<And>x y. P x \<Longrightarrow> y \<in> set (kidsOf ch2 x) \<Longrightarrow> P y" "x \<in> set re" for P x
      by (rule ind [of P x]) (use that in blast)+
    have old_rooted: "rooted ps' r x" if "rooted ps r x" "x \<in> set reached" for x
      using that
    proof (induction rule: rooted.induct)
      case (step c p)
      have "c \<noteq> b" using step.prems bp(2) by auto
      then have "map_of ps' c = Some p" using step.hyps(1) m' by simp
      moreover have "rooted ps' r p"
      proof (cases "c = r")
        case True
        then show ?thesis using step.hyps(1) I(7) by (metis Diff_iff domI singletonI)
      next
        case False
        then show ?thesis using I(5) [OF step.prems] step.hyps(1) step.IH by auto
      qed
      ultimately show ?case by (rule rooted.step)
    qed (rule rooted.root)
    have broot: "rooted ps' r b" by (rule rooted.step [of _ _ r]) (simp_all add: m' rooted.root)
    have R3: "rooted ps' r x" if "x \<in> set re" for x
    proof (rule induct [OF _ _ that])
      show "rooted ps' r x" if "x \<in> set (reached @ [b])" for x
        using that old_rooted I(4) broot by auto
      show "rooted ps' r y" if "rooted ps' r x" "y \<in> set (kidsOf ch2 x)" for x y
        using con that rooted.step by (simp add: consistent_def)
    qed
    have R4: "x = r \<or> (\<exists>p \<in> set re. map_of ps' x = Some p)" if "x \<in> set re" for x
      using orig [OF that]
    proof
      assume "x \<in> set (reached @ [b])"
      then show ?thesis using I(1) I(5) [of x] sub bp(2) m' by (cases "x = b") auto
    next
      assume "\<exists>y \<in> set re. x \<in> set (kidsOf ch2 y)"
      then show ?thesis using con by (auto simp: consistent_def)
    qed
    have upwards: "j < length path \<Longrightarrow> path ! j = b \<Longrightarrow> i \<le> j \<Longrightarrow> path ! (j - i) \<in> set re" for i j
    proof (induction i)
      case 0
      then show ?case using sub by auto
    next
      case (Suc i)
      let ?m = "j - Suc i"
      have m: "Suc ?m = j - i" "?m < length path" "?m \<noteq> j" "j - i < length path"
        using Suc.prems by auto
      have "path ! ?m \<noteq> b" using Suc.prems(1,2) m cs(1) nth_eq_iff_index_eq by metis
      moreover have "path ! ?m \<in> set (kidsOf ch (path ! (j - i)))"
        using kid [OF m(2)] m(1,4) by (simp add: nth_append)
      ultimately have "path ! ?m \<in> set (kidsOf ch2 (path ! (j - i)))" using kids2 by auto
      then show ?case using closed Suc by auto
    qed
    have "hd path = n"
    proof -
      have "\<exists>more. path = [n] @ more"
      proof -
        obtain p where p: "map_of ps n = Some p" "p \<in> N" using total n nr by blast
        have "climb ps reached [n] p = (path, cur)"
          using c nr p(1) by (simp add: climb.simps [of ps reached "[]" n])
        from climb_spec [OF this _ _ _ total p(2)] nr p(1) show ?thesis
          by (auto simp: linked_def)
      qed
      then show ?thesis by auto
    qed
    then have nre: "n \<in> set re"
      using upwards bp(1) cs(7) by (metis diff_self_eq_0 hd_conv_nth in_set_conv_nth order_refl)
    have dom: "dom (map_of ps') = N - {r}" "ran (map_of ps') \<subseteq> N"
    proof -
      have "b \<in> N" "b \<noteq> r" using bp cs(6) I(1) by auto
      then show "dom (map_of ps') = N - {r}" using I(7) unfolding dom_def m' by auto
      show "ran (map_of ps') \<subseteq> N" using I(8) rN unfolding ran_def m' by auto
    qed
    have R7: "map_of ps' x = Some r \<and> (\<exists>xs. isCycle ps0 xs \<and> x = Min (set xs))"
      if "map_of ps0 x = Some p" "map_of ps' x \<noteq> Some p" for x p
      using that I(9) [of x p] ic bm(1) m' by (cases "x = b") auto
    have R5: "map_of ps' x = map_of ps0 x" if "x \<notin> set re" for x
      using that sub I(6) [of x] m' by auto
    have "b \<in> fst ` set ps" using old by (force dest: map_of_SomeD)
    then have "map fst ps' = map fst ps" by (simp add: ps'_def update_keys)
    then have "map fst ps' = map fst ps0" using I(10) by simp
    then have "repairInv ps0 r N (re, ps', ch2)"
      unfolding repairInv_def prod.case using sub I(1) con closed R3 R4 R5 dom R7 by auto
    then show ?thesis using res nre sub by auto
  qed
  then show "repairInv ps0 r N ?res" "insert n (set reached) \<subseteq> set (fst ?res)" by blast+
qed

lemma breakCycles_inv:
  assumes "r \<in> N" "set ids \<subseteq> N" "repairInv ps0 r N st"
  shows "repairInv ps0 r N (fold (breakCycle r) ids st)
    \<and> set ids \<union> set (fst st) \<subseteq> set (fst (fold (breakCycle r) ids st))"
  using assms(2,3)
proof (induction ids arbitrary: st)
  case (Cons n ids)
  obtain reached ps ch where st: "st = (reached, ps, ch)" by (cases st) auto
  have "n \<in> N" using Cons.prems(1) by simp
  note b = breakCycle_inv [OF Cons.prems(2) [unfolded st] this assms(1), folded st]
  have "set (fst st) = set reached" using st by simp
  then show ?case using Cons.IH [OF _ b(1)] Cons.prems(1) b(2) by auto
qed simp

lemma kidsOf_addKid: "kidsOf (addKid p c ch) q = (if q = p then kidsOf ch p @ [c] else kidsOf ch q)"
  by (simp add: addKid_def kidsOf_update)

lemma childrenMap_fold:
  "c \<in> set (kidsOf (fold (\<lambda>(c, p) ch. addKid p c ch) ps ch) q)
     \<longleftrightarrow> c \<in> set (kidsOf ch q) \<or> (c, q) \<in> set ps"
proof (induction ps arbitrary: ch)
  case (Cons x ps)
  obtain d p where "x = (d, p)" by fastforce
  then show ?case using Cons.IH [of "addKid p d ch"] by (auto simp: kidsOf_addKid)
qed simp

lemma consistent_childrenMap: "distinct (map fst ps) \<Longrightarrow> consistent ps (childrenMap ps)"
  unfolding consistent_def childrenMap_def childrenMap_fold by (simp add: kidsOf_def)

definition rootOf :: "(jsstr \<times> flat_node) list \<Rightarrow> jsstr" where
  "rootOf nodes =
     (let ids = sort (map fst nodes);
          roots = filter (\<lambda>id. fnParent (the (map_of nodes id)) = None) ids
      in if roots = [] then hd ids else hd roots)"

text \<open>The parent a node declares, when it can be used.\<close>

definition declared :: "(jsstr \<times> flat_node) list \<Rightarrow> parents" where
  "declared nodes = firstParents nodes (sort (map fst nodes)) (rootOf nodes)"

lemma rootOf_in: "nodes \<noteq> [] \<Longrightarrow> rootOf nodes \<in> fst ` set nodes"
proof -
  assume ne: "nodes \<noteq> []"
  let ?ids = "sort (map fst nodes)"
  let ?roots = "filter (\<lambda>id. fnParent (the (map_of nodes id)) = None) ?ids"
  have "?ids \<noteq> []" using ne by (metis map_is_Nil_conv set_empty set_sort)
  then have "hd ?ids \<in> set ?ids" by (rule hd_in_set)
  moreover have "?roots \<noteq> [] \<Longrightarrow> hd ?roots \<in> set ?ids" using hd_in_set [of ?roots] by auto
  ultimately show ?thesis by (simp add: rootOf_def Let_def)
qed

lemma map_of_declared:
  assumes "distinct (map fst nodes)"
  shows "map_of (declared nodes) x = (if x \<in> fst ` set nodes \<and> x \<noteq> rootOf nodes
    then Some (case fnParent (the (map_of nodes x)) of None \<Rightarrow> rootOf nodes
      | Some p \<Rightarrow> if p = x \<or> map_of nodes p = None then rootOf nodes else p) else None)"
    and "map fst (declared nodes) = filter (\<lambda>x. x \<noteq> rootOf nodes) (sort (map fst nodes))"
proof -
  show "map fst (declared nodes) = filter (\<lambda>x. x \<noteq> rootOf nodes) (sort (map fst nodes))"
    by (simp add: declared_def firstParents_def comp_def)
  have *: "map_of (map (\<lambda>id. (id, g id)) xs) x = (if x \<in> set xs then Some (g x) else None)" for g xs
    by (induction xs) auto
  show "map_of (declared nodes) x = (if x \<in> fst ` set nodes \<and> x \<noteq> rootOf nodes
      then Some (case fnParent (the (map_of nodes x)) of None \<Rightarrow> rootOf nodes
        | Some p \<Rightarrow> if p = x \<or> map_of nodes p = None then rootOf nodes else p) else None)"
    by (simp add: declared_def firstParents_def *)
qed

lemma resolveParents_spec:
  assumes d: "distinct (map fst nodes)" and ne: "nodes \<noteq> []"
  obtains ps where "resolveParents nodes = Some (rootOf nodes, ps)"
    "map fst ps = filter (\<lambda>x. x \<noteq> rootOf nodes) (sort (map fst nodes))"
    "\<forall>x \<in> fst ` set nodes. rooted ps (rootOf nodes) x"
    "ran (map_of ps) \<subseteq> fst ` set nodes"
    "\<forall>x p. map_of (declared nodes) x = Some p \<longrightarrow> map_of ps x \<noteq> Some p \<longrightarrow>
       map_of ps x = Some (rootOf nodes) \<and> (\<exists>xs. isCycle (declared nodes) xs \<and> x = Min (set xs))"
proof -
  let ?ids = "sort (map fst nodes)" and ?N = "fst ` set nodes"
  let ?r = "rootOf nodes" and ?ps = "declared nodes"
  let ?ch = "childrenMap ?ps"
  let ?re = "reach ?ch [?r] [?r]"
  have rN: "?r \<in> ?N" by (rule rootOf_in [OF ne])
  have dp: "distinct (map fst ?ps)" using d by (simp add: map_of_declared(2) [OF d])
  have con: "consistent ?ps ?ch" by (rule consistent_childrenMap [OF dp])
  have "\<forall>x \<in> set [?r]. x \<notin> set [?r] \<longrightarrow> set (kidsOf ?ch x) \<subseteq> set [?r]" by simp
  note rs = reach_spec [OF subset_refl this]
  have rooted: "rooted ?ps ?r x" if "x \<in> set ?re" for x
    using rs [THEN conjunct2, THEN conjunct2, THEN conjunct1, THEN spec, of "rooted ?ps ?r"] that
      con rooted.step [of ?ps] by (auto simp: consistent_def intro: rooted.root)
  have dom: "dom (map_of ?ps) = ?N - {?r}" unfolding dom_def map_of_declared(1) [OF d] by auto
  have ran: "ran (map_of ?ps) \<subseteq> ?N"
    using rN unfolding ran_def map_of_declared(1) [OF d]
    by (auto simp: map_of_eq_None_iff split: option.splits if_splits)
  have par: "x = ?r \<or> (\<exists>p \<in> set ?re. map_of ?ps x = Some p)" if "x \<in> set ?re" for x
    using rs [THEN conjunct2, THEN conjunct2, THEN conjunct2, THEN bspec, OF that] con
    by (auto simp: consistent_def)
  have "repairInv ?ps ?r ?N (?re, ?ps, ?ch)"
    unfolding repairInv_def prod.case
    using rs [THEN conjunct1] rs [THEN conjunct2, THEN conjunct1] con rooted par dom ran by simp
  from breakCycles_inv [OF rN _ this, of ?ids] obtain re ps ch where
    f: "fold (breakCycle ?r) ?ids (?re, ?ps, ?ch) = (re, ps, ch)"
    and inv: "repairInv ?ps ?r ?N (re, ps, ch)" and all: "?N \<subseteq> set re"
    by (cases "fold (breakCycle ?r) ?ids (?re, ?ps, ?ch)") auto
  have I: "\<And>x. x \<in> set re \<Longrightarrow> rooted ps ?r x" "ran (map_of ps) \<subseteq> ?N" "map fst ps = map fst ?ps"
    "\<And>x p. map_of ?ps x = Some p \<Longrightarrow> map_of ps x \<noteq> Some p \<Longrightarrow>
       map_of ps x = Some ?r \<and> (\<exists>xs. isCycle ?ps xs \<and> x = Min (set xs))"
    using inv by (simp_all add: repairInv_def)
  have "resolveParents nodes = Some (?r, ps)"
    using ne f unfolding resolveParents_def Let_def declared_def rootOf_def by simp
  moreover have "map fst ps = filter (\<lambda>x. x \<noteq> ?r) ?ids" using I(3) map_of_declared(2) [OF d] by simp
  ultimately show ?thesis using that I all by blast
qed


section \<open>The tree to show\<close>

datatype node_obj = NodeObj (noId: jsstr) (noTopic: jsstr) (noProps: obj)
  (noExpanded: "bool option") (noKids: "node_obj list")

definition siblingKey :: "flat_node \<Rightarrow> jsstr \<times> jsstr" where
  "siblingKey n = (fnOrder n, fnId n)"

text \<open>The children of \<open>p\<close> in the order of their keys (\<open>compareSiblings\<close>).\<close>

definition sortedKids :: "(jsstr \<times> flat_node) list \<Rightarrow> parents \<Rightarrow> jsstr \<Rightarrow> flat_node list" where
  "sortedKids nodes ps p =
     sort_key siblingKey (map (\<lambda>(c, q). the (map_of nodes c)) (filter (\<lambda>(c, q). q = p) ps))"

definition ownKeys :: "jsstr set" where
  "ownKeys = {js ''id'', js ''topic'', js ''children''}"

text \<open>\<open>build\<close>, a recursion over the children; the fuel is the number of nodes.\<close>

fun buildTree :: "nat \<Rightarrow> (jsstr \<times> flat_node) list \<Rightarrow> parents \<Rightarrow> jsstr list \<Rightarrow> flat_node
    \<Rightarrow> node_obj option" where
  "buildTree 0 nodes ps collapsed n = None"
| "buildTree (Suc f) nodes ps collapsed n =
     (let kids = sortedKids nodes ps (fnId n)
      in case those (map (buildTree f nodes ps collapsed) kids) of
           None \<Rightarrow> None
         | Some ks \<Rightarrow> Some (NodeObj (fnId n) (fnTopic n)
             (filter (\<lambda>(k, v). k \<notin> ownKeys) (fnProps n))
             (if fnId n \<in> set collapsed \<and> kids \<noteq> [] then Some False else None) ks))"

definition withId :: "jsstr \<times> obj \<Rightarrow> obj" where
  "withId a = AList.update (js ''id'') (JStr (fst a)) (snd a)"

definition namesNode :: "(jsstr \<times> flat_node) list \<Rightarrow> json option \<Rightarrow> bool" where
  "namesNode nodes v = (case v of Some (JStr s) \<Rightarrow> map_of nodes s \<noteq> None | _ \<Rightarrow> False)"

definition shownArrows :: "flat_model \<Rightarrow> obj list" where
  "shownArrows m =
     filter (\<lambda>a. namesNode (fmNodes m) (map_of a (js ''from'')) \<and> namesNode (fmNodes m) (map_of a (js ''to'')))
       (map withId (sort_key fst (fmArrows m)))"

definition clampTo :: "int \<Rightarrow> json option \<Rightarrow> int" where
  "clampTo cnt v = max 0 (min (cnt - 1) (case v of Some (JNum n) \<Rightarrow> n | _ \<Rightarrow> 0))"

text \<open>A summary covers siblings by position: it is brought back into the bounds, or dropped
  when its parent has no children.\<close>

definition shownSummary :: "(jsstr \<times> flat_node) list \<Rightarrow> jsstr \<Rightarrow> parents \<Rightarrow> obj \<Rightarrow> obj list" where
  "shownSummary nodes r ps s =
     (let cnt = (case map_of s (js ''parent'') of
             Some (JStr p) \<Rightarrow> if p = r \<or> map_of ps p \<noteq> None
                then int (length (sortedKids nodes ps p)) else 0
           | _ \<Rightarrow> 0)
      in if cnt = 0 then []
         else let start = clampTo cnt (map_of s (js ''start''));
                  end' = max start (clampTo cnt (map_of s (js ''end'')))
              in [AList.update (js ''end'') (JNum end') (AList.update (js ''start'') (JNum start) s)])"

definition materialize :: "flat_model \<Rightarrow> jsstr list \<Rightarrow> (node_obj \<times> obj list \<times> obj list) option" where
  "materialize m collapsed =
     (case resolveParents (fmNodes m) of
        None \<Rightarrow> None
      | Some (r, ps) \<Rightarrow>
          (case buildTree (length (fmNodes m)) (fmNodes m) ps collapsed (the (map_of (fmNodes m) r)) of
             None \<Rightarrow> None
           | Some t \<Rightarrow> Some (t, shownArrows m,
               concat (map (shownSummary (fmNodes m) r ps)
                 (map withId (sort_key fst (fmSummaries m)))))))"

section \<open>Ancestors\<close>

inductive anc :: "parents \<Rightarrow> jsstr \<Rightarrow> jsstr \<Rightarrow> bool" for ps a where
  self: "anc ps a a"
| up: "map_of ps x = Some p \<Longrightarrow> anc ps a p \<Longrightarrow> anc ps a x"

lemma anc_above: "anc ps a x \<Longrightarrow> a \<noteq> x \<Longrightarrow> map_of ps x = Some p \<Longrightarrow> anc ps a p"
  by (cases rule: anc.cases) auto

lemma anc_has_parent: "anc ps a x \<Longrightarrow> a \<noteq> x \<Longrightarrow> \<exists>p. map_of ps x = Some p"
  by (cases rule: anc.cases) auto

lemma anc_trans: "anc ps b c \<Longrightarrow> anc ps a b \<Longrightarrow> anc ps a c"
  by (induction rule: anc.induct) (auto intro: anc.up)

lemma anc_parent: "map_of ps c = Some p \<Longrightarrow> anc ps p c"
  by (auto intro: anc.intros)

lemma anc_linear: "anc ps a x \<Longrightarrow> anc ps b x \<Longrightarrow> anc ps a b \<or> anc ps b a"
proof (induction rule: anc.induct)
  case (up x p)
  show ?case
  proof (cases "b = x")
    case True
    then show ?thesis using anc.up [OF up.hyps] by simp
  next
    case False
    then show ?thesis using up.IH anc_above [OF up.prems _ up.hyps(1)] by simp
  qed
qed simp

lemma anc_child: "anc ps a x \<Longrightarrow> x \<noteq> a \<Longrightarrow> \<exists>c. map_of ps c = Some a \<and> anc ps c x"
proof (induction rule: anc.induct)
  case (up x p)
  then show ?case by (cases "p = a") (auto intro: anc.intros)
qed simp

lemma rooted_acyclic:
  "rooted ps r x \<Longrightarrow> map_of ps r = None \<Longrightarrow> map_of ps x = Some q \<Longrightarrow> \<not> anc ps x q"
proof (induction arbitrary: q rule: rooted.induct)
  case (step c p)
  show ?case
  proof
    assume "anc ps c q"
    then have a: "anc ps c p" using step by simp
    show False
    proof (cases "c = p")
      case True
      then show ?thesis using step.IH [OF step.prems(1)] step.hyps(1) anc.self by auto
    next
      case False
      obtain q' where q': "map_of ps p = Some q'" using anc_has_parent [OF a False] by blast
      have "anc ps c q'" by (rule anc_above [OF a False q'])
      then have "anc ps p q'" using anc_trans anc_parent [OF step.hyps(1)] by blast
      then show ?thesis using step.IH [OF step.prems(1) q'] by simp
    qed
  qed
qed simp

section \<open>Every node once\<close>

fun nodeIds :: "node_obj \<Rightarrow> jsstr list" where
  "nodeIds (NodeObj i tp pr ex ks) = i # concat (map nodeIds ks)"

definition goodNodes :: "(jsstr \<times> flat_node) list \<Rightarrow> bool" where
  "goodNodes nodes \<longleftrightarrow> distinct (map fst nodes) \<and> (\<forall>(k, n) \<in> set nodes. fnId n = k)"

lemma goodNodes_id: "goodNodes nodes \<Longrightarrow> c \<in> fst ` set nodes \<Longrightarrow> fnId (the (map_of nodes c)) = c"
proof -
  assume g: "goodNodes nodes" and c: "c \<in> fst ` set nodes"
  then obtain n where n: "map_of nodes c = Some n" by (metis domD dom_map_of_conv_image_fst)
  then show ?thesis using g map_of_SomeD [OF n] by (auto simp: goodNodes_def)
qed

lemma sortedKids_ids:
  assumes g: "goodNodes nodes" and d: "distinct (map fst ps)" and k: "fst ` set ps \<subseteq> fst ` set nodes"
  shows "set (map fnId (sortedKids nodes ps p)) = {c. map_of ps c = Some p}"
    "distinct (map fnId (sortedKids nodes ps p))"
proof -
  let ?l = "filter (\<lambda>(c, q). q = p) ps"
  have m: "map fnId (map (\<lambda>(c, q). the (map_of nodes c)) ?l) = map fst ?l"
  proof -
    have "fnId (the (map_of nodes c)) = c" if "(c, q) \<in> set ps" for c q
      using goodNodes_id [OF g] k that by force
    then show ?thesis by auto
  qed
  have "mset (map fnId (sortedKids nodes ps p)) = mset (map fst ?l)"
    unfolding m [symmetric] sortedKids_def mset_map mset_sort by (rule refl)
  moreover have "set (map fst ?l) = {c. map_of ps c = Some p}" using d by force
  moreover have "distinct (map fst ?l)" by (rule distinct_map_filter [OF d])
  ultimately show "set (map fnId (sortedKids nodes ps p)) = {c. map_of ps c = Some p}"
    "distinct (map fnId (sortedKids nodes ps p))"
    by (metis set_mset_mset, metis mset_eq_imp_distinct_iff)
qed

lemma those_Some: "\<forall>x \<in> set xs. f x = Some (g x) \<Longrightarrow> those (map f xs) = Some (map g xs)"
  by (induction xs) auto

definition ancestors :: "parents \<Rightarrow> jsstr \<Rightarrow> jsstr set" where
  "ancestors ps x = {a. anc ps a x}"

lemma ancestors_child:
  "map_of ps c = Some p \<Longrightarrow> \<not> anc ps c p \<Longrightarrow> finite (ancestors ps p)
    \<Longrightarrow> card (ancestors ps c) = Suc (card (ancestors ps p))"
proof -
  assume c: "map_of ps c = Some p" "\<not> anc ps c p" and f: "finite (ancestors ps p)"
  have "anc ps a c \<longleftrightarrow> a = c \<or> anc ps a p" for a
    using anc_above [of ps a c p] c(1) anc.up [OF c(1), of a] anc.self [of ps a] by auto
  then have "ancestors ps c = insert c (ancestors ps p)" by (auto simp: ancestors_def)
  then show ?thesis using c(2) f by (simp add: ancestors_def)
qed

lemma count_nodeIds:
  "count (mset (nodeIds (NodeObj i tp pr ex ks))) m
     = (if m = i then 1 else 0) + sum_list (map (\<lambda>t. count (mset (nodeIds t)) m) ks)"
proof -
  have "count (mset (concat (map nodeIds ks))) m = sum_list (map (\<lambda>t. count (mset (nodeIds t)) m) ks)"
    by (induction ks) auto
  then show ?thesis by simp
qed

lemma sum_indicator:
  "distinct xs \<Longrightarrow> sum_list (map (\<lambda>x. if P x then 1 else 0) xs) = card {x \<in> set xs. P x}"
proof (induction xs)
  case (Cons x xs)
  have "{y \<in> set (x # xs). P y} = (if P x then insert x {y \<in> set xs. P y} else {y \<in> set xs. P y})"
    by auto
  then show ?case using Cons by simp
qed simp

lemma anc_in: "anc ps a x \<Longrightarrow> a = x \<or> a \<in> ran (map_of ps)"
  by (induction rule: anc.induct) (auto intro: ranI)

lemma ancestors_sub: "ran (map_of ps) \<subseteq> N \<Longrightarrow> x \<in> N \<Longrightarrow> ancestors ps x \<subseteq> N"
  using anc_in by (fastforce simp: ancestors_def)

text \<open>Among the children of a node, exactly one is above a node further down.\<close>

lemma children_above:
  assumes ac: "\<And>x q. map_of ps x = Some q \<Longrightarrow> \<not> anc ps x q"
  shows "card {c. map_of ps c = Some p \<and> anc ps c m} = (if anc ps p m \<and> m \<noteq> p then 1 else 0)"
proof (cases "anc ps p m \<and> m \<noteq> p")
  case True
  then obtain c where c: "map_of ps c = Some p" "anc ps c m" using anc_child by blast
  have "c' = c" if "map_of ps c' = Some p" "anc ps c' m" for c'
  proof (rule ccontr)
    assume ne: "c' \<noteq> c"
    from anc_linear [OF that(2) c(2)] show False
    proof (elim disjE)
      assume "anc ps c' c"
      from anc_above [OF this ne c(1)] show False using ac [OF that(1)] by blast
    next
      assume "anc ps c c'"
      from anc_above [OF this ne [symmetric] that(1)] show False using ac [OF c(1)] by blast
    qed
  qed
  then have "{c. map_of ps c = Some p \<and> anc ps c m} = {c}" using c by blast
  then show ?thesis using True by simp
next
  case False
  have "\<not> anc ps c m" if "map_of ps c = Some p" for c
  proof
    assume "anc ps c m"
    moreover from this have "anc ps p m" using anc_trans anc_parent [OF that] by blast
    ultimately show False using False ac [OF that] by auto
  qed
  then have "{c. map_of ps c = Some p \<and> anc ps c m} = {}" by auto
  then show ?thesis by (simp only: False if_False card.empty)
qed

lemma buildTree_spec:
  assumes g: "goodNodes nodes" and d: "distinct (map fst ps)"
    and k: "fst ` set ps \<subseteq> fst ` set nodes" "ran (map_of ps) \<subseteq> fst ` set nodes"
    and ac: "\<And>x q. map_of ps x = Some q \<Longrightarrow> \<not> anc ps x q"
  shows "n \<in> snd ` set nodes \<Longrightarrow> card (fst ` set nodes) < f + card (ancestors ps (fnId n))
    \<Longrightarrow> \<exists>t. buildTree f nodes ps collapsed n = Some t \<and> noId t = fnId n
      \<and> (\<forall>m. count (mset (nodeIds t)) m = (if anc ps (fnId n) m then 1 else 0))"
proof (induction f arbitrary: n)
  case 0
  have "fnId n \<in> fst ` set nodes" using "0.prems"(1) g by (force simp: goodNodes_def)
  then have "card (ancestors ps (fnId n)) \<le> card (fst ` set nodes)"
    by (intro card_mono ancestors_sub [OF k(2)]) auto
  then show ?case using "0.prems"(2) by simp
next
  case (Suc f)
  let ?i = "fnId n" and ?kids = "sortedKids nodes ps (fnId n)"
  let ?b = "buildTree f nodes ps collapsed"
  have i: "?i \<in> fst ` set nodes" using Suc.prems(1) g by (force simp: goodNodes_def)
  have fin: "finite (ancestors ps ?i)"
    using ancestors_sub [OF k(2) i] finite_subset by fastforce
  note ki = sortedKids_ids [OF g d k(1), of ?i]
  have kid: "\<exists>t. ?b x = Some t \<and> noId t = fnId x
      \<and> (\<forall>m. count (mset (nodeIds t)) m = (if anc ps (fnId x) m then 1 else 0))"
    if x: "x \<in> set ?kids" for x
  proof (rule Suc.IH)
    have p: "map_of ps (fnId x) = Some ?i" using ki(1) x by auto
    show "card (fst ` set nodes) < f + card (ancestors ps (fnId x))"
      using ancestors_child [OF p ac [OF p] fin] Suc.prems(2) by simp
    obtain c where c: "x = the (map_of nodes c)" "c \<in> fst ` set ps"
      using x by (force simp: sortedKids_def)
    then obtain y where "map_of nodes c = Some y"
      using k(1) by (metis domD dom_map_of_conv_image_fst subsetD)
    then show "x \<in> snd ` set nodes" using c(1) by (force dest: map_of_SomeD)
  qed
  define T where "T x = the (?b x)" for x
  have T: "\<forall>x \<in> set ?kids. ?b x = Some (T x)" using kid unfolding T_def by fastforce
  have cT: "count (mset (nodeIds (T x))) m = (if anc ps (fnId x) m then 1 else 0)"
    if "x \<in> set ?kids" for x m using kid [OF that] unfolding T_def by fastforce
  let ?t = "NodeObj ?i (fnTopic n) (filter (\<lambda>(k, v). k \<notin> ownKeys) (fnProps n))
      (if ?i \<in> set collapsed \<and> ?kids \<noteq> [] then Some False else None) (map T ?kids)"
  have t: "buildTree (Suc f) nodes ps collapsed n = Some ?t"
    using those_Some [OF T] by (simp add: Let_def)
  have "count (mset (nodeIds ?t)) m = (if anc ps ?i m then 1 else 0)" for m
  proof -
    have "map (\<lambda>t. count (mset (nodeIds t)) m) (map T ?kids)
        = map (\<lambda>c. if anc ps c m then 1 else 0) (map fnId ?kids)" using cT by simp
    then have "sum_list (map (\<lambda>t. count (mset (nodeIds t)) m) (map T ?kids))
        = card {c \<in> set (map fnId ?kids). anc ps c m}" by (simp only: sum_indicator [OF ki(2)])
    also have "\<dots> = (if anc ps ?i m \<and> m \<noteq> ?i then 1 else 0)"
      using children_above [OF ac, of ?i m] by (simp add: ki(1) del: set_map)
    finally show ?thesis unfolding count_nodeIds by (simp add: anc.self)
  qed
  then show ?case using t by (intro exI [of _ ?t]) (simp del: nodeIds.simps)
qed

lemma rooted_anc: "rooted ps r x \<longleftrightarrow> anc ps r x"
proof
  show "rooted ps r x \<Longrightarrow> anc ps r x" by (induction rule: rooted.induct) (auto intro: anc.intros)
  have "anc ps a x \<Longrightarrow> a = r \<longrightarrow> rooted ps r x" for a
    by (induction rule: anc.induct) (auto intro: rooted.intros)
  then show "anc ps r x \<Longrightarrow> rooted ps r x" by blast
qed

lemma materialize_spec:
  assumes g: "goodNodes (fmNodes m)" and ne: "fmNodes m \<noteq> []"
  obtains t sums where "materialize m collapsed = Some (t, shownArrows m, sums)"
    "noId t = rootOf (fmNodes m)" "mset (nodeIds t) = mset (map fst (fmNodes m))"
proof -
  let ?nodes = "fmNodes m" and ?r = "rootOf (fmNodes m)"
  have d: "distinct (map fst ?nodes)" using g by (simp add: goodNodes_def)
  obtain ps where R: "resolveParents ?nodes = Some (?r, ps)"
    "map fst ps = filter (\<lambda>x. x \<noteq> ?r) (sort (map fst ?nodes))"
    "\<forall>x \<in> fst ` set ?nodes. rooted ps ?r x" "ran (map_of ps) \<subseteq> fst ` set ?nodes"
    using resolveParents_spec [OF d ne] by metis
  have dp: "distinct (map fst ps)" unfolding R(2) using d by simp
  have sp: "fst ` set ps = fst ` set ?nodes - {?r}"
  proof -
    have "fst ` set ps = set (filter (\<lambda>x. x \<noteq> ?r) (sort (map fst ?nodes)))"
      unfolding R(2) [symmetric] by simp
    then show ?thesis by auto
  qed
  have nr: "map_of ps ?r = None" using sp by (simp add: map_of_eq_None_iff)
  have ac: "\<not> anc ps x q" if "map_of ps x = Some q" for x q
  proof (rule rooted_acyclic [OF _ nr that])
    have "x \<in> fst ` set ps" using that by (force dest: map_of_SomeD)
    then show "rooted ps ?r x" using R(3) sp by blast
  qed
  have rN: "?r \<in> fst ` set ?nodes" by (rule rootOf_in [OF ne])
  then obtain n where n: "map_of ?nodes ?r = Some n" by (metis domD dom_map_of_conv_image_fst)
  have id: "fnId n = ?r" using goodNodes_id [OF g rN] n by simp
  have "ancestors ps ?r = {?r}" using nr using anc_has_parent [of ps _ ?r] by (auto simp: ancestors_def intro: anc.self)
  moreover have "card (fst ` set ?nodes) = length ?nodes" using d by (metis distinct_card length_map set_map)
  moreover have "n \<in> snd ` set ?nodes" using n by (force dest: map_of_SomeD)
  ultimately obtain t where t: "buildTree (length ?nodes) ?nodes ps collapsed n = Some t"
    "noId t = ?r" "\<And>x. count (mset (nodeIds t)) x = (if anc ps ?r x then 1 else 0)"
    using buildTree_spec [OF g dp _ R(4) ac, of n "length ?nodes" collapsed] sp id by auto
  have "anc ps ?r x \<longleftrightarrow> x \<in> fst ` set ?nodes" for x
    using R(3) rooted_anc [of ps ?r x] anc_in [of ps ?r x] rN
      anc_has_parent [of ps ?r x]
    by (metis Diff_iff domI dom_map_of_conv_image_fst sp)
  then have "mset (nodeIds t) = mset (map fst ?nodes)"
    using d t(3) by (intro multiset_eqI) (simp add: distinct_count_atmost_1)
  then show ?thesis using that R(1) n t(1,2) by (simp add: materialize_def)
qed

text \<open>The order \<open>sortedKids\<close> sorts by is the one of \<open>compareSiblings\<close>.\<close>

lemma siblingKey_compare:
  "compareSiblings (siblingKey a) (siblingKey b) < 0 \<longleftrightarrow> siblingKey a < siblingKey b"
  "compareSiblings (siblingKey a) (siblingKey b) = 0 \<longleftrightarrow> siblingKey a = siblingKey b"
  by (auto simp: compareSiblings_def siblingKey_def less_prod_def)

lemma resolveParents_order:
  assumes "distinct (map fst n1)" "distinct (map fst n2)" "map_of n1 = map_of n2"
  shows "resolveParents n1 = resolveParents n2"
proof -
  have f: "fst ` set n1 = fst ` set n2" using assms(3) by (metis dom_map_of_conv_image_fst)
  then have s: "sort (map fst n1) = sort (map fst n2)"
    using assms(1,2) by (intro sorted_distinct_set_unique) auto
  have "n1 = [] \<longleftrightarrow> fst ` set n1 = {}" "n2 = [] \<longleftrightarrow> fst ` set n2 = {}" by simp_all
  then have "n1 = [] \<longleftrightarrow> n2 = []" using f by (simp only:)
  then show ?thesis
    unfolding resolveParents_def firstParents_def assms(3) s by (simp only:)
qed

section \<open>Properties\<close>

text \<open>C12: whatever a merge left in the shared tree (orphans, cycles, several roots), the mind
  map shows a tree: \<open>materialize\<close> returns (its recursion needs no more levels than there
  are nodes), the tree starts at the root and holds every node of the model exactly once.\<close>

theorem materialize_every_node_once:
  assumes "goodNodes (fmNodes m)" "fmNodes m \<noteq> []"
  shows "\<exists>t sums. materialize m collapsed = Some (t, shownArrows m, sums)
    \<and> noId t = rootOf (fmNodes m) \<and> mset (nodeIds t) = mset (map fst (fmNodes m))"
  by (rule materialize_spec [OF assms]) blast

definition exampleNode :: "jsstr \<Rightarrow> jsstr option \<Rightarrow> flat_node" where
  "exampleNode i p = \<lparr>fnId = i, fnParent = p, fnOrder = js ''V'', fnTopic = i, fnProps = []\<rparr>"

text \<open>A cycle of two nodes, an orphan, a root.\<close>

definition exampleNodes :: "(jsstr \<times> flat_node) list" where
  "exampleNodes = map (\<lambda>(i, p). (i, exampleNode i p))
     [(js ''b'', Some (js ''c'')), (js ''c'', Some (js ''b'')), (js ''r'', None),
      (js ''x'', Some (js ''gone''))]"

theorem materialize_every_node_once_witness:
  "\<exists>t. noId t = js ''r'' \<and> mset (nodeIds t) = {#js ''b'', js ''c'', js ''r'', js ''x''#}"
proof -
  let ?m = "\<lparr>fmNodes = exampleNodes, fmArrows = [], fmSummaries = []\<rparr>"
  have g: "goodNodes exampleNodes" by code_simp
  have n: "exampleNodes \<noteq> []" by (simp add: exampleNodes_def)
  have r: "rootOf exampleNodes = js ''r''" by code_simp
  have k: "map fst exampleNodes = [js ''b'', js ''c'', js ''r'', js ''x'']"
    by (simp add: exampleNodes_def)
  have m: "fmNodes ?m = exampleNodes" by simp
  from materialize_every_node_once [where m = ?m and collapsed = "[]", unfolded m, OF g n]
  obtain t where "noId t = rootOf exampleNodes" "mset (nodeIds t) = mset (map fst exampleNodes)"
    by blast
  then show ?thesis unfolding r k by (intro exI [of _ t]) simp
qed



text \<open>C13: two members that hold the same nodes read the same tree: the parents do not depend
  on the order in which the shared map enumerates its entries.\<close>

theorem resolveParents_deterministic:
  assumes "distinct (map fst n1)" "distinct (map fst n2)" "map_of n1 = map_of n2"
  shows "resolveParents n1 = resolveParents n2"
  by (rule resolveParents_order [OF assms])

theorem resolveParents_deterministic_witness:
  "resolveParents [(js ''r'', exampleNode (js ''r'') None), (js ''a'', exampleNode (js ''a'') None)]
    = resolveParents [(js ''a'', exampleNode (js ''a'') None), (js ''r'', exampleNode (js ''r'') None)]"
proof (rule resolveParents_deterministic)
  show "distinct (map fst [(js ''r'', exampleNode (js ''r'') None), (js ''a'', exampleNode (js ''a'') None)])"
    "distinct (map fst [(js ''a'', exampleNode (js ''a'') None), (js ''r'', exampleNode (js ''r'') None)])"
    by (simp_all add: js_def)
  have ne: "js ''a'' \<noteq> js ''r''" by (simp add: js_def)
  show "map_of [(js ''r'', exampleNode (js ''r'') None), (js ''a'', exampleNode (js ''a'') None)]
      = map_of [(js ''a'', exampleNode (js ''a'') None), (js ''r'', exampleNode (js ''r'') None)]"
    using ne by (auto simp: fun_eq_iff)
qed

end
