(* ===== verification/SharedTree.thy ===== *)
theory SharedTree
  imports TextPatch
begin

text \<open>
  The reference implementation of the shared tree
  (\<open>plugin-runtime/src/InMemorySharedTree.ts\<close>): maps, lists, elements and rich texts in a
  store of nodes, written by operations; a transaction collects operations and changes, and a
  linked peer replays the operations.  A node is named by an id that travels with the
  operations; the source writes it as a string \<open>m<instance>:<counter>\<close>, here it is the
  pair.  Objects (\<open>nodes\<close>, \<open>entries\<close>, \<open>attrs\<close>) are association lists in insertion
  order; the object graph of the source (\<open>parentNode\<close>, the items of a node) is the store,
  a map from ids to nodes.
\<close>

section \<open>Data\<close>

datatype node_id = RootId | NodeId nat nat

datatype prim = PNull | PBool bool | PNum int | PStr jsstr

type_synonym attrs = "(jsstr \<times> json) list"

datatype rich = RRetain nat "attrs option" | RDelete nat | RInsert jsstr "attrs option"

text \<open>What a caller passes to create a value (\<open>TreeValueInit\<close>); \<open>IBad\<close> is anything
  else.\<close>

datatype init = IPrim prim | IMap "(jsstr \<times> init) list" | IList "init list" | IText "rich list"
  | IElem jsstr attrs "init list" | IBad

text \<open>A snapshot: a node to create, with its ids.\<close>

datatype snap = SPrim prim | SMap node_id "(jsstr \<times> snap) list" | SList node_id "snap list"
  | SText node_id "rich list" | SElem node_id jsstr attrs "snap list"

datatype op = MapSet node_id jsstr snap | MapDel node_id jsstr | ListIns node_id int "snap list"
  | ListDel node_id int int | TextOp node_id "rich list" | AttrOp node_id jsstr "json option"

datatype val = VPrim prim | VNode node_id

record rchar =
  chUnit :: cu
  chAttrs :: attrs

datatype content = CMap "(jsstr \<times> val) list" | CList "val list" | CText "rchar list"
  | CElem jsstr attrs "val list"

record tnode =
  nParent :: "node_id option"
  nRemoved :: bool
  nContent :: content

type_synonym store = "(node_id \<times> tnode) list"

text \<open>What an observer is told of one operation.\<close>

datatype list_delta = LRetain int | LInsert "val list" | LDelete nat

datatype change = ChMap node_id jsstr | ChList node_id "list_delta list" | ChText node_id "rich list"
  | ChElem node_id "jsstr list" "list_delta list"

record tx =
  txOps :: "op list"
  txChanges :: "change list"
  txCreated :: "node_id list"
  txLocal :: bool

record tree =
  trInstance :: nat
  trCounter :: nat
  trStore :: store

section \<open>Rich text\<close>

text \<open>\<open>mergeAttrs\<close>: a null removes the attribute.\<close>

definition mergeAttrs :: "attrs \<Rightarrow> attrs \<Rightarrow> attrs" where
  "mergeAttrs base patch =
     fold (\<lambda>(k, v) out. if v = JNull then AList.delete k out else AList.update k v out) patch base"

fun applyRich :: "rchar list \<Rightarrow> rich list \<Rightarrow> rchar list" where
  "applyRich chars [] = chars"
| "applyRich chars (RRetain n a # d) =
     map (\<lambda>c. case a of None \<Rightarrow> c | Some p \<Rightarrow> c\<lparr>chAttrs := mergeAttrs (chAttrs c) p\<rparr>) (take n chars)
       @ applyRich (drop n chars) d"
| "applyRich chars (RDelete n # d) = applyRich (drop n chars) d"
| "applyRich chars (RInsert s a # d) =
     map (\<lambda>u. \<lparr>chUnit = u, chAttrs = mergeAttrs [] (case a of None \<Rightarrow> [] | Some p \<Rightarrow> p)\<rparr>) s
       @ applyRich chars d"

text \<open>\<open>sameAttrs\<close> compares the sorted keys and the JSON of each value.\<close>

definition sameAttrs :: "attrs \<Rightarrow> attrs \<Rightarrow> bool" where
  "sameAttrs a b \<longleftrightarrow> sort (map fst a) = sort (map fst b)
     \<and> list_all (\<lambda>k. map_of a k = map_of b k) (map fst a)"


definition textString :: "rchar list \<Rightarrow> jsstr" where
  "textString chars = map chUnit chars"

definition pushChar :: "(jsstr \<times> attrs option) list \<Rightarrow> rchar \<Rightarrow> (jsstr \<times> attrs option) list" where
  "pushChar out c =
     (if out \<noteq> [] \<and> sameAttrs (case snd (last out) of None \<Rightarrow> [] | Some a \<Rightarrow> a) (chAttrs c)
      then butlast out @ [(fst (last out) @ [chUnit c], snd (last out))]
      else out @ [([chUnit c], if chAttrs c \<noteq> [] then Some (chAttrs c) else None)])"

definition toRich :: "rchar list \<Rightarrow> rich list" where
  "toRich chars = map (\<lambda>(s, a). RInsert s a) (foldl pushChar [] chars)"

section \<open>Snapshots\<close>

text \<open>\<open>snap\<close>: gives the ids; an invalid value throws (\<open>None\<close>), after the counter has
  moved.\<close>

fun isChildInit :: "init \<Rightarrow> bool" where
  "isChildInit (IText d) = True"
| "isChildInit (IElem n a cs) = True"
| "isChildInit _ = False"

fun snapOf :: "nat \<Rightarrow> nat \<Rightarrow> init \<Rightarrow> nat \<times> snap option"
  and snapEntries :: "nat \<Rightarrow> nat \<Rightarrow> (jsstr \<times> init) list \<Rightarrow> nat \<times> (jsstr \<times> snap) list option"
  and snapItems :: "nat \<Rightarrow> nat \<Rightarrow> init list \<Rightarrow> nat \<times> snap list option"
  and snapChildren :: "nat \<Rightarrow> nat \<Rightarrow> init list \<Rightarrow> nat \<times> snap list option" where
  "snapOf i n (IPrim p) = (n, Some (SPrim p))"
| "snapOf i n (IMap es) =
     (case snapEntries i (Suc n) es of (m, r) \<Rightarrow> (m, map_option (SMap (NodeId i (Suc n))) r))"
| "snapOf i n (IList xs) =
     (case snapItems i (Suc n) xs of (m, r) \<Rightarrow> (m, map_option (SList (NodeId i (Suc n))) r))"
| "snapOf i n (IText d) = (Suc n, Some (SText (NodeId i (Suc n)) d))"
| "snapOf i n (IElem name a cs) =
     (case snapChildren i (Suc n) cs of (m, r) \<Rightarrow>
        (m, map_option (SElem (NodeId i (Suc n)) name a) r))"
| "snapOf i n IBad = (Suc n, None)"
| "snapEntries i n [] = (n, Some [])"
| "snapEntries i n ((k, v) # es) =
     (case snapOf i n v of
        (m, None) \<Rightarrow> (m, None)
      | (m, Some s) \<Rightarrow> (case snapEntries i m es of (l, r) \<Rightarrow> (l, map_option ((#) (k, s)) r)))"
| "snapItems i n [] = (n, Some [])"
| "snapItems i n (v # vs) =
     (case snapOf i n v of
        (m, None) \<Rightarrow> (m, None)
      | (m, Some s) \<Rightarrow> (case snapItems i m vs of (l, r) \<Rightarrow> (l, map_option ((#) s) r)))"
| "snapChildren i n [] = (n, Some [])"
| "snapChildren i n (v # vs) =
     (if \<not> isChildInit v then (n, None)
      else case snapOf i n v of
        (m, None) \<Rightarrow> (m, None)
      | (m, Some s) \<Rightarrow> (case snapChildren i m vs of (l, r) \<Rightarrow> (l, map_option ((#) s) r)))"

section \<open>Building nodes\<close>




section \<open>Operations\<close>

text \<open>\<open>deleted\<close>: the node or one above it was removed.  The walk up needs no more steps than
  there are nodes.\<close>

fun deletedUp :: "nat \<Rightarrow> store \<Rightarrow> node_id \<Rightarrow> bool" where
  "deletedUp 0 s i = False"
| "deletedUp (Suc f) s i =
     (case map_of s i of
        None \<Rightarrow> False
      | Some n \<Rightarrow> nRemoved n \<or> (case nParent n of None \<Rightarrow> False | Some p \<Rightarrow> deletedUp f s p))"

definition deleted :: "store \<Rightarrow> node_id \<Rightarrow> bool" where
  "deleted s i = deletedUp (length s) s i"


definition recordChange :: "node_id \<Rightarrow> change \<Rightarrow> store \<times> tx \<Rightarrow> store \<times> tx" where
  "recordChange i c st = (case st of (s, t) \<Rightarrow>
     if i \<notin> set (txCreated t) \<and> \<not> deleted s i then (s, t\<lparr>txChanges := txChanges t @ [c]\<rparr>) else (s, t))"












section \<open>The calls of a plugin\<close>










section \<open>Observers\<close>

definition changeTarget :: "change \<Rightarrow> node_id" where
  "changeTarget c = (case c of ChMap i _ \<Rightarrow> i | ChList i _ \<Rightarrow> i | ChText i _ \<Rightarrow> i | ChElem i _ _ \<Rightarrow> i)"

type_synonym deep = "(node_id \<times> change list) list"

fun bubble :: "nat \<Rightarrow> store \<Rightarrow> change \<Rightarrow> node_id \<Rightarrow> deep \<Rightarrow> deep" where
  "bubble 0 s c i d = d"
| "bubble (Suc f) s c i d =
     (let d' = AList.update i ((case map_of d i of None \<Rightarrow> [] | Some l \<Rightarrow> l) @ [c]) d
      in case map_of s i of
           None \<Rightarrow> d'
         | Some n \<Rightarrow> (case nParent n of None \<Rightarrow> d' | Some p \<Rightarrow> bubble f s c p d'))"

text \<open>A call of the observers of a node, of one change or of the changes below it.\<close>

datatype call = Direct node_id change | Deep node_id "change list"

definition emit :: "store \<Rightarrow> tx \<Rightarrow> call list" where
  "emit s t =
     concat (map (\<lambda>(i, cs). map (Direct i) (filter (\<lambda>c. changeTarget c = i) cs) @ [Deep i cs])
       (fold (\<lambda>c d. bubble (length s) s c (changeTarget c) d) (txChanges t) []))"

section \<open>Linked members\<close>

text \<open>The members of a group and who is linked to whom; a local transaction of one member,
  then its operations at its peers.\<close>

record group =
  grTrees :: "tree list"
  grLinks :: "(nat \<times> nat) list"

definition linkPair :: "nat \<Rightarrow> nat \<Rightarrow> group \<Rightarrow> group" where
  "linkPair a b g = g\<lparr>grLinks := grLinks g @ [(a, b), (b, a)]\<rparr>"



section \<open>Members converge\<close>

text \<open>What an operation does to the store does not depend on the transaction around it.\<close>

lemma recordChange_store [simp]: "fst (recordChange i c st) = fst st"
  by (simp add: recordChange_def split: prod.splits)











lemma recordChange_tx [simp]:
  "txOps (snd (recordChange i c st)) = txOps (snd st)"
  "txLocal (snd (recordChange i c st)) = txLocal (snd st)"
  by (simp_all add: recordChange_def split: prod.splits)


















section \<open>A rich text survives its delta\<close>

definition attrsOK :: "attrs \<Rightarrow> bool" where
  "attrsOK a \<longleftrightarrow> distinct (map fst a) \<and> JNull \<notin> snd ` set a"

definition charView :: "rchar \<Rightarrow> cu \<times> (jsstr \<rightharpoonup> json)" where
  "charView c = (chUnit c, map_of (chAttrs c))"

lemma update_fresh: "k \<notin> fst ` set xs \<Longrightarrow> AList.update k v xs = xs @ [(k, v)]"
  by (induction xs) auto

lemma mergeAttrs_append:
  "attrsOK p \<Longrightarrow> fst ` set p \<inter> fst ` set base = {} \<Longrightarrow> mergeAttrs base p = base @ p"
proof (induction p arbitrary: base)
  case (Cons kv p)
  obtain k v where kv: "kv = (k, v)" by fastforce
  have "mergeAttrs base (kv # p) = mergeAttrs (base @ [(k, v)]) p"
    using Cons.prems by (auto simp: kv mergeAttrs_def attrsOK_def update_fresh)
  also have "\<dots> = (base @ [(k, v)]) @ p"
    using Cons.prems by (intro Cons.IH) (auto simp: kv attrsOK_def)
  finally show ?case by (simp add: kv)
qed (simp add: mergeAttrs_def)

lemma mergeAttrs_ok: "attrsOK base \<Longrightarrow> attrsOK (mergeAttrs base p)"
proof (induction p arbitrary: base)
  case (Cons kv p)
  obtain k v where kv: "kv = (k, v)" by fastforce
  have "attrsOK (if v = JNull then AList.delete k base else AList.update k v base)"
  proof -
    have "JNull \<notin> snd ` set (AList.delete k base)"
      using Cons.prems by (auto simp: attrsOK_def AList.delete_eq)
    moreover have "snd ` set (AList.update k v base) \<subseteq> insert v (snd ` set base)"
      by (induction base) auto
    ultimately show ?thesis
      using Cons.prems by (auto simp: attrsOK_def distinct_delete distinct_update)
  qed
  then show ?case using Cons.IH by (simp add: mergeAttrs_def kv)
qed (simp add: mergeAttrs_def)

lemma applyRich_ok: "list_all (attrsOK \<circ> chAttrs) cs \<Longrightarrow> list_all (attrsOK \<circ> chAttrs) (applyRich cs d)"
proof (induction cs d rule: applyRich.induct)
  case (2 chars n a d)
  then show ?case by (auto simp: list_all_iff mergeAttrs_ok dest: in_set_takeD in_set_dropD split: option.splits)
next
  case (3 chars n d)
  then show ?case by (auto simp: list_all_iff dest: in_set_dropD)
next
  case (4 chars s a d)
  have "attrsOK []" by (simp add: attrsOK_def)
  with 4 show ?case by (auto simp: list_all_iff mergeAttrs_ok)
qed simp

lemma sameAttrs_map_of:
  assumes "attrsOK a" "attrsOK b" "sameAttrs a b"
  shows "map_of a = map_of b"
proof
  fix k
  have "set (sort (map fst a)) = set (sort (map fst b))" using assms(3) by (simp add: sameAttrs_def)
  then have keys: "fst ` set a = fst ` set b" by simp
  show "map_of a k = map_of b k"
  proof (cases "k \<in> fst ` set a")
    case True
    then show ?thesis using assms(3) by (auto simp: sameAttrs_def list_all_iff)
  next
    case False
    then show ?thesis using keys by (metis map_of_eq_None_iff)
  qed
qed

text \<open>What the inserts collected so far spell out.\<close>

definition spelled :: "(jsstr \<times> attrs option) list \<Rightarrow> rchar list" where
  "spelled out = concat (map (\<lambda>(s, a). map (\<lambda>u. \<lparr>chUnit = u,
     chAttrs = mergeAttrs [] (case a of None \<Rightarrow> [] | Some p \<Rightarrow> p)\<rparr>) s) out)"

lemma applyRich_inserts: "applyRich [] (map (\<lambda>(s, a). RInsert s a) out) = spelled out"
  by (induction out) (auto simp: spelled_def)

definition runsOK :: "(jsstr \<times> attrs option) list \<Rightarrow> bool" where
  "runsOK out \<longleftrightarrow> (\<forall>(s, a) \<in> set out. attrsOK (case a of None \<Rightarrow> [] | Some p \<Rightarrow> p))"

lemma mergeAttrs_empty: "attrsOK a \<Longrightarrow> mergeAttrs [] a = a"
  using mergeAttrs_append [of a "[]"] by simp

lemma pushChar_spelled:
  assumes "runsOK out" "attrsOK (chAttrs c)"
  shows "runsOK (pushChar out c)"
    "map charView (spelled (pushChar out c)) = map charView (spelled out) @ [charView c]"
proof -
  have no: "attrsOK []" by (simp add: attrsOK_def)
  consider (same) run s a where "out = run @ [(s, a)]"
      "sameAttrs (case a of None \<Rightarrow> [] | Some p \<Rightarrow> p) (chAttrs c)"
    | (new) "pushChar out c = out @ [([chUnit c], if chAttrs c \<noteq> [] then Some (chAttrs c) else None)]"
  proof (cases out rule: rev_cases)
    case (snoc run r)
    obtain s a where "r = (s, a)" by fastforce
    then show ?thesis using same [of run s a] new snoc 
      by (cases "sameAttrs (case a of None \<Rightarrow> [] | Some p \<Rightarrow> p) (chAttrs c)") (simp_all add: pushChar_def)
  qed (simp add: new pushChar_def)
  then have "runsOK (pushChar out c) \<and>
    map charView (spelled (pushChar out c)) = map charView (spelled out) @ [charView c]"
  proof cases
    case same
    let ?a = "case a of None \<Rightarrow> [] | Some p \<Rightarrow> p"
    have ok: "attrsOK ?a" using assms(1) same(1) by (auto simp: runsOK_def)
    have p: "pushChar out c = run @ [(s @ [chUnit c], a)]" using same by (simp add: pushChar_def)
    have "map_of ?a = map_of (chAttrs c)" by (rule sameAttrs_map_of [OF ok assms(2) same(2)])
    then show ?thesis
      unfolding p using same(1) assms(1) mergeAttrs_empty [OF ok]
      by (auto simp: spelled_def runsOK_def charView_def)
  next
    case new
    show ?thesis
      unfolding new using assms no mergeAttrs_empty [OF assms(2)]
      by (auto simp: spelled_def runsOK_def charView_def mergeAttrs_def)
  qed
  then show "runsOK (pushChar out c)"
    "map charView (spelled (pushChar out c)) = map charView (spelled out) @ [charView c]" by blast+
qed

lemma pushAll_spelled:
  "runsOK out \<Longrightarrow> list_all (attrsOK \<circ> chAttrs) cs \<Longrightarrow>
   map charView (spelled (foldl pushChar out cs)) = map charView (spelled out) @ map charView cs"
  by (induction cs arbitrary: out) (auto simp: pushChar_spelled)

lemma textString_view: "textString cs = map fst (map charView cs)"
  by (simp add: textString_def charView_def)

text \<open>C10: The delta a text reports of itself rebuilds it: for any edits \<open>d\<close> made to a new text,
  applying \<open>toDelta\<close> of the result to an empty text gives the same characters, each with the
  same attributes.\<close>

theorem toRich_roundtrip:
  "map charView (applyRich [] (toRich (fold (\<lambda>d cs. applyRich cs d) ds [])))
     = map charView (fold (\<lambda>d cs. applyRich cs d) ds [])"
proof -
  have "list_all (attrsOK \<circ> chAttrs) (fold (\<lambda>d cs. applyRich cs d) ds cs)"
    if "list_all (attrsOK \<circ> chAttrs) cs" for cs
    using that by (induction ds arbitrary: cs) (simp_all add: applyRich_ok)
  from this [of "[]"] show ?thesis
    unfolding toRich_def applyRich_inserts using pushAll_spelled [of "[]"]
    by (simp add: runsOK_def spelled_def)
qed

section \<open>Theorems on groups\<close>






end
