(* ===== verification/Outline.thy ===== *)
theory Outline
  imports TextPatch "HOL-Library.Multiset"
begin

text \<open>
  The outline editor (\<open>plugins/plugin-outline/src/outline.ts\<close>): an outline is a nested
  Markdown list.  \<open>parseOutline\<close> reads the items and the tree they form in one pass with a
  stack; each operation takes the text and the caret and returns the new text and selection, or
  null.  Line numbers, item numbers and offsets are naturals; \<open>-1\<close> is \<open>None\<close>.  The
  minimal change between two texts (\<open>diffToChange\<close>, \<open>diffToChanges\<close>, end of the
  same file) is in theory TextPatch.
\<close>

section \<open>Data\<close>

record oline =
  lnFrom :: nat
  lnTo :: nat
  lnText :: jsstr

record oitem =
  oiIndex :: nat
  oiLine :: nat
  oiFrom :: nat
  oiTo :: nat
  oiIndent :: nat
  oiIndentText :: jsstr
  oiBullet :: cu
  oiChecked :: "bool option"
  oiContentFrom :: nat
  oiEndLine :: nat
  oiEnd :: nat
  oiParent :: "nat option"
  oiChildren :: "nat list"
  oiDepth :: nat

record outline =
  outText :: jsstr
  outLines :: "oline list"
  outItems :: "oitem list"
  outOwner :: "nat option list"
  outItemAt :: "nat option list"
  outRoots :: "nat list"

record edit_result =
  erText :: jsstr
  erAnchor :: nat
  erHead :: nat

text \<open>Reading \<open>.length\<close> of a missing line throws.\<close>

datatype js_error = TypeError

definition indentUnit :: nat where
  "indentUnit = 2"

section \<open>Parsing\<close>

abbreviation space :: cu where "space \<equiv> 32"
abbreviation tab :: cu where "tab \<equiv> 9"

definition columns :: "jsstr \<Rightarrow> nat" where
  "columns ws = foldl (\<lambda>n c. n + (if c = tab then indentUnit else 1)) 0 ws"

text \<open>\<open>ITEM_RE\<close>: white space, a bullet, then the end of the line or a space and possibly a
  box; the white space, the bullet, the mark in the box and the length of the match.\<close>

definition matchBox :: "jsstr \<Rightarrow> (cu \<times> nat) option" where
  "matchBox s =
     (case s of
        b # m # e # r \<Rightarrow>
          if b = 91 \<and> (m = space \<or> m = 120 \<or> m = 88) \<and> e = 93 then
            (case r of [] \<Rightarrow> Some (m, 3) | c # _ \<Rightarrow> if c = space then Some (m, 4) else None)
          else None
      | _ \<Rightarrow> None)"

definition isBlankCol :: "cu \<Rightarrow> bool" where
  "isBlankCol c \<longleftrightarrow> c = space \<or> c = tab"

definition matchItem :: "jsstr \<Rightarrow> (jsstr \<times> cu \<times> cu option \<times> nat) option" where
  "matchItem line =
     (let ws = takeWhile isBlankCol line; n = length ws
      in case dropWhile isBlankCol line of
           [] \<Rightarrow> None
         | b # rest \<Rightarrow>
             if b = 45 \<or> b = 42 \<or> b = 43 then
               (case rest of
                  [] \<Rightarrow> Some (ws, b, None, n + 1)
                | c # r \<Rightarrow>
                    if c = space then
                      (case matchBox r of
                         None \<Rightarrow> Some (ws, b, None, n + 2)
                       | Some (m, k) \<Rightarrow> Some (ws, b, Some m, n + 2 + k))
                    else None)
             else None)"

fun linesFrom :: "nat \<Rightarrow> jsstr list \<Rightarrow> oline list" where
  "linesFrom f [] = []"
| "linesFrom f (t # ts) =
     \<lparr>lnFrom = f, lnTo = f + length t, lnText = t\<rparr> # linesFrom (f + length t + 1) ts"

text \<open>The end of a subtree: blank lines at the end are left out.\<close>

fun shrinkEnd :: "oline list \<Rightarrow> nat \<Rightarrow> nat \<Rightarrow> nat" where
  "shrinkEnd ls lo 0 = 0"
| "shrinkEnd ls lo (Suc e) =
     (if lo < Suc e \<and> trim (lnText (ls ! Suc e)) = [] then shrinkEnd ls lo e else Suc e)"

definition closeItem :: "oline list \<Rightarrow> nat \<Rightarrow> nat \<Rightarrow> oitem list \<Rightarrow> oitem list" where
  "closeItem ls lastLine k items =
     (let it = items ! k; e = shrinkEnd ls (oiLine it) (max (oiLine it) lastLine)
      in items[k := it\<lparr>oiEndLine := e, oiEnd := lnTo (ls ! e)\<rparr>])"

text \<open>The stack has its top first.\<close>

fun popItems :: "oline list \<Rightarrow> nat \<Rightarrow> nat \<Rightarrow> oitem list \<Rightarrow> nat list \<Rightarrow> oitem list \<times> nat list" where
  "popItems ls indent lastLine items [] = (items, [])"
| "popItems ls indent lastLine items (k # stack) =
     (if indent \<le> oiIndent (items ! k)
      then popItems ls indent lastLine (closeItem ls lastLine k items) stack
      else (items, k # stack))"

record parse_state =
  psItems :: "oitem list"
  psOwner :: "nat option list"
  psAt :: "nat option list"
  psRoots :: "nat list"
  psStack :: "nat list"

definition parseLine :: "oline list \<Rightarrow> nat \<Rightarrow> parse_state \<Rightarrow> parse_state" where
  "parseLine ls i st =
     (let l = ls ! i
      in case matchItem (lnText l) of
           None \<Rightarrow>
             st\<lparr>psOwner := psOwner st @ [if psItems st = [] then None else Some (length (psItems st) - 1)],
                psAt := psAt st @ [None]\<rparr>
         | Some (ws, b, mark, len) \<Rightarrow>
             let indent = columns ws;
                 (items, stack) = popItems ls indent (i - 1) (psItems st) (psStack st);
                 idx = length items;
                 parent = (case stack of [] \<Rightarrow> None | p # _ \<Rightarrow> Some p);
                 item = \<lparr>oiIndex = idx, oiLine = i, oiFrom = lnFrom l, oiTo = lnTo l, oiIndent = indent,
                   oiIndentText = ws, oiBullet = b, oiChecked = map_option (\<lambda>m. m \<noteq> space) mark,
                   oiContentFrom = lnFrom l + len, oiEndLine = i, oiEnd = lnTo l, oiParent = parent,
                   oiChildren = [], oiDepth = length stack\<rparr>;
                 items' = items @ [item]
             in \<lparr>psItems = (case parent of
                     None \<Rightarrow> items'
                   | Some p \<Rightarrow> items'[p := (items' ! p)\<lparr>oiChildren := oiChildren (items' ! p) @ [idx]\<rparr>]),
                 psOwner = psOwner st @ [Some idx],
                 psAt = psAt st @ [Some idx],
                 psRoots = (if parent = None then psRoots st @ [idx] else psRoots st),
                 psStack = idx # stack\<rparr>)"

definition parseOutline :: "jsstr \<Rightarrow> outline" where
  "parseOutline text =
     (let ls = linesFrom 0 (splitOn newline text);
          st = fold (parseLine ls) [0..<length ls]
            \<lparr>psItems = [], psOwner = [], psAt = [], psRoots = [], psStack = []\<rparr>;
          items = fold (closeItem ls (length ls - 1)) (psStack st) (psItems st)
      in \<lparr>outText = text, outLines = ls, outItems = items, outOwner = psOwner st,
          outItemAt = psAt st, outRoots = psRoots st\<rparr>)"

text \<open>\<open>lineOf\<close>: the binary search between two lines.\<close>

function searchLine :: "oline list \<Rightarrow> nat \<Rightarrow> nat \<Rightarrow> nat \<Rightarrow> nat" where
  "searchLine ls pos lo hi =
     (if lo < hi then
        let mid = (lo + hi + 1) div 2
        in if lnFrom (ls ! mid) \<le> pos then searchLine ls pos mid hi else searchLine ls pos lo (mid - 1)
      else lo)"
  by auto
termination by (relation "measure (\<lambda>(ls, pos, lo, hi). hi - lo)") auto

declare searchLine.simps [simp del]

definition lineOf :: "outline \<Rightarrow> nat \<Rightarrow> nat" where
  "lineOf out pos = searchLine (outLines out) pos 0 (length (outLines out) - 1)"

definition itemOnLine :: "outline \<Rightarrow> nat \<Rightarrow> oitem option" where
  "itemOnLine out pos = map_option ((!) (outItems out)) (outItemAt out ! lineOf out pos)"

definition itemOwning :: "outline \<Rightarrow> nat \<Rightarrow> oitem option" where
  "itemOwning out pos = map_option ((!) (outItems out)) (outOwner out ! lineOf out pos)"

definition siblingsOf :: "outline \<Rightarrow> oitem \<Rightarrow> nat list" where
  "siblingsOf out it =
     (case oiParent it of None \<Rightarrow> outRoots out | Some p \<Rightarrow> oiChildren (outItems out ! p))"

definition itemLabel :: "outline \<Rightarrow> oitem \<Rightarrow> jsstr" where
  "itemLabel out it = trim (jsSlice (oiContentFrom it) (oiTo it) (outText out))"

definition prefixOf :: "oitem \<Rightarrow> jsstr" where
  "prefixOf it = oiIndentText it @ [oiBullet it, space]
     @ (if oiChecked it \<noteq> None then js ''[ ] '' else [])"

text \<open>\<open>ancestors\<close>: the walk to the root; parents have smaller numbers, so no more steps
  than the number of the item are needed.\<close>

fun walkUp :: "nat \<Rightarrow> outline \<Rightarrow> nat option \<Rightarrow> oitem list \<Rightarrow> oitem list" where
  "walkUp 0 out p acc = acc"
| "walkUp (Suc f) out p acc =
     (case p of
        None \<Rightarrow> acc
      | Some q \<Rightarrow> walkUp f out (oiParent (outItems out ! q)) (outItems out ! q # acc))"

definition ancestors :: "outline \<Rightarrow> oitem \<Rightarrow> oitem list" where
  "ancestors out it = walkUp (Suc (oiIndex it)) out (oiParent it) []"

section \<open>Rebuilding line by line\<close>

text \<open>\<open>offsetOf\<close> and \<open>caret\<close> throw when the line does not exist.\<close>

definition offsetOf :: "jsstr list \<Rightarrow> nat \<Rightarrow> int \<Rightarrow> js_error + nat" where
  "offsetOf ls line col =
     (if line < length ls then
        Inr (sum_list (map (\<lambda>l. length l + 1) (take line ls))
             + nat (max 0 (min col (int (length (ls ! line))))))
      else Inl TypeError)"

definition caret :: "jsstr list \<Rightarrow> nat \<Rightarrow> int \<Rightarrow> js_error + edit_result option" where
  "caret ls line col =
     (case offsetOf ls line col of
        Inl e \<Rightarrow> Inl e
      | Inr pos \<Rightarrow> Inr (Some \<lparr>erText = joinWith newline ls, erAnchor = pos, erHead = pos\<rparr>))"

text \<open>\<open>stripColumns\<close>: the rest of the line and the number of characters removed.\<close>

fun stripColumns :: "jsstr \<Rightarrow> nat \<Rightarrow> nat \<Rightarrow> jsstr \<times> nat" where
  "stripColumns [] cols n = ([], 0)"
| "stripColumns (c # cs) cols n =
     (if n < cols \<and> isBlankCol c
      then (case stripColumns cs cols (n + (if c = tab then indentUnit else 1)) of (s, k) \<Rightarrow> (s, Suc k))
      else (c # cs, 0))"

definition lineTexts :: "outline \<Rightarrow> jsstr list" where
  "lineTexts out = map lnText (outLines out)"

definition blankLine :: "jsstr \<Rightarrow> bool" where
  "blankLine l \<longleftrightarrow> trim l = []"

section \<open>Operations\<close>

definition indentItem :: "jsstr \<Rightarrow> nat \<Rightarrow> js_error + edit_result option" where
  "indentItem text pos =
     (let out = parseOutline text; li = lineOf out pos
      in case itemOwning out pos of
           None \<Rightarrow> Inr None
         | Some it \<Rightarrow>
             let sibs = siblingsOf out it
             in (case indexOf (oiIndex it) sibs of
                   None \<Rightarrow> Inr None
                 | Some 0 \<Rightarrow> Inr None
                 | Some (Suc k) \<Rightarrow>
                     let prev = outItems out ! (sibs ! k);
                         unit = (case oiChildren prev of
                             [] \<Rightarrow> int indentUnit
                           | c # _ \<Rightarrow> int (oiIndent (outItems out ! c)) - int (oiIndent prev));
                         pad = replicate (if 0 < unit then nat unit else indentUnit) space;
                         ls = lineTexts out;
                         ls' = map (\<lambda>i. if oiLine it \<le> i \<and> i \<le> oiEndLine it \<and> \<not> blankLine (ls ! i)
                                        then pad @ ls ! i else ls ! i) [0..<length ls];
                         col = int pos - int (lnFrom (outLines out ! li));
                         moved = (li \<le> oiEndLine it \<and> \<not> blankLine (ls ! li))
                     in caret ls' li (col + (if moved then int (length pad) else 0))))"

definition dedentItem :: "jsstr \<Rightarrow> nat \<Rightarrow> js_error + edit_result option" where
  "dedentItem text pos =
     (let out = parseOutline text; li = lineOf out pos
      in case itemOwning out pos of
           None \<Rightarrow> Inr None
         | Some it \<Rightarrow>
             (case oiParent it of
                None \<Rightarrow> Inr None
              | Some p \<Rightarrow>
                  let parent = outItems out ! p;
                      delta = oiIndent it - oiIndent parent;
                      ls = lineTexts out;
                      strip = (\<lambda>i. stripColumns (ls ! i) delta 0);
                      block = map (fst \<circ> strip) [oiLine it..<Suc (oiEndLine it)];
                      removed = (if li \<in> {oiLine it..oiEndLine it} then snd (strip li) else 0);
                      before = jsSlice 0 (oiLine it) ls;
                      middle = jsSlice (oiEndLine it + 1) (oiEndLine parent + 1) ls;
                      after = drop (oiEndLine parent + 1) ls;
                      cursorLine = (if li \<le> oiEndLine it
                        then length before + length middle + (li - oiLine it) else li);
                      col = int pos - int (lnFrom (outLines out ! li))
                        - (if li \<le> oiEndLine it then int removed else 0)
                  in caret (before @ middle @ block @ after) cursorLine col))"

datatype direction = Up | Down

definition moveItem :: "jsstr \<Rightarrow> nat \<Rightarrow> direction \<Rightarrow> js_error + edit_result option" where
  "moveItem text pos dir =
     (let out = parseOutline text; li = lineOf out pos
      in case itemOwning out pos of
           None \<Rightarrow> Inr None
         | Some it \<Rightarrow>
             let sibs = siblingsOf out it;
                 at = (\<lambda>j. if j < length sibs then Some (sibs ! j) else None);
                 other = (case (dir, indexOf (oiIndex it) sibs) of
                     (Up, Some (Suc k)) \<Rightarrow> at k
                   | (Up, _) \<Rightarrow> None
                   | (Down, Some k) \<Rightarrow> at (k + 1)
                   | (Down, None) \<Rightarrow> at 0)
             in (case other of
                   None \<Rightarrow> Inr None
                 | Some q \<Rightarrow>
                     let (fi, se) = (if dir = Up then (outItems out ! q, it) else (it, outItems out ! q));
                         ls = lineTexts out;
                         a = jsSlice (oiLine fi) (oiEndLine fi + 1) ls;
                         gap = jsSlice (oiEndLine fi + 1) (oiLine se) ls;
                         b = jsSlice (oiLine se) (oiEndLine se + 1) ls;
                         col = int pos - int (lnFrom (outLines out ! li));
                         rel = li - oiLine it;
                         newLine = (if dir = Up then oiLine fi + rel
                           else oiLine fi + length b + length gap + rel)
                     in caret (jsSlice 0 (oiLine fi) ls @ b @ gap @ a @ drop (oiEndLine se + 1) ls)
                          newLine col))"

definition at :: "jsstr \<Rightarrow> nat \<Rightarrow> edit_result" where
  "at text pos = \<lparr>erText = text, erAnchor = pos, erHead = pos\<rparr>"

text \<open>The end of the line of an item or of its last note.\<close>

function noteLine :: "outline \<Rightarrow> nat \<Rightarrow> nat" where
  "noteLine out k =
     (if k + 1 < length (outLines out) \<and> outItemAt out ! (k + 1) = None
        \<and> \<not> blankLine (lnText (outLines out ! (k + 1)))
      then noteLine out (k + 1) else k)"
  by auto
termination by (relation "measure (\<lambda>(out, k). length (outLines out) - k)") auto

declare noteLine.simps [simp del]

definition lastNoteEnd :: "outline \<Rightarrow> oitem \<Rightarrow> nat" where
  "lastNoteEnd out it = lnTo (outLines out ! noteLine out (oiLine it))"

text \<open>The options are callbacks of the view; a missing one answers false.\<close>

definition enterItem :: "jsstr \<Rightarrow> nat \<Rightarrow> (nat \<Rightarrow> bool) \<Rightarrow> (nat \<Rightarrow> bool) \<Rightarrow> js_error + edit_result option" where
  "enterItem text pos isFolded forced =
     (let out = parseOutline text
      in case itemOnLine out pos of
           None \<Rightarrow> Inr None
         | Some it \<Rightarrow>
             if blankLine (jsSlice (oiContentFrom it) (oiTo it) text) then
               (if oiParent it \<noteq> None then dedentItem text pos else Inr (Some (at text pos)))
             else
               let p = max pos (oiContentFrom it)
               in if p = oiContentFrom it then
                    let prefix = prefixOf it
                    in Inr (Some (at (take (oiFrom it) text @ prefix @ newline # drop (oiFrom it) text)
                         (p + length prefix + 1)))
                  else
                    let force = forced (oiLine it);
                        open = (oiChildren it \<noteq> [] \<and> (force \<or> \<not> isFolded (oiLine it)));
                        child = outItems out ! hd (oiChildren it);
                        prefix = (if open then prefixOf child
                          else if force then replicate indentUnit space @ prefixOf it else prefixOf it);
                        dest = (if open then lnTo (outLines out ! (oiLine child - 1))
                          else if force then lastNoteEnd out it else oiEnd it);
                        rest = jsSlice p (oiTo it) text
                    in Inr (Some (at (take p text @ jsSlice (oiTo it) dest text @ newline # prefix @ rest
                           @ drop dest text)
                         (p + (dest - oiTo it) + 1 + length prefix))))"

text \<open>The visible line above a line.\<close>

fun visibleAbove :: "(nat \<Rightarrow> bool) \<Rightarrow> nat \<Rightarrow> nat option" where
  "visibleAbove hidden 0 = None"
| "visibleAbove hidden (Suc n) = (if hidden n then visibleAbove hidden n else Some n)"

definition removeAt :: "nat \<Rightarrow> 'a list \<Rightarrow> 'a list" where
  "removeAt i xs = take i xs @ drop (i + 1) xs"

definition backspaceItem :: "jsstr \<Rightarrow> nat \<Rightarrow> (nat \<Rightarrow> bool) \<Rightarrow> js_error + edit_result option" where
  "backspaceItem text pos hidden =
     (let out = parseOutline text
      in case itemOnLine out pos of
           None \<Rightarrow> Inr None
         | Some it \<Rightarrow>
             if pos \<noteq> oiContentFrom it then Inr None
             else (case visibleAbove hidden (oiLine it) of
                     None \<Rightarrow> Inr (Some (at text pos))
                   | Some t \<Rightarrow>
                       let ls = lineTexts out
                       in caret (removeAt (oiLine it)
                            (ls[t := ls ! t @ jsSlice (oiContentFrom it) (oiTo it) text])) t
                            (int (length (ls ! t)))))"

definition selectItem :: "jsstr \<Rightarrow> nat \<Rightarrow> nat \<Rightarrow> (nat \<times> nat) option \<Rightarrow> nat \<times> nat" where
  "selectItem text anchor head scope =
     (let out = parseOutline text;
          whole = (case scope of Some s \<Rightarrow> s | None \<Rightarrow> (0, length text))
      in case itemOwning out head of
           None \<Rightarrow> whole
         | Some it \<Rightarrow>
             if oiContentFrom it = oiTo it
               \<or> (min anchor head = oiContentFrom it \<and> max anchor head = oiTo it)
             then whole else (oiContentFrom it, oiTo it))"

definition addNote :: "jsstr \<Rightarrow> nat \<Rightarrow> edit_result option" where
  "addNote text pos =
     (let out = parseOutline text; li = lineOf out pos
      in case outOwner out ! li of
           None \<Rightarrow> None
         | Some k \<Rightarrow>
             let it = outItems out ! k;
                 pad = replicate (oiIndent it + indentUnit) space;
                 dest = (if outItemAt out ! li \<noteq> None then lastNoteEnd out it else pos)
             in Some (at (take dest text @ newline # pad @ drop dest text) (dest + 1 + length pad)))"

definition enterNote :: "jsstr \<Rightarrow> nat \<Rightarrow> (nat \<Rightarrow> bool) \<Rightarrow> (nat \<Rightarrow> bool) \<Rightarrow> js_error + edit_result option" where
  "enterNote text pos isFolded forced =
     (let out = parseOutline text; li = lineOf out pos
      in case (outItemAt out ! li, outOwner out ! li) of
           (None, Some k) \<Rightarrow>
             let it = outItems out ! k
             in if blankLine (jsSlice (oiContentFrom it) (oiTo it) text) then Inr (Some (at text pos))
                else enterItem text (oiTo it) isFolded forced
         | _ \<Rightarrow> Inr None)"

definition zoomRange :: "jsstr \<Rightarrow> nat \<Rightarrow> (nat \<times> nat \<times> nat) option" where
  "zoomRange text pos =
     map_option (\<lambda>it. (oiFrom it, oiEnd it, oiLine it)) (itemOwning (parseOutline text) pos)"

definition toggleChecked :: "jsstr \<Rightarrow> nat \<Rightarrow> edit_result option" where
  "toggleChecked text pos =
     (case itemOnLine (parseOutline text) pos of
        None \<Rightarrow> None
      | Some it \<Rightarrow>
          (case oiChecked it of
             None \<Rightarrow> None
           | Some c \<Rightarrow>
               let box = oiFrom it + length (oiIndentText it) + 3
               in Some (at (take box text @ [if c then space else 120] @ drop (box + 1) text) pos)))"

section \<open>What the one-pass parser computes\<close>

text \<open>The lines and their offsets.\<close>

lemma length_linesFrom [simp]: "length (linesFrom f ts) = length ts"
  by (induction f ts rule: linesFrom.induct) auto

lemma linesFrom_texts [simp]: "map lnText (linesFrom f ts) = ts"
  by (induction f ts rule: linesFrom.induct) auto

lemma linesFrom_nth:
  "i < length ts \<Longrightarrow> lnFrom (linesFrom f ts ! i) = f + sum_list (map (\<lambda>l. length l + 1) (take i ts))
     \<and> lnTo (linesFrom f ts ! i) = lnFrom (linesFrom f ts ! i) + length (ts ! i)
     \<and> lnText (linesFrom f ts ! i) = ts ! i"
proof (induction f ts arbitrary: i rule: linesFrom.induct)
  case (2 f t ts)
  then show ?case by (cases i) auto
qed simp

text \<open>The items are the lines that match; in terms of their indentations, the parent of an item is
  the nearest earlier item that is less indented, and its subtree ends before the nearest later item
  that is not more indented.\<close>

definition itemLines :: "oline list \<Rightarrow> nat \<Rightarrow> nat list" where
  "itemLines ls i = filter (\<lambda>j. matchItem (lnText (ls ! j)) \<noteq> None) [0..<i]"

definition levelOf :: "oline list \<Rightarrow> nat \<Rightarrow> nat" where
  "levelOf ls j = (case matchItem (lnText (ls ! j)) of None \<Rightarrow> 0 | Some (ws, _) \<Rightarrow> columns ws)"

definition lastOf :: "'a list \<Rightarrow> 'a option" where
  "lastOf xs = (if xs = [] then None else Some (last xs))"

definition nearestBelow :: "nat list \<Rightarrow> nat \<Rightarrow> nat option" where
  "nearestBelow lv k =
     lastOf (filter (\<lambda>p. lv ! p < lv ! k) [0..<k])"

definition nextOut :: "nat list \<Rightarrow> nat \<Rightarrow> nat option" where
  "nextOut lv k =
     (case filter (\<lambda>j. lv ! j \<le> lv ! k) [Suc k..<length lv] of [] \<Rightarrow> None | j # _ \<Rightarrow> Some j)"

definition above :: "nat list \<Rightarrow> nat \<Rightarrow> nat list" where
  "above lv k = filter (\<lambda>j. \<forall>m \<in> set [Suc j..<Suc k]. lv ! j < lv ! m) [0..<k]"

text \<open>The items that are still open after the last one, the innermost first.\<close>

definition openItems :: "nat list \<Rightarrow> nat list" where
  "openItems lv = rev (filter (\<lambda>k. nextOut lv k = None) [0..<length lv])"

definition subtreeEnd :: "oline list \<Rightarrow> nat list \<Rightarrow> nat list \<Rightarrow> nat \<Rightarrow> nat" where
  "subtreeEnd ls il lv k =
     (case nextOut lv k of None \<Rightarrow> il ! k | Some j \<Rightarrow> shrinkEnd ls (il ! k) (il ! j - 1))"

definition itemAt :: "oline list \<Rightarrow> nat list \<Rightarrow> nat list \<Rightarrow> nat \<Rightarrow> nat \<Rightarrow> oitem" where
  "itemAt ls il lv e k =
     (let l = ls ! (il ! k); (ws, b, mark, len) = the (matchItem (lnText l))
      in \<lparr>oiIndex = k, oiLine = il ! k, oiFrom = lnFrom l, oiTo = lnTo l, oiIndent = lv ! k,
        oiIndentText = ws, oiBullet = b, oiChecked = map_option (\<lambda>m. m \<noteq> space) mark,
        oiContentFrom = lnFrom l + len, oiEndLine = e, oiEnd = lnTo (ls ! e),
        oiParent = nearestBelow lv k, oiChildren = filter (\<lambda>j. nearestBelow lv j = Some k) [0..<length lv],
        oiDepth = length (above lv k)\<rparr>)"

definition levelsAt :: "oline list \<Rightarrow> nat \<Rightarrow> nat list" where
  "levelsAt ls i = map (levelOf ls) (itemLines ls i)"

definition stateAt :: "oline list \<Rightarrow> nat \<Rightarrow> parse_state" where
  "stateAt ls i =
     (let il = itemLines ls i; lv = levelsAt ls i; n = length il
      in \<lparr>psItems = map (\<lambda>k. itemAt ls il lv (subtreeEnd ls il lv k) k) [0..<n],
          psOwner = map (\<lambda>j. case length (itemLines ls (Suc j)) of 0 \<Rightarrow> None | Suc k \<Rightarrow> Some k) [0..<i],
          psAt = map (\<lambda>j. if matchItem (lnText (ls ! j)) = None then None
            else Some (length (itemLines ls j))) [0..<i],
          psRoots = filter (\<lambda>j. nearestBelow lv j = None) [0..<n],
          psStack = openItems lv\<rparr>)"

lemma itemLines_Suc:
  "itemLines ls (Suc i) = itemLines ls i @ (if matchItem (lnText (ls ! i)) = None then [] else [i])"
  by (simp add: itemLines_def)

lemma itemLines_less: "k < length (itemLines ls i) \<Longrightarrow> itemLines ls i ! k < i"
  using nth_mem [of k "itemLines ls i"] by (auto simp: itemLines_def)

lemma itemLines_match:
  "k < length (itemLines ls i) \<Longrightarrow> matchItem (lnText (ls ! (itemLines ls i ! k))) \<noteq> None"
  using nth_mem [of k "itemLines ls i"] unfolding itemLines_def by auto

lemma sorted_itemLines: "sorted_wrt (<) (itemLines ls i)"
  by (simp add: itemLines_def sorted_wrt_filter)

lemma itemLines_mono: "k < m \<Longrightarrow> m < length (itemLines ls i) \<Longrightarrow> itemLines ls i ! k < itemLines ls i ! m"
  using sorted_itemLines sorted_wrt_nth_less by blast


lemma lastOf_filter_Some:
  "lastOf (filter P [0..<k]) = Some p \<longleftrightarrow> p < k \<and> P p \<and> (\<forall>j. p < j \<and> j < k \<longrightarrow> \<not> P j)"
proof (induction k)
  case (Suc k)
  then show ?case by (cases "P k") (auto simp: lastOf_def less_Suc_eq split: if_splits)
qed (simp add: lastOf_def)

lemma lastOf_filter_None: "lastOf (filter P [0..<k]) = None \<longleftrightarrow> (\<forall>j<k. \<not> P j)"
  by (auto simp: lastOf_def filter_empty_conv)

lemma nearestBelow_Some:
  "nearestBelow lv k = Some p \<longleftrightarrow> p < k \<and> lv ! p < lv ! k \<and> (\<forall>j. p < j \<and> j < k \<longrightarrow> lv ! k \<le> lv ! j)"
  by (simp add: nearestBelow_def lastOf_filter_Some not_less)

lemma nearestBelow_None: "nearestBelow lv k = None \<longleftrightarrow> (\<forall>j<k. lv ! k \<le> lv ! j)"
  by (simp add: nearestBelow_def lastOf_filter_None not_less)

lemma firstOf_filter_Some:
  "(case filter P [a..<n] of [] \<Rightarrow> None | j # _ \<Rightarrow> Some j) = Some j
     \<longleftrightarrow> a \<le> j \<and> j < n \<and> P j \<and> (\<forall>m. a \<le> m \<and> m < j \<longrightarrow> \<not> P m)"
proof (induction "n - a" arbitrary: a)
  case (Suc d)
  then have c: "[a..<n] = a # [Suc a..<n]" and a: "a < n" by (simp_all add: upt_conv_Cons)
  have IH: "(case filter P [Suc a..<n] of [] \<Rightarrow> None | j # _ \<Rightarrow> Some j) = Some j
     \<longleftrightarrow> Suc a \<le> j \<and> j < n \<and> P j \<and> (\<forall>m. Suc a \<le> m \<and> m < j \<longrightarrow> \<not> P m)"
    using Suc.hyps by simp
  show ?case
  proof (cases "P a")
    case True
    then show ?thesis using a by (auto simp: c not_le)
  next
    case False
    have "a \<le> j \<and> j < n \<and> P j \<and> (\<forall>m. a \<le> m \<and> m < j \<longrightarrow> \<not> P m)
      \<longleftrightarrow> Suc a \<le> j \<and> j < n \<and> P j \<and> (\<forall>m. Suc a \<le> m \<and> m < j \<longrightarrow> \<not> P m)"
      using False by (metis le_antisym not_less_eq_eq Suc_leD)
    then show ?thesis using IH False by (simp add: c)
  qed
qed simp

lemma nextOut_Some:
  "nextOut lv k = Some j \<longleftrightarrow> k < j \<and> j < length lv \<and> lv ! j \<le> lv ! k
     \<and> (\<forall>m. k < m \<and> m < j \<longrightarrow> lv ! k < lv ! m)"
  unfolding nextOut_def firstOf_filter_Some by (auto simp: Suc_le_eq not_le)

lemma nextOut_None: "nextOut lv k = None \<longleftrightarrow> (\<forall>m. k < m \<and> m < length lv \<longrightarrow> lv ! k < lv ! m)"
proof -
  have "nextOut lv k = None \<longleftrightarrow> filter (\<lambda>j. lv ! j \<le> lv ! k) [Suc k..<length lv] = []"
    by (simp add: nextOut_def split: list.split)
  then show ?thesis by (auto simp: filter_empty_conv not_le Suc_le_eq)
qed

text \<open>Reading one more item.\<close>

lemma nearestBelow_append: "k < length lv \<Longrightarrow> nearestBelow (lv @ ys) k = nearestBelow lv k"
  unfolding nearestBelow_def by (intro arg_cong [of _ _ lastOf] filter_cong) (auto simp: nth_append)

lemma above_append: "k < length lv \<Longrightarrow> above (lv @ ys) k = above lv k"
  unfolding above_def by (intro filter_cong) (auto simp: nth_append)

lemma nextOut_append:
  "k < length lv \<Longrightarrow> nextOut (lv @ [x]) k =
     (case nextOut lv k of Some j \<Rightarrow> Some j | None \<Rightarrow> if x \<le> lv ! k then Some (length lv) else None)"
proof -
  assume k: "k < length lv"
  show ?thesis
  proof (cases "nextOut lv k")
    case None
    then have "lv ! k < lv ! m" if "k < m" "m < length lv" for m using that by (simp add: nextOut_None)
    then have "nextOut (lv @ [x]) k = (if x \<le> lv ! k then Some (length lv) else None)"
      using k by (cases "x \<le> lv ! k") (auto simp: nextOut_Some nextOut_None nth_append less_Suc_eq)
    then show ?thesis using None by simp
  next
    case (Some j)
    then have "nextOut (lv @ [x]) k = Some j"
      using k unfolding nextOut_Some by (auto simp: nth_append)
    then show ?thesis using Some by simp
  qed
qed

lemma openItems_append:
  "openItems (lv @ [x]) = length lv # filter (\<lambda>k. lv ! k < x) (openItems lv)"
proof -
  have "filter (\<lambda>k. nextOut (lv @ [x]) k = None) [0..<length lv]
      = filter (\<lambda>k. lv ! k < x) (filter (\<lambda>k. nextOut lv k = None) [0..<length lv])"
    unfolding filter_filter
    by (rule filter_cong) (auto simp: nextOut_append not_le split: option.splits)
  moreover have "nextOut (lv @ [x]) (length lv) = None" by (simp add: nextOut_None)
  ultimately show ?thesis by (simp add: openItems_def rev_filter)
qed

lemma above_last:
  "above (lv @ [x]) (length lv) = rev (filter (\<lambda>k. lv ! k < x) (openItems lv))"
  unfolding above_def openItems_def rev_filter [symmetric] rev_rev_ident filter_filter
proof (rule filter_cong)
  fix j assume "j \<in> set [0..<length lv]"
  then have j: "j < length lv" by simp
  have "set [Suc j..<Suc (length lv)] = insert (length lv) {Suc j..<length lv}" using j by auto
  then show "(\<forall>m\<in>set [Suc j..<Suc (length lv)]. (lv @ [x]) ! j < (lv @ [x]) ! m)
      = (nextOut lv j = None \<and> lv ! j < x)"
    using j unfolding nextOut_None by (auto simp: nth_append)
qed simp

lemma nearestBelow_above: "nearestBelow lv k = lastOf (above lv k)"
proof (cases "nearestBelow lv k")
  case None
  then have "above lv k = []" unfolding nearestBelow_None above_def filter_empty_conv
    by (auto simp: not_less intro!: bexI [of _ k])
  then show ?thesis using None by (simp add: lastOf_def)
next
  case (Some p)
  then have "lastOf (above lv k) = Some p"
    unfolding above_def lastOf_filter_Some nearestBelow_Some
    by (fastforce simp: less_Suc_eq Suc_le_eq not_less)
  then show ?thesis using Some by simp
qed

lemma openItems_levels: "sorted_wrt (\<lambda>k m. m < k \<and> lv ! m < lv ! k) (openItems lv)"
proof -
  have "sorted_wrt (\<lambda>m k. m < k \<and> lv ! m < lv ! k) (filter (\<lambda>k. nextOut lv k = None) [0..<n])"
    if "n \<le> length lv" for n
    using that
  proof (induction n)
    case (Suc n)
    have "lv ! m < lv ! n" if "nextOut lv m = None" "m < n" for m
      using that Suc.prems by (simp add: nextOut_None)
    then show ?case using Suc by (auto simp: sorted_wrt_append)
  qed simp
  from this [of "length lv"] show ?thesis by (simp add: openItems_def sorted_wrt_rev)
qed

lemma dropWhile_levels:
  "sorted_wrt (\<lambda>k m. m < k \<and> lv ! m < (lv ! k :: nat)) xs \<Longrightarrow>
   dropWhile (\<lambda>k. x \<le> lv ! k) xs = filter (\<lambda>k. lv ! k < x) xs
   \<and> set (takeWhile (\<lambda>k. x \<le> lv ! k) xs) = {k \<in> set xs. x \<le> lv ! k}"
proof (induction xs)
  case (Cons k xs)
  show ?case
  proof (cases "x \<le> lv ! k")
    case True
    then show ?thesis using Cons by auto
  next
    case False
    then have "\<forall>m \<in> set xs. lv ! m < x" using Cons.prems by fastforce
    then show ?thesis using False by (auto simp: not_le)
  qed
qed simp

lemma closeItem_nth:
  "length (closeItem ls la k items) = length items"
  "oiIndent (closeItem ls la k items ! j) = oiIndent (items ! j)"
  by (simp_all add: closeItem_def Let_def)
    (cases "j = k"; cases "k < length items"; simp add: list_update_beyond)

lemma popItems_eq:
  "popItems ls x la items stack =
     (fold (closeItem ls la) (takeWhile (\<lambda>k. x \<le> oiIndent (items ! k)) stack) items,
      dropWhile (\<lambda>k. x \<le> oiIndent (items ! k)) stack)"
  by (induction ls x la items stack rule: popItems.induct) (simp_all add: closeItem_nth(2))

lemma fold_close_length [simp]: "length (fold (closeItem ls la) ks items) = length items"
  by (induction ks arbitrary: items) (simp_all add: closeItem_nth)

lemma fold_close_nth:
  "j < length items \<Longrightarrow> distinct ks \<Longrightarrow> fold (closeItem ls la) ks items ! j =
     (if j \<in> set ks then closeItem ls la j items ! j else items ! j)"
proof (induction ks arbitrary: items)
  case (Cons k ks)
  have c: "closeItem ls la k items ! j = items ! j" if "j \<noteq> k"
    using that by (simp add: closeItem_def Let_def)
  have c': "closeItem ls la j (closeItem ls la k items) ! j = closeItem ls la j items ! j" if "j \<noteq> k"
    using that Cons.prems by (simp add: closeItem_def Let_def)
  show ?case
    using Cons.prems Cons.IH [of "closeItem ls la k items"] c c' by (auto simp: closeItem_nth)
qed simp

lemma length_levelsAt [simp]: "length (levelsAt ls i) = length (itemLines ls i)"
  by (simp add: levelsAt_def)

lemma itemAt_end:
  "(itemAt ls il lv e k)\<lparr>oiEndLine := e', oiEnd := lnTo (ls ! e')\<rparr> = itemAt ls il lv e' k"
  by (simp add: itemAt_def Let_def case_prod_beta)

text \<open>The items once a matching line is read: old items, those that it closes, the new one.\<close>

lemma step_closed:
  fixes ls i x
  defines "il \<equiv> itemLines ls i" and "lv \<equiv> levelsAt ls i"
  defines "items \<equiv> map (\<lambda>k. itemAt ls il lv (subtreeEnd ls il lv k) k) [0..<length il]"
  shows "popItems ls x (i - 1) items (openItems lv) =
    (map (\<lambda>k. itemAt ls il lv (subtreeEnd ls (il @ [i]) (lv @ [x]) k) k) [0..<length il],
     filter (\<lambda>k. lv ! k < x) (openItems lv))"
proof -
  let ?os = "openItems lv"
  have in_os: "k \<in> set ?os \<longleftrightarrow> k < length lv \<and> nextOut lv k = None" for k
    by (auto simp: openItems_def)
  have len: "length lv = length il" by (simp add: lv_def il_def)
  have ind: "oiIndent (items ! k) = lv ! k" if "k \<in> set ?os" for k
    using that in_os len by (simp add: items_def itemAt_def Let_def case_prod_beta)
  have tw: "takeWhile (\<lambda>k. x \<le> oiIndent (items ! k)) ?os = takeWhile (\<lambda>k. x \<le> lv ! k) ?os"
    by (rule takeWhile_cong) (simp_all add: ind)
  have dw: "dropWhile (\<lambda>k. x \<le> oiIndent (items ! k)) ?os = filter (\<lambda>k. lv ! k < x) ?os"
    using dropWhile_cong [OF refl, of ?os "\<lambda>k. x \<le> oiIndent (items ! k)" "\<lambda>k. x \<le> lv ! k"]
      dropWhile_levels [OF openItems_levels, of x lv] ind by simp
  let ?ks = "takeWhile (\<lambda>k. x \<le> lv ! k) ?os"
  have ks: "set ?ks = {k \<in> set ?os. x \<le> lv ! k}"
    using dropWhile_levels [OF openItems_levels] by blast
  have dist: "distinct ?ks" by (rule distinct_takeWhile) (simp add: openItems_def)
  have "fold (closeItem ls (i - 1)) ?ks items
      = map (\<lambda>k. itemAt ls il lv (subtreeEnd ls (il @ [i]) (lv @ [x]) k) k) [0..<length il]"
  proof (rule nth_equalityI)
    show "length (fold (closeItem ls (i - 1)) ?ks items)
      = length (map (\<lambda>k. itemAt ls il lv (subtreeEnd ls (il @ [i]) (lv @ [x]) k) k) [0..<length il])"
      by (simp add: items_def)
  next
    fix k assume "k < length (fold (closeItem ls (i - 1)) ?ks items)"
    then have k: "k < length il" by (simp add: items_def)
    then have lt: "il ! k < i" unfolding il_def by (rule itemLines_less)
    have item: "items ! k = itemAt ls il lv (subtreeEnd ls il lv k) k" using k by (simp add: items_def)
    have "fold (closeItem ls (i - 1)) ?ks items ! k
        = (if k \<in> set ?ks then closeItem ls (i - 1) k items ! k else items ! k)"
      by (rule fold_close_nth [OF _ dist]) (simp add: k items_def)
    also have "\<dots> = itemAt ls il lv (subtreeEnd ls (il @ [i]) (lv @ [x]) k) k"
    proof (cases "k \<in> set ?ks")
      case True
      then have o: "nextOut lv k = None" "x \<le> lv ! k" using ks in_os by auto
      then have e: "subtreeEnd ls (il @ [i]) (lv @ [x]) k = shrinkEnd ls (il ! k) (i - 1)"
        using k len by (simp add: subtreeEnd_def nextOut_append nth_append)
      have mx: "max (il ! k) (i - Suc 0) = i - Suc 0" using lt by (simp add: max_absorb2)
      have "closeItem ls (i - 1) k items ! k
          = (itemAt ls il lv (subtreeEnd ls il lv k) k)
              \<lparr>oiEndLine := shrinkEnd ls (il ! k) (i - 1), oiEnd := lnTo (ls ! shrinkEnd ls (il ! k) (i - 1))\<rparr>"
        using k unfolding closeItem_def Let_def item by (simp add: mx items_def itemAt_def Let_def case_prod_beta)
      then show ?thesis unfolding if_P [OF True] e itemAt_end .
    next
      case False
      then have l: "nextOut lv k \<noteq> None \<or> lv ! k < x" using ks in_os k len by auto
      have "subtreeEnd ls (il @ [i]) (lv @ [x]) k = subtreeEnd ls il lv k"
      proof (cases "nextOut lv k")
        case None
        then have "nextOut (lv @ [x]) k = None" using l k len by (auto simp: nextOut_append)
        then show ?thesis using k None by (simp add: subtreeEnd_def nth_append)
      next
        case (Some j)
        then have "nextOut (lv @ [x]) k = Some j" "j < length il"
          using k len by (auto simp: nextOut_append) (simp add: nextOut_Some)
        then show ?thesis using k Some by (simp add: subtreeEnd_def nth_append)
      qed
      then show ?thesis using False item by simp
    qed
    finally show "fold (closeItem ls (i - 1)) ?ks items ! k
      = map (\<lambda>k. itemAt ls il lv (subtreeEnd ls (il @ [i]) (lv @ [x]) k) k) [0..<length il] ! k"
      using k by simp
  qed
  then show ?thesis by (simp add: popItems_eq tw dw)
qed

lemma itemAt_append:
  assumes "k < length il" "length lv = length il"
  shows "itemAt ls (il @ [i]) (lv @ [x]) e k = (itemAt ls il lv e k)
    \<lparr>oiChildren := oiChildren (itemAt ls il lv e k)
       @ (if nearestBelow (lv @ [x]) (length lv) = Some k then [length lv] else [])\<rparr>"
proof -
  have "filter (\<lambda>j. nearestBelow (lv @ [x]) j = Some k) [0..<length lv]
      = filter (\<lambda>j. nearestBelow lv j = Some k) [0..<length lv]"
    by (rule filter_cong) (simp_all add: nearestBelow_append)
  then show ?thesis
    using assms by (simp add: itemAt_def Let_def case_prod_beta nth_append nearestBelow_append above_append)
qed

lemma parseLine_stateAt:
  assumes i: "i < length ls"
  shows "parseLine ls i (stateAt ls i) = stateAt ls (Suc i)"
proof (cases "matchItem (lnText (ls ! i))")
  case None
  then have il': "itemLines ls (Suc i) = itemLines ls i" by (simp add: itemLines_Suc)
  then have lv': "levelsAt ls (Suc i) = levelsAt ls i" by (simp add: levelsAt_def)
  have "(if itemLines ls i = [] then None else Some (length (itemLines ls i) - 1))
      = (case length (itemLines ls i) of 0 \<Rightarrow> None | Suc k \<Rightarrow> Some k)"
    by (simp split: nat.split)
  then show ?thesis
    using None by (cases "length (itemLines ls i)") (simp_all add: parseLine_def stateAt_def Let_def il' lv')
next
  case (Some m)
  obtain ws b mark len where m: "m = (ws, b, mark, len)" by (metis prod_cases4)
  let ?il = "itemLines ls i" and ?lv = "levelsAt ls i" and ?x = "columns ws"
  let ?n = "length ?il" and ?il' = "?il @ [i]" and ?lv' = "?lv @ [?x]"
  have il': "itemLines ls (Suc i) = ?il'" by (simp add: itemLines_Suc Some)
  have x: "levelOf ls i = ?x" by (simp add: levelOf_def Some m)
  have lv': "levelsAt ls (Suc i) = ?lv'" by (simp add: levelsAt_def il' x)
  let ?stack = "filter (\<lambda>k. ?lv ! k < ?x) (openItems ?lv)"
  let ?parent = "case ?stack of [] \<Rightarrow> None | p # _ \<Rightarrow> Some p"
  have ab: "above ?lv' ?n = rev ?stack" using above_last [of ?lv ?x] by simp
  have par: "?parent = nearestBelow ?lv' ?n"
    unfolding nearestBelow_above ab by (cases ?stack) (simp_all add: lastOf_def)
  let ?old = "map (\<lambda>k. itemAt ls ?il ?lv (subtreeEnd ls ?il' ?lv' k) k) [0..<?n]"
  let ?new = "\<lparr>oiIndex = ?n, oiLine = i, oiFrom = lnFrom (ls ! i), oiTo = lnTo (ls ! i), oiIndent = ?x,
                   oiIndentText = ws, oiBullet = b, oiChecked = map_option (\<lambda>m. m \<noteq> space) mark,
                   oiContentFrom = lnFrom (ls ! i) + len, oiEndLine = i, oiEnd = lnTo (ls ! i), oiParent = ?parent,
                   oiChildren = [], oiDepth = length ?stack\<rparr>"
  have kids0: "filter (\<lambda>j. nearestBelow ?lv' j = Some ?n) [0..<Suc ?n] = []"
    unfolding filter_empty_conv by (auto simp: nearestBelow_Some)
  have "nextOut ?lv' ?n = None" by (simp add: nextOut_None)
  then have end': "subtreeEnd ls ?il' ?lv' ?n = i" by (simp add: subtreeEnd_def)
  have new: "itemAt ls ?il' ?lv' (subtreeEnd ls ?il' ?lv' ?n) ?n = ?new"
    unfolding end' by (simp add: itemAt_def Let_def kids0 Some m par ab nth_append del: upt_Suc)
  have items: "(case ?parent of None \<Rightarrow> ?old @ [?new]
      | Some p \<Rightarrow> (?old @ [?new])[p := ((?old @ [?new]) ! p)\<lparr>oiChildren := oiChildren ((?old @ [?new]) ! p) @ [?n]\<rparr>])
    = map (\<lambda>k. itemAt ls ?il' ?lv' (subtreeEnd ls ?il' ?lv' k) k) [0..<Suc ?n]"
  proof (rule nth_equalityI)
    show "length (case ?parent of None \<Rightarrow> ?old @ [?new]
      | Some p \<Rightarrow> (?old @ [?new])[p := ((?old @ [?new]) ! p)\<lparr>oiChildren := oiChildren ((?old @ [?new]) ! p) @ [?n]\<rparr>])
      = length (map (\<lambda>k. itemAt ls ?il' ?lv' (subtreeEnd ls ?il' ?lv' k) k) [0..<Suc ?n])"
      by (simp split: option.split)
  next
    fix k assume "k < length (case ?parent of None \<Rightarrow> ?old @ [?new]
      | Some p \<Rightarrow> (?old @ [?new])[p := ((?old @ [?new]) ! p)\<lparr>oiChildren := oiChildren ((?old @ [?new]) ! p) @ [?n]\<rparr>])"
    then have k: "k < Suc ?n" by (simp split: option.split_asm)
    have R: "map (\<lambda>k. itemAt ls ?il' ?lv' (subtreeEnd ls ?il' ?lv' k) k) [0..<Suc ?n] ! k
      = itemAt ls ?il' ?lv' (subtreeEnd ls ?il' ?lv' k) k" using k by (simp del: upt_Suc)
    show "(case ?parent of None \<Rightarrow> ?old @ [?new]
      | Some p \<Rightarrow> (?old @ [?new])[p := ((?old @ [?new]) ! p)\<lparr>oiChildren := oiChildren ((?old @ [?new]) ! p) @ [?n]\<rparr>]) ! k
      = map (\<lambda>k. itemAt ls ?il' ?lv' (subtreeEnd ls ?il' ?lv' k) k) [0..<Suc ?n] ! k"
    proof (cases "k = ?n")
      case True
      have "?parent \<noteq> Some ?n" unfolding par nearestBelow_Some by simp
      then show ?thesis unfolding R using True new by (auto simp: nth_append split: option.split)
    next
      case False
      then have k': "k < ?n" using k by simp
      then have "itemAt ls ?il' ?lv' (subtreeEnd ls ?il' ?lv' k) k = (?old ! k)
        \<lparr>oiChildren := oiChildren (?old ! k) @ (if ?parent = Some k then [?n] else [])\<rparr>"
        using itemAt_append [of k ?il ?lv ls i ?x] by (simp add: par)
      then show ?thesis unfolding R using k'
        by (cases ?parent) (auto simp: nth_append nth_list_update)
    qed
  qed
  have roots: "filter (\<lambda>j. nearestBelow ?lv' j = None) [0..<Suc ?n]
      = (if ?parent = None then filter (\<lambda>j. nearestBelow ?lv j = None) [0..<?n] @ [?n]
         else filter (\<lambda>j. nearestBelow ?lv j = None) [0..<?n])"
  proof -
    have "filter (\<lambda>j. nearestBelow ?lv' j = None) [0..<?n] = filter (\<lambda>j. nearestBelow ?lv j = None) [0..<?n]"
      by (rule filter_cong) (simp_all add: nearestBelow_append)
    then show ?thesis by (simp add: par)
  qed
  have stack: "openItems ?lv' = ?n # ?stack" using openItems_append [of ?lv ?x] by simp
  have P: "parseLine ls i (stateAt ls i) =
     \<lparr>psItems = (case ?parent of None \<Rightarrow> ?old @ [?new]
        | Some p \<Rightarrow> (?old @ [?new])[p := ((?old @ [?new]) ! p)\<lparr>oiChildren := oiChildren ((?old @ [?new]) ! p) @ [?n]\<rparr>]),
      psOwner = psOwner (stateAt ls i) @ [Some ?n], psAt = psAt (stateAt ls i) @ [Some ?n],
      psRoots = (if ?parent = None then psRoots (stateAt ls i) @ [?n] else psRoots (stateAt ls i)),
      psStack = ?n # ?stack\<rparr>"
    by (cases ?stack) (simp_all add: parseLine_def stateAt_def Let_def Some m step_closed [unfolded One_nat_def])
  show ?thesis
    unfolding P items
    using roots stack by (simp add: stateAt_def Let_def lv' il' Some del: upt_Suc) (simp add: Some il')
qed

definition endLineOf :: "oline list \<Rightarrow> nat list \<Rightarrow> nat list \<Rightarrow> nat \<Rightarrow> nat" where
  "endLineOf ls il lv k =
     shrinkEnd ls (il ! k) (case nextOut lv k of None \<Rightarrow> length ls - 1 | Some j \<Rightarrow> il ! j - 1)"

lemma fold_parseLine: "n \<le> length ls \<Longrightarrow> fold (parseLine ls) [0..<n] (stateAt ls 0) = stateAt ls n"
  by (induction n) (simp_all add: parseLine_stateAt)

lemma stateAt_0: "stateAt ls 0 = \<lparr>psItems = [], psOwner = [], psAt = [], psRoots = [], psStack = []\<rparr>"
  by (simp add: stateAt_def itemLines_def levelsAt_def openItems_def)

definition linesOf :: "jsstr \<Rightarrow> oline list" where
  "linesOf text = linesFrom 0 (splitOn newline text)"

lemma linesOf_pos: "0 < length (linesOf text)"
  by (simp add: linesOf_def)

lemma parse_eq:
  fixes t
  defines "ls \<equiv> linesOf t"
  defines "il \<equiv> itemLines ls (length ls)" and "lv \<equiv> levelsAt ls (length ls)"
  shows "parseOutline t = \<lparr>outText = t, outLines = ls,
    outItems = map (\<lambda>k. itemAt ls il lv (endLineOf ls il lv k) k) [0..<length il],
    outOwner = map (\<lambda>j. case length (itemLines ls (Suc j)) of 0 \<Rightarrow> None | Suc k \<Rightarrow> Some k) [0..<length ls],
    outItemAt = map (\<lambda>j. if matchItem (lnText (ls ! j)) = None then None
            else Some (length (itemLines ls j))) [0..<length ls],
    outRoots = filter (\<lambda>j. nearestBelow lv j = None) [0..<length il]\<rparr>"
proof -
  let ?items = "psItems (stateAt ls (length ls))"
  have st: "fold (parseLine ls) [0..<length ls]
      \<lparr>psItems = [], psOwner = [], psAt = [], psRoots = [], psStack = []\<rparr> = stateAt ls (length ls)"
    using fold_parseLine [of "length ls" ls] by (simp add: stateAt_0)
  have items: "?items = map (\<lambda>k. itemAt ls il lv (subtreeEnd ls il lv k) k) [0..<length il]"
    by (simp add: stateAt_def Let_def il_def lv_def)
  have stack: "psStack (stateAt ls (length ls)) = openItems lv"
    by (simp add: stateAt_def Let_def lv_def)
  have len: "length lv = length il" by (simp add: lv_def il_def)
  have "fold (closeItem ls (length ls - 1)) (openItems lv) ?items
      = map (\<lambda>k. itemAt ls il lv (endLineOf ls il lv k) k) [0..<length il]"
  proof (rule nth_equalityI)
    show "length (fold (closeItem ls (length ls - 1)) (openItems lv) ?items)
      = length (map (\<lambda>k. itemAt ls il lv (endLineOf ls il lv k) k) [0..<length il])"
      by (simp add: items)
  next
    fix k assume "k < length (fold (closeItem ls (length ls - 1)) (openItems lv) ?items)"
    then have k: "k < length il" by (simp add: items)
    then have "il ! k < length ls" unfolding il_def by (rule itemLines_less)
    then have mx: "max (il ! k) (length ls - Suc 0) = length ls - Suc 0" by (simp add: max_absorb2)
    have item: "?items ! k = itemAt ls il lv (subtreeEnd ls il lv k) k" using k by (simp add: items)
    have "fold (closeItem ls (length ls - 1)) (openItems lv) ?items ! k
        = (if k \<in> set (openItems lv) then closeItem ls (length ls - 1) k ?items ! k else ?items ! k)"
      by (rule fold_close_nth) (simp_all add: k items openItems_def)
    also have "\<dots> = itemAt ls il lv (endLineOf ls il lv k) k"
    proof (cases "k \<in> set (openItems lv)")
      case True
      then have e: "endLineOf ls il lv k = shrinkEnd ls (il ! k) (length ls - 1)"
        by (simp add: openItems_def endLineOf_def)
      have "closeItem ls (length ls - 1) k ?items ! k = (itemAt ls il lv (subtreeEnd ls il lv k) k)
          \<lparr>oiEndLine := shrinkEnd ls (il ! k) (length ls - 1),
           oiEnd := lnTo (ls ! shrinkEnd ls (il ! k) (length ls - 1))\<rparr>"
        using k unfolding closeItem_def Let_def item
        by (simp add: mx items itemAt_def Let_def case_prod_beta)
      then show ?thesis unfolding if_P [OF True] e itemAt_end .
    next
      case False
      then obtain j where "nextOut lv k = Some j" using k len by (auto simp: openItems_def)
      then have "endLineOf ls il lv k = subtreeEnd ls il lv k" by (simp add: endLineOf_def subtreeEnd_def)
      then show ?thesis using False item by simp
    qed
    finally show "fold (closeItem ls (length ls - 1)) (openItems lv) ?items ! k
      = map (\<lambda>k. itemAt ls il lv (endLineOf ls il lv k) k) [0..<length il] ! k" using k by simp
  qed
  then show ?thesis
    unfolding parseOutline_def ls_def [symmetric, unfolded linesOf_def] Let_def st stack
    by (simp add: stateAt_def Let_def il_def lv_def)
qed

section \<open>Facts on a parsed outline\<close>

lemma shrinkEnd_bounds:
  "lo \<le> e \<Longrightarrow> lo \<le> shrinkEnd ls lo e \<and> shrinkEnd ls lo e \<le> e"
  by (induction ls lo e rule: shrinkEnd.induct) auto

lemma shrinkEnd_blank:
  "lo \<le> e \<Longrightarrow> shrinkEnd ls lo e < i \<Longrightarrow> i \<le> e \<Longrightarrow> trim (lnText (ls ! i)) = []"
  by (induction ls lo e rule: shrinkEnd.induct) (auto simp: le_Suc_eq split: if_splits)

lemma outLines_parse [simp]: "outLines (parseOutline t) = linesOf t"
  by (simp add: parse_eq)

lemma lineTexts_parse [simp]: "lineTexts (parseOutline t) = splitOn newline t"
  by (simp add: lineTexts_def linesOf_def)

lemma outText_parse [simp]: "outText (parseOutline t) = t"
  by (simp add: parse_eq)

abbreviation lineCount :: "jsstr \<Rightarrow> nat" where
  "lineCount t \<equiv> length (splitOn newline t)"

lemma length_linesOf [simp]: "length (linesOf t) = lineCount t"
  by (simp add: linesOf_def)

definition startOf :: "jsstr list \<Rightarrow> nat \<Rightarrow> nat" where
  "startOf ls i = sum_list (map (\<lambda>l. length l + 1) (take i ls))"

lemma startOf_Suc: "i < length ls \<Longrightarrow> startOf ls (Suc i) = startOf ls i + length (ls ! i) + 1"
  by (simp add: startOf_def take_Suc_conv_app_nth)

lemma linesOf_nth:
  "i < lineCount t \<Longrightarrow> lnFrom (linesOf t ! i) = startOf (splitOn newline t) i
     \<and> lnTo (linesOf t ! i) = startOf (splitOn newline t) i + length (splitOn newline t ! i)
     \<and> lnText (linesOf t ! i) = splitOn newline t ! i"
  using linesFrom_nth [of i "splitOn newline t" 0] by (simp add: linesOf_def startOf_def)

lemma startOf_less: "i < j \<Longrightarrow> j \<le> length ls \<Longrightarrow> startOf ls i + length (ls ! i) < startOf ls j"
proof (induction j)
  case (Suc j)
  then show ?case by (cases "i = j") (auto simp: startOf_Suc)
qed simp

lemma startOf_mono: "i \<le> j \<Longrightarrow> j \<le> length ls \<Longrightarrow> startOf ls i \<le> startOf ls j"
  using startOf_less [of i j ls] by (cases "i = j") auto

lemma startOf_text: "ls \<noteq> [] \<Longrightarrow> startOf ls (length ls) = length (joinWith c ls) + 1"
  unfolding startOf_def by (induction c ls rule: joinWith.induct) auto

lemma searchLine_spec:
  assumes "lo \<le> hi" "hi < length ls" "lnFrom (ls ! lo) \<le> pos"
    "hi + 1 < length ls \<longrightarrow> pos < lnFrom (ls ! (hi + 1))"
  shows "searchLine ls pos lo hi < length ls \<and> lnFrom (ls ! searchLine ls pos lo hi) \<le> pos
    \<and> (searchLine ls pos lo hi + 1 < length ls \<longrightarrow> pos < lnFrom (ls ! (searchLine ls pos lo hi + 1)))"
  using assms
proof (induction ls pos lo hi rule: searchLine.induct)
  case (1 ls pos lo hi)
  show ?case
  proof (cases "lo < hi")
    case True
    define mid where "mid = (lo + hi + 1) div 2"
    have m: "lo < mid" "mid \<le> hi" using True by (auto simp: mid_def)
    show ?thesis
    proof (cases "lnFrom (ls ! mid) \<le> pos")
      case le: True
      have "searchLine ls pos lo hi = searchLine ls pos mid hi"
        unfolding searchLine.simps [of ls pos lo hi] Let_def mid_def [symmetric] using True le by simp
      then show ?thesis using 1(1) [OF True mid_def le] m 1(3-6) le by simp
    next
      case gt: False
      have "searchLine ls pos lo hi = searchLine ls pos lo (mid - 1)"
        unfolding searchLine.simps [of ls pos lo hi] Let_def mid_def [symmetric] using True gt by simp
      then show ?thesis using 1(2) [OF True mid_def gt] m 1(3-6) gt by simp
    qed
  next
    case False
    then have "searchLine ls pos lo hi = lo" by (subst searchLine.simps) simp
    then show ?thesis using False 1(3-6) by simp
  qed
qed

lemma lineOf_spec:
  "lineOf (parseOutline t) pos < lineCount t
   \<and> startOf (splitOn newline t) (lineOf (parseOutline t) pos) \<le> pos
   \<and> (lineOf (parseOutline t) pos + 1 < lineCount t
       \<longrightarrow> pos < startOf (splitOn newline t) (lineOf (parseOutline t) pos + 1))"
proof -
  have n: "0 < lineCount t" by simp
  have "lnFrom (linesOf t ! 0) \<le> pos" using linesOf_nth [OF n] by (simp add: startOf_def)
  then have "searchLine (linesOf t) pos 0 (lineCount t - 1) < length (linesOf t)
    \<and> lnFrom (linesOf t ! searchLine (linesOf t) pos 0 (lineCount t - 1)) \<le> pos
    \<and> (searchLine (linesOf t) pos 0 (lineCount t - 1) + 1 < length (linesOf t)
        \<longrightarrow> pos < lnFrom (linesOf t ! (searchLine (linesOf t) pos 0 (lineCount t - 1) + 1)))"
    by (intro searchLine_spec) (use n in auto)
  then show ?thesis using linesOf_nth by (auto simp: lineOf_def)
qed

lemma lineOf_unique:
  assumes "i < lineCount t" "startOf (splitOn newline t) i \<le> pos"
    "i + 1 < lineCount t \<longrightarrow> pos < startOf (splitOn newline t) (i + 1)"
  shows "lineOf (parseOutline t) pos = i"
proof (rule ccontr)
  let ?l = "lineOf (parseOutline t) pos" and ?s = "startOf (splitOn newline t)"
  assume "?l \<noteq> i"
  then consider "?l + 1 \<le> i" | "i + 1 \<le> ?l" by linarith
  then show False
  proof cases
    case 1
    then have "?s (?l + 1) \<le> ?s i" using assms(1) by (intro startOf_mono) auto
    then show False using lineOf_spec [of t pos] 1 assms by linarith
  next
    case 2
    then have "?s (i + 1) \<le> ?s ?l" using lineOf_spec [of t pos] by (intro startOf_mono) auto
    then show False using lineOf_spec [of t pos] 2 assms by linarith
  qed
qed

text \<open>Rebuilt lines are the lines of the new text, and the caret is on the line it was put on.\<close>

lemma caret_result:
  assumes "caret ls line col = Inr (Some r)" "ls \<noteq> []" "\<forall>l \<in> set ls. newline \<notin> set l"
  shows "splitOn newline (erText r) = ls" "line < length ls"
    "erHead r = erAnchor r" "erHead r = startOf ls line + nat (max 0 (min col (int (length (ls ! line)))))"
    "lineOf (parseOutline (erText r)) (erHead r) = line" "erHead r \<le> length (erText r)"
proof -
  have l: "line < length ls" and
    r: "r = \<lparr>erText = joinWith newline ls, erAnchor = erHead r, erHead = erHead r\<rparr>" and
    h: "erHead r = startOf ls line + nat (max 0 (min col (int (length (ls ! line)))))"
    using assms(1) by (auto simp: caret_def offsetOf_def startOf_def split: if_splits)
  then show "line < length ls" "erHead r = startOf ls line + nat (max 0 (min col (int (length (ls ! line)))))"
    by simp_all
  show "erHead r = erAnchor r" using r by (metis edit_result.select_convs(2))
  have t: "erText r = joinWith newline ls" using r by (metis edit_result.select_convs(1))
  show s: "splitOn newline (erText r) = ls" unfolding t by (rule splitOn_joinWith [OF assms(2,3)])
  have c: "erHead r \<le> startOf ls line + length (ls ! line)" unfolding h by simp
  show "lineOf (parseOutline (erText r)) (erHead r) = line"
    by (rule lineOf_unique) (use l c h startOf_less [of line "line + 1" ls] in \<open>auto simp: s\<close>)
  show "erHead r \<le> length (erText r)"
    using c startOf_less [of line "length ls" ls] l startOf_text [OF assms(2), of newline] by (simp add: t)
qed

text \<open>The items, their lines and their tree.\<close>

definition levels :: "jsstr \<Rightarrow> nat list" where
  "levels t = map oiIndent (outItems (parseOutline t))"

lemma itemAt_sel [simp]:
  "oiIndex (itemAt ls il lv e k) = k" "oiLine (itemAt ls il lv e k) = il ! k"
  "oiFrom (itemAt ls il lv e k) = lnFrom (ls ! (il ! k))" "oiTo (itemAt ls il lv e k) = lnTo (ls ! (il ! k))"
  "oiIndent (itemAt ls il lv e k) = lv ! k" "oiEndLine (itemAt ls il lv e k) = e"
  "oiEnd (itemAt ls il lv e k) = lnTo (ls ! e)" "oiParent (itemAt ls il lv e k) = nearestBelow lv k"
  "oiChildren (itemAt ls il lv e k) = filter (\<lambda>j. nearestBelow lv j = Some k) [0..<length lv]"
  "oiDepth (itemAt ls il lv e k) = length (above lv k)"
  by (simp_all add: itemAt_def Let_def case_prod_beta)

lemma itemAt_match:
  "matchItem (lnText (ls ! (il ! k))) = Some (ws, b, mark, len) \<Longrightarrow>
   oiIndentText (itemAt ls il lv e k) = ws \<and> oiBullet (itemAt ls il lv e k) = b
   \<and> oiChecked (itemAt ls il lv e k) = map_option (\<lambda>m. m \<noteq> space) mark
   \<and> oiContentFrom (itemAt ls il lv e k) = lnFrom (ls ! (il ! k)) + len"
  by (simp add: itemAt_def Let_def)

abbreviation itemsOf :: "jsstr \<Rightarrow> oitem list" where
  "itemsOf t \<equiv> outItems (parseOutline t)"

abbreviation itemLinesOf :: "jsstr \<Rightarrow> nat list" where
  "itemLinesOf t \<equiv> itemLines (linesOf t) (lineCount t)"

lemma length_items: "length (itemsOf t) = length (itemLinesOf t)"
  by (simp add: parse_eq)

lemma levels_eq: "levels t = levelsAt (linesOf t) (lineCount t)"
proof (rule nth_equalityI)
  fix k assume "k < length (levels t)"
  then show "levels t ! k = levelsAt (linesOf t) (lineCount t) ! k"
    by (simp add: levels_def parse_eq)
qed (simp add: levels_def parse_eq)

lemma items_nth:
  "k < length (itemsOf t) \<Longrightarrow> itemsOf t ! k = itemAt (linesOf t) (itemLinesOf t) (levels t)
     (endLineOf (linesOf t) (itemLinesOf t) (levels t) k) k"
  unfolding levels_eq by (simp add: parse_eq)

lemma length_levels [simp]: "length (levels t) = length (itemsOf t)"
  by (simp add: levels_def)

lemma item_lines:
  assumes "k < length (itemsOf t)"
  shows "oiLine (itemsOf t ! k) \<le> oiEndLine (itemsOf t ! k)" "oiEndLine (itemsOf t ! k) < lineCount t"
proof -
  let ?il = "itemLinesOf t"
  have k: "k < length ?il" using assms by (simp add: length_items)
  have lt: "?il ! k < lineCount t" by (rule itemLines_less [OF k])
  define e where "e = (case nextOut (levels t) k of None \<Rightarrow> lineCount t - 1 | Some j \<Rightarrow> ?il ! j - 1)"
  have e: "?il ! k \<le> e \<and> e < lineCount t"
  proof (cases "nextOut (levels t) k")
    case None
    then show ?thesis using lt by (simp add: e_def)
  next
    case (Some j)
    then have j: "k < j" "j < length ?il" by (auto simp: nextOut_Some length_items)
    then have "?il ! k < ?il ! j" "?il ! j < lineCount t" using itemLines_mono itemLines_less by blast+
    then show ?thesis using Some by (simp add: e_def) arith
  qed
  have E: "oiEndLine (itemsOf t ! k) = shrinkEnd (linesOf t) (?il ! k) e"
    using assms by (simp add: items_nth endLineOf_def e_def cong: option.case_cong)
  show "oiLine (itemsOf t ! k) \<le> oiEndLine (itemsOf t ! k)" "oiEndLine (itemsOf t ! k) < lineCount t"
    using shrinkEnd_bounds [of "?il ! k" e "linesOf t"] e assms by (simp_all add: E, simp add: items_nth)
qed

lemma end_before_next:
  assumes "nextOut (levels t) k = Some j"
  shows "oiEndLine (itemsOf t ! k) < oiLine (itemsOf t ! j)"
proof -
  have j: "k < j" "j < length (itemsOf t)" using assms by (auto simp: nextOut_Some)
  let ?il = "itemLinesOf t"
  have m: "?il ! k < ?il ! j" using itemLines_mono [of k j] j by (simp add: length_items)
  have "oiEndLine (itemsOf t ! k) = shrinkEnd (linesOf t) (?il ! k) (?il ! j - 1)"
    using assms j by (simp add: items_nth endLineOf_def)
  also have "\<dots> \<le> ?il ! j - 1" using shrinkEnd_bounds m by simp
  finally show ?thesis using m j by (simp add: items_nth)
qed

lemma siblings_eq:
  assumes "k < length (itemsOf t)"
  shows "siblingsOf (parseOutline t) (itemsOf t ! k)
    = filter (\<lambda>j. nearestBelow (levels t) j = nearestBelow (levels t) k) [0..<length (itemsOf t)]"
proof (cases "nearestBelow (levels t) k")
  case None
  then show ?thesis using assms
    by (simp add: siblingsOf_def items_nth) (simp add: parse_eq levels_eq)
next
  case (Some p)
  then have "p < length (itemsOf t)" using assms by (simp add: nearestBelow_Some)
  then show ?thesis using assms Some by (simp add: siblingsOf_def items_nth)
qed

lemma sibling_order:
  assumes "j < k" "k < length (itemsOf t)" "nearestBelow (levels t) j = nearestBelow (levels t) k"
  shows "oiEndLine (itemsOf t ! j) < oiLine (itemsOf t ! k)"
proof -
  have "levels t ! k \<le> levels t ! j"
  proof (cases "nearestBelow (levels t) k")
    case None
    then show ?thesis using assms(1) by (simp add: nearestBelow_None)
  next
    case (Some p)
    then have "nearestBelow (levels t) j = Some p" using assms(3) by simp
    then have "p < j" by (simp add: nearestBelow_Some)
    then show ?thesis using Some assms(1) by (simp add: nearestBelow_Some)
  qed
  then have "nextOut (levels t) j \<noteq> None" using assms(1,2) by (auto simp: nextOut_None not_less)
  then obtain m where m: "nextOut (levels t) j = Some m" by blast
  have "m \<le> k"
  proof (rule ccontr)
    assume "\<not> m \<le> k"
    then have "levels t ! j < levels t ! k" using m assms(1) by (simp add: nextOut_Some)
    then show False using \<open>levels t ! k \<le> levels t ! j\<close> by simp
  qed
  moreover have "oiEndLine (itemsOf t ! j) < oiLine (itemsOf t ! m)" by (rule end_before_next [OF m])
  moreover have "oiLine (itemsOf t ! m) \<le> oiLine (itemsOf t ! k)"
    using \<open>m \<le> k\<close> assms(2) itemLines_mono [of m k "linesOf t" "lineCount t"]
    by (cases "m = k") (auto simp: items_nth length_items)
  ultimately show ?thesis by linarith
qed

lemma itemLines_prefix:
  assumes "i \<le> j"
  shows "itemLines ls j = itemLines ls i @ filter (\<lambda>m. matchItem (lnText (ls ! m)) \<noteq> None) [i..<j]"
proof -
  have "[0..<j] = [0..<i] @ [i..<j]" using assms upt_add_eq_append [of 0 i "j - i"] by simp
  then show ?thesis by (simp add: itemLines_def)
qed

lemma itemLines_later:
  assumes "i \<le> j" "length (itemLines ls i) \<le> k" "k < length (itemLines ls j)"
  shows "i \<le> itemLines ls j ! k"
proof -
  let ?r = "filter (\<lambda>m. matchItem (lnText (ls ! m)) \<noteq> None) [i..<j]"
  have "itemLines ls j ! k = ?r ! (k - length (itemLines ls i))" "k - length (itemLines ls i) < length ?r"
    using assms itemLines_prefix [OF assms(1), of ls] by (auto simp: nth_append)
  then have "itemLines ls j ! k \<in> set ?r" by (metis nth_mem)
  then show ?thesis by simp
qed

lemma itemOwning_SomeD:
  assumes "itemOwning (parseOutline t) pos = Some it"
  shows "\<exists>k < length (itemsOf t). it = itemsOf t ! k \<and> oiLine it \<le> lineOf (parseOutline t) pos
    \<and> (\<forall>m. k < m \<and> m < length (itemsOf t) \<longrightarrow> lineOf (parseOutline t) pos < oiLine (itemsOf t ! m))"
proof -
  let ?l = "lineOf (parseOutline t) pos"
  have l: "?l < lineCount t" using lineOf_spec by blast
  have "outOwner (parseOutline t) ! ?l
      = (case length (itemLines (linesOf t) (Suc ?l)) of 0 \<Rightarrow> None | Suc k \<Rightarrow> Some k)"
    using l by (simp add: parse_eq)
  then obtain k where k: "length (itemLines (linesOf t) (Suc ?l)) = Suc k" "it = itemsOf t ! k"
    using assms by (auto simp: itemOwning_def split: nat.splits)
  note pre = itemLines_prefix [of "Suc ?l" "lineCount t" "linesOf t"]
  have kn: "k < length (itemsOf t)" using pre l k(1) by (simp add: length_items)
  moreover have "oiLine it \<le> ?l"
    using pre l k kn itemLines_less [of k "linesOf t" "Suc ?l"] by (simp add: items_nth nth_append)
  moreover have "?l < oiLine (itemsOf t ! m)" if m: "k < m" "m < length (itemsOf t)" for m
    using itemLines_later [of "Suc ?l" "lineCount t" "linesOf t" m] l k(1) m
    by (simp add: items_nth length_items)
  ultimately show ?thesis using k(2) by blast
qed

lemma itemOnLine_SomeD:
  assumes "itemOnLine (parseOutline t) pos = Some it"
  shows "\<exists>k < length (itemsOf t). it = itemsOf t ! k \<and> oiLine it = lineOf (parseOutline t) pos"
proof -
  let ?l = "lineOf (parseOutline t) pos"
  have l: "?l < lineCount t" using lineOf_spec by blast
  let ?k = "length (itemLines (linesOf t) ?l)"
  have m: "matchItem (lnText (linesOf t ! ?l)) \<noteq> None" "it = itemsOf t ! ?k"
    using assms l by (auto simp: itemOnLine_def parse_eq split: if_splits)
  have "itemLines (linesOf t) (Suc ?l) = itemLines (linesOf t) ?l @ [?l]" using m(1) by (simp add: itemLines_Suc)
  then have "?k < length (itemsOf t)" "itemLinesOf t ! ?k = ?l"
    using itemLines_prefix [of "Suc ?l" "lineCount t" "linesOf t"] l by (simp_all add: length_items nth_append)
  then show ?thesis using m(2) by (auto simp: items_nth)
qed

text \<open>Next siblings.\<close>

definition siblings :: "jsstr \<Rightarrow> nat \<Rightarrow> nat \<Rightarrow> bool" where
  "siblings t j k \<longleftrightarrow> j < k \<and> k < length (itemsOf t)
     \<and> nearestBelow (levels t) j = nearestBelow (levels t) k
     \<and> (\<forall>m. j < m \<and> m < k \<longrightarrow> nearestBelow (levels t) m \<noteq> nearestBelow (levels t) k)"

lemma adjacent_siblings:
  assumes "k < length (itemsOf t)" "Suc i < length (siblingsOf (parseOutline t) (itemsOf t ! k))"
  shows "siblings t (siblingsOf (parseOutline t) (itemsOf t ! k) ! i)
    (siblingsOf (parseOutline t) (itemsOf t ! k) ! Suc i)"
proof -
  define S where "S = siblingsOf (parseOutline t) (itemsOf t ! k)"
  define P where "P m = (nearestBelow (levels t) m = nearestBelow (levels t) k)" for m
  have S: "S = filter P [0..<length (itemsOf t)]"
    unfolding S_def P_def by (rule siblings_eq [OF assms(1)])
  have i: "Suc i < length S" using assms(2) by (simp add: S_def)
  have srt: "sorted_wrt (<) S" unfolding S by (simp add: sorted_wrt_filter)
  have set: "m \<in> set S \<longleftrightarrow> m < length (itemsOf t) \<and> P m" for m by (auto simp: S)
  have a: "S ! i < S ! Suc i" using srt i by (simp add: sorted_wrt_iff_nth_less)
  have b: "P (S ! i)" "P (S ! Suc i)" "S ! Suc i < length (itemsOf t)"
    using set nth_mem [of i S] nth_mem [of "Suc i" S] i by auto
  have "\<not> P m" if "S ! i < m" "m < S ! Suc i" for m
  proof
    assume "P m"
    then have "m \<in> set S" using that b(3) set by simp
    then obtain n where n: "n < length S" "S ! n = m" by (auto simp: in_set_conv_nth)
    then have "i < n" "n < Suc i"
      using that i srt sorted_wrt_nth_less [OF srt] by (metis linorder_neqE_nat order_less_asym Suc_lessD less_irrefl)+
    then show False by simp
  qed
  then show ?thesis using a b unfolding siblings_def S_def [symmetric] P_def by simp
qed

lemma siblings_next:
  assumes "siblings t j k"
  shows "nextOut (levels t) j = Some k"
proof -
  let ?lv = "levels t"
  have jk: "j < k" "k < length (itemsOf t)" "nearestBelow ?lv j = nearestBelow ?lv k"
    and gap: "\<And>m. j < m \<Longrightarrow> m < k \<Longrightarrow> nearestBelow ?lv m \<noteq> nearestBelow ?lv k"
    using assms by (auto simp: siblings_def)
  have le: "?lv ! k \<le> ?lv ! m" if "j \<le> m" "m < k" for m
  proof (cases "nearestBelow ?lv k")
    case None
    then show ?thesis using that by (simp add: nearestBelow_None)
  next
    case (Some p)
    then have "nearestBelow ?lv j = Some p" using jk by simp
    then have "p < j" by (simp add: nearestBelow_Some)
    then show ?thesis using Some that by (simp add: nearestBelow_Some)
  qed
  then have "nextOut ?lv j \<noteq> None" using jk by (auto simp: nextOut_None not_less)
  then obtain m where m: "nextOut ?lv j = Some m" by blast
  then have mj: "j < m" "?lv ! m \<le> ?lv ! j" "\<And>x. j < x \<Longrightarrow> x < m \<Longrightarrow> ?lv ! j < ?lv ! x"
    by (simp_all add: nextOut_Some)
  have mk: "m \<le> k" using le [of j] mj(3) [of k] jk(1) by (cases "m \<le> k") auto
  show ?thesis
  proof (cases "m = k")
    case True
    then show ?thesis using m by simp
  next
    case False
    then have lt: "m < k" using mk by simp
    have "nearestBelow ?lv m = nearestBelow ?lv k"
    proof (cases "nearestBelow ?lv k")
      case None
      then have "nearestBelow ?lv j = None" using jk by simp
      then have "?lv ! m \<le> ?lv ! x" if "x < m" for x
        using that mj(1,2) mj(3) [of x] by (cases x j rule: linorder_cases) (auto simp: nearestBelow_None intro: order.trans)
      then have "nearestBelow ?lv m = None" by (simp add: nearestBelow_None)
      then show ?thesis using None by simp
    next
      case (Some p)
      then have pj: "nearestBelow ?lv j = Some p" using jk by simp
      have "?lv ! p < ?lv ! m" using le [of m] mj(1) lt Some by (auto simp: nearestBelow_Some)
      moreover have "?lv ! m \<le> ?lv ! x" if "p < x" "x < m" for x
        using that mj(1,2) mj(3) [of x] pj by (cases x j rule: linorder_cases) (auto simp: nearestBelow_Some intro: order.trans)
      moreover have "p < m" using pj mj(1) by (simp add: nearestBelow_Some)
      ultimately have "nearestBelow ?lv m = Some p" by (simp add: nearestBelow_Some)
      then show ?thesis using Some by simp
    qed
    then show ?thesis using gap [OF mj(1) lt] by simp
  qed
qed

lemma siblings_lines:
  assumes "siblings t j k"
  shows "oiLine (itemsOf t ! j) \<le> oiEndLine (itemsOf t ! j)"
    "oiEndLine (itemsOf t ! j) < oiLine (itemsOf t ! k)"
    "oiLine (itemsOf t ! k) \<le> oiEndLine (itemsOf t ! k)" "oiEndLine (itemsOf t ! k) < lineCount t"
    "\<And>i. oiEndLine (itemsOf t ! j) < i \<Longrightarrow> i < oiLine (itemsOf t ! k) \<Longrightarrow> blankLine (splitOn newline t ! i)"
proof -
  have jk: "j < length (itemsOf t)" "k < length (itemsOf t)" using assms by (auto simp: siblings_def)
  note nx = siblings_next [OF assms]
  show "oiLine (itemsOf t ! j) \<le> oiEndLine (itemsOf t ! j)" "oiLine (itemsOf t ! k) \<le> oiEndLine (itemsOf t ! k)"
    "oiEndLine (itemsOf t ! k) < lineCount t" using item_lines jk by blast+
  show b: "oiEndLine (itemsOf t ! j) < oiLine (itemsOf t ! k)" by (rule end_before_next [OF nx])
  fix i assume i: "oiEndLine (itemsOf t ! j) < i" "i < oiLine (itemsOf t ! k)"
  let ?il = "itemLinesOf t"
  have E: "oiEndLine (itemsOf t ! j) = shrinkEnd (linesOf t) (?il ! j) (?il ! k - 1)"
    using nx jk by (simp add: items_nth endLineOf_def)
  have "?il ! j \<le> ?il ! k - 1"
    using itemLines_mono [of j k "linesOf t" "lineCount t"] assms by (simp add: siblings_def length_items)
  then have "trim (lnText (linesOf t ! i)) = []"
    using shrinkEnd_blank [of "?il ! j" "?il ! k - 1" "linesOf t" i] i E jk by (simp add: items_nth)
  moreover have "i < lineCount t" using i item_lines [OF jk(2)] by simp
  ultimately show "blankLine (splitOn newline t ! i)" using linesOf_nth by (simp add: blankLine_def)
qed

definition sampleOutline :: jsstr where
  "sampleOutline = joinWith newline [js ''- a'', js ''  - b'', js '''', js ''- c'']"

lemma shrinkEnd_end: "lo \<le> e \<Longrightarrow> shrinkEnd ls lo e = lo \<or> trim (lnText (ls ! shrinkEnd ls lo e)) \<noteq> []"
  by (induction ls lo e rule: shrinkEnd.induct) auto

lemma trim_empty: "trim l = [] \<longleftrightarrow> list_all isSpace l"
proof -
  have "trim l = [] \<longleftrightarrow> (\<forall>c \<in> set (dropWhile isSpace l). isSpace c)"
    by (simp add: trim_def dropWhile_eq_Nil_conv)
  also have "\<dots> \<longleftrightarrow> (\<forall>c \<in> set l. isSpace c)"
    by (induction l) auto
  finally show ?thesis by (simp add: list_all_iff)
qed

lemma matchItem_nonblank: "matchItem l \<noteq> None \<Longrightarrow> trim l \<noteq> []"
proof
  assume m: "matchItem l \<noteq> None" and b: "trim l = []"
  obtain b rest where r: "dropWhile isBlankCol l = b # rest" "b = 45 \<or> b = 42 \<or> b = 43"
    using m by (auto simp: matchItem_def Let_def split: list.splits if_splits)
  have "b \<in> set l" using r(1) set_dropWhileD [of b isBlankCol l] by simp
  then have "isSpace b" using b by (simp add: trim_empty list_all_iff)
  then show False using r(2) by (auto simp: isSpace_def)
qed

lemma item_nonblank:
  assumes "k < length (itemsOf t)"
  shows "trim (lnText (linesOf t ! oiLine (itemsOf t ! k))) \<noteq> []"
proof -
  have "k < length (itemLinesOf t)" using assms by (simp add: length_items)
  from matchItem_nonblank [OF itemLines_match [OF this]] show ?thesis using assms by (simp add: items_nth)
qed

lemma subtree_items:
  assumes "k < length (itemsOf t)" "m < length (itemsOf t)"
  shows "oiLine (itemsOf t ! k) \<le> oiLine (itemsOf t ! m) \<and> oiLine (itemsOf t ! m) \<le> oiEndLine (itemsOf t ! k)
    \<longleftrightarrow> k \<le> m \<and> (\<forall>j. nextOut (levels t) k = Some j \<longrightarrow> m < j)"
proof -
  let ?il = "itemLinesOf t" and ?lv = "levels t"
  have il: "oiLine (itemsOf t ! j) = ?il ! j" if "j < length (itemsOf t)" for j
    using that by (simp add: items_nth)
  have mono: "?il ! i < ?il ! j" if "i < j" "j < length (itemsOf t)" for i j
    using itemLines_mono [of i j] that by (simp add: length_items)
  have le: "?il ! k \<le> ?il ! m \<longleftrightarrow> k \<le> m"
    using mono [of k m] mono [of m k] assms by (cases k m rule: linorder_cases) auto
  define E where "E = (case nextOut ?lv k of None \<Rightarrow> lineCount t - 1 | Some j \<Rightarrow> ?il ! j - 1)"
  have e: "oiEndLine (itemsOf t ! k) = shrinkEnd (linesOf t) (?il ! k) E"
    using assms by (simp add: items_nth endLineOf_def E_def cong: option.case_cong)
  have inside: "?il ! m \<le> oiEndLine (itemsOf t ! k)" if "k \<le> m" "?il ! m \<le> E"
  proof (rule ccontr)
    assume "\<not> ?il ! m \<le> oiEndLine (itemsOf t ! k)"
    moreover have "?il ! k \<le> E" using that le by simp
    ultimately have "trim (lnText (linesOf t ! (?il ! m))) = []"
      using shrinkEnd_blank [of "?il ! k" E "linesOf t" "?il ! m"] that(2) e by simp
    then show False using item_nonblank [OF assms(2)] il [OF assms(2)] by simp
  qed
  show ?thesis
  proof (cases "nextOut ?lv k")
    case None
    have "?il ! m < lineCount t" using itemLines_less [of m "linesOf t" "lineCount t"] assms(2) by (simp add: length_items)
    then have "?il ! m \<le> E" using None by (simp add: E_def)
    then show ?thesis using None inside le il assms by auto
  next
    case (Some j)
    then have j: "j < length (itemsOf t)" by (simp add: nextOut_Some)
    have "oiEndLine (itemsOf t ! k) < ?il ! j" using end_before_next [OF Some] il [OF j] by simp
    moreover have "?il ! m \<le> E" if "m < j" using mono [OF that j] Some by (simp add: E_def)
    moreover have "?il ! j \<le> ?il ! m" if "j \<le> m"
      using that mono [of j m] assms(2) by (cases "j = m") auto
    ultimately show ?thesis using Some inside le il assms by (cases "m < j") auto
  qed
qed

section \<open>The parsed tree\<close>

lemma nextOut_range:
  "m < length lv \<Longrightarrow> k \<le> m \<Longrightarrow> (\<forall>j. nextOut lv k = Some j \<longrightarrow> m < j) \<longleftrightarrow> (\<forall>j. k < j \<and> j \<le> m \<longrightarrow> lv ! k < lv ! j)"
proof (cases "nextOut lv k")
  case None
  assume "m < length lv"
  then have "lv ! k < lv ! j" if "k < j" "j \<le> m" for j using None that by (simp add: nextOut_None)
  then show ?thesis using None by simp
next
  case (Some j)
  assume "m < length lv" "k \<le> m"
  then show ?thesis using Some by (auto simp: nextOut_Some)
qed

text \<open>C14: The one-pass parser with its stack computes the tree of the indentations: items are numbered in
  the order of their lines, the parent of an item is the nearest item before it that is less
  indented, its children are the items whose parent it is, its depth is the number of its
  ancestors, and the lines of its subtree hold the item and the items after it up to the first
  one that is not more indented.\<close>

theorem parseOutline_tree:
  assumes "k < length (outItems (parseOutline t))"
  shows "oiIndex (outItems (parseOutline t) ! k) = k
    \<and> oiParent (outItems (parseOutline t) ! k) = nearestBelow (levels t) k
    \<and> oiChildren (outItems (parseOutline t) ! k)
        = filter (\<lambda>j. nearestBelow (levels t) j = Some k) [0..<length (outItems (parseOutline t))]
    \<and> oiDepth (outItems (parseOutline t) ! k) = length (above (levels t) k)
    \<and> oiEndLine (outItems (parseOutline t) ! k) < length (outLines (parseOutline t))
    \<and> (\<forall>m < length (outItems (parseOutline t)).
        oiLine (outItems (parseOutline t) ! k) \<le> oiLine (outItems (parseOutline t) ! m)
          \<and> oiLine (outItems (parseOutline t) ! m) \<le> oiEndLine (outItems (parseOutline t) ! k)
        \<longleftrightarrow> k \<le> m \<and> (\<forall>j. k < j \<and> j \<le> m \<longrightarrow> levels t ! k < levels t ! j))"
proof -
  have "oiLine (itemsOf t ! k) \<le> oiLine (itemsOf t ! m) \<and> oiLine (itemsOf t ! m) \<le> oiEndLine (itemsOf t ! k)
      \<longleftrightarrow> k \<le> m \<and> (\<forall>j. k < j \<and> j \<le> m \<longrightarrow> levels t ! k < levels t ! j)" if m: "m < length (itemsOf t)" for m
    using subtree_items [OF assms m] nextOut_range [of m "levels t" k] m by auto
  moreover have "oiEndLine (itemsOf t ! k) < length (outLines (parseOutline t))"
    using item_lines(2) [OF assms] by simp
  ultimately show ?thesis using assms by (simp add: items_nth)
qed

theorem parseOutline_tree_witness:
  "map oiParent (outItems (parseOutline sampleOutline)) = [None, Some 0, None]
   \<and> oiParent (outItems (parseOutline sampleOutline) ! 1) = nearestBelow (levels sampleOutline) 1"
proof -
  have "(1::nat) < length (outItems (parseOutline sampleOutline))" by code_simp
  moreover have "map oiParent (outItems (parseOutline sampleOutline)) = [None, Some 0, None]" by code_simp
  ultimately show ?thesis using parseOutline_tree [of 1 sampleOutline] by blast
qed

end
