(* ===== verification/OutlineOps.thy ===== *)
theory OutlineOps
  imports Outline
begin

text \<open>
  What the operations of the outline editor (theory Outline) do to the text, to the tree and to the
  caret: moves swap adjacent siblings, indenting and dedenting only touch leading blanks, check boxes
  flip one code unit, and the caret stays in the text.
\<close>

section \<open>Moving an item\<close>

lemma jsSlice_nth: "n < length (jsSlice a b xs) \<Longrightarrow> jsSlice a b xs ! n = xs ! (a + n)"
  by (cases "a \<le> length xs") (simp_all add: jsSlice_def)

definition swapLines :: "nat \<Rightarrow> nat \<Rightarrow> nat \<Rightarrow> nat \<Rightarrow> 'a list \<Rightarrow> 'a list" where
  "swapLines i e j f ls =
     take i ls @ jsSlice j (f + 1) ls @ jsSlice (e + 1) j ls @ jsSlice i (e + 1) ls @ drop (f + 1) ls"

lemma swapLines_mset:
  assumes "i \<le> e" "e < j" "j \<le> f"
  shows "mset (swapLines i e j f ls) = mset ls"
    "ls = take i ls @ jsSlice i (e + 1) ls @ jsSlice (e + 1) j ls @ jsSlice j (f + 1) ls @ drop (f + 1) ls"
proof -
  show l: "ls = take i ls @ jsSlice i (e + 1) ls @ jsSlice (e + 1) j ls @ jsSlice j (f + 1) ls @ drop (f + 1) ls"
    using assms by (simp add: jsSlice_append_drop)
  have "mset (swapLines i e j f ls) = mset (take i ls @ jsSlice i (e + 1) ls @ jsSlice (e + 1) j ls @ jsSlice j (f + 1) ls @ drop (f + 1) ls)"
    by (simp add: swapLines_def ac_simps)
  then show "mset (swapLines i e j f ls) = mset ls" unfolding l [symmetric] .
qed

lemma swapLines_nth:
  assumes "i \<le> e" "e < j" "j \<le> f" "f < length ls"
  shows "length (swapLines i e j f ls) = length ls"
    "r \<le> f - j \<Longrightarrow> swapLines i e j f ls ! (i + r) = ls ! (j + r)"
    "r \<le> e - i \<Longrightarrow> swapLines i e j f ls ! (i + (f + 1 - j) + (j - (e + 1)) + r) = ls ! (i + r)"
proof -
  show "length (swapLines i e j f ls) = length ls"
    using swapLines_mset(1) [OF assms(1-3)] by (metis size_mset)
  show "swapLines i e j f ls ! (i + r) = ls ! (j + r)" if "r \<le> f - j"
  proof -
    have r: "r < length (jsSlice j (f + 1) ls)" using assms that by simp
    have "swapLines i e j f ls = take i ls @ (jsSlice j (f + 1) ls
        @ jsSlice (e + 1) j ls @ jsSlice i (e + 1) ls @ drop (f + 1) ls)" by (simp add: swapLines_def)
    moreover have "length (take i ls) = i" using assms by simp
    ultimately have "swapLines i e j f ls ! (i + r) = (jsSlice j (f + 1) ls
        @ jsSlice (e + 1) j ls @ jsSlice i (e + 1) ls @ drop (f + 1) ls) ! r"
      using nth_append_length_plus [of "take i ls"] by simp
    then show ?thesis using r jsSlice_nth by (simp add: nth_append)
  qed
  show "swapLines i e j f ls ! (i + (f + 1 - j) + (j - (e + 1)) + r) = ls ! (i + r)" if "r \<le> e - i"
  proof -
    let ?pre = "take i ls @ jsSlice j (f + 1) ls @ jsSlice (e + 1) j ls"
    have r: "r < length (jsSlice i (e + 1) ls)" using assms that by simp
    have "swapLines i e j f ls = ?pre @ (jsSlice i (e + 1) ls @ drop (f + 1) ls)" by (simp add: swapLines_def)
    moreover have "length ?pre = i + (f + 1 - j) + (j - (e + 1))" using assms by simp
    ultimately have "swapLines i e j f ls ! (i + (f + 1 - j) + (j - (e + 1)) + r)
        = (jsSlice i (e + 1) ls @ drop (f + 1) ls) ! r"
      using nth_append_length_plus [of ?pre] by metis
    then show ?thesis using r jsSlice_nth by (simp add: nth_append)
  qed
qed

text \<open>A move swaps two adjacent siblings, or there is nothing to move.\<close>

lemma moveItem_pair:
  assumes it: "itemOwning (parseOutline t) pos = Some (itemsOf t ! k)" and k: "k < length (itemsOf t)"
  shows "moveItem t pos dir = Inr None \<and> (dir = Down \<longrightarrow> (\<forall>j. \<not> siblings t k j)) \<or>
    (\<exists>i j. siblings t i j \<and> k = (if dir = Up then j else i) \<and>
      moveItem t pos dir = caret (swapLines (oiLine (itemsOf t ! i)) (oiEndLine (itemsOf t ! i))
          (oiLine (itemsOf t ! j)) (oiEndLine (itemsOf t ! j)) (splitOn newline t))
        (oiLine (itemsOf t ! i) + (if dir = Up then 0 else
            (oiEndLine (itemsOf t ! j) + 1 - oiLine (itemsOf t ! j))
            + (oiLine (itemsOf t ! j) - (oiEndLine (itemsOf t ! i) + 1)))
          + (lineOf (parseOutline t) pos - oiLine (itemsOf t ! k)))
        (int pos - int (lnFrom (linesOf t ! lineOf (parseOutline t) pos))))"
proof -
  let ?S = "siblingsOf (parseOutline t) (itemsOf t ! k)"
  have idx: "oiIndex (itemsOf t ! k) = k" using k by (simp add: items_nth)
  have kS: "k \<in> set ?S" using k by (simp add: siblings_eq)
  obtain n where n: "indexOf k ?S = Some n" and nk: "n < length ?S" "?S ! n = k"
    using indexOf_mem [OF kS] by blast
  show ?thesis
  proof (cases dir)
    case Up
    show ?thesis
    proof (cases n)
      case 0
      then show ?thesis using Up it n by (simp add: moveItem_def Let_def idx)
    next
      case (Suc m)
      then have sib: "siblings t (?S ! m) k" using adjacent_siblings [OF k, of m] nk by simp
      note L = siblings_lines [OF sib]
      have "length (jsSlice (oiLine (itemsOf t ! k)) (oiEndLine (itemsOf t ! k) + 1) (splitOn newline t))
        = oiEndLine (itemsOf t ! k) + 1 - oiLine (itemsOf t ! k)" using L(4) by simp
      then have "moveItem t pos dir = caret (swapLines (oiLine (itemsOf t ! (?S ! m))) (oiEndLine (itemsOf t ! (?S ! m)))
          (oiLine (itemsOf t ! k)) (oiEndLine (itemsOf t ! k)) (splitOn newline t))
        (oiLine (itemsOf t ! (?S ! m)) + (lineOf (parseOutline t) pos - oiLine (itemsOf t ! k)))
        (int pos - int (lnFrom (linesOf t ! lineOf (parseOutline t) pos)))"
        using Up it n Suc nk by (simp add: moveItem_def Let_def idx swapLines_def)
      then show ?thesis using sib Up by (intro disjI2 exI [of _ "?S ! m"] exI [of _ k]) simp
    qed
  next
    case Down
    show ?thesis
    proof (cases "Suc n < length ?S")
      case False
      have "\<not> siblings t k j" for j
      proof
        assume j: "siblings t k j"
        then have jn: "k < j" "j < length (itemsOf t)" "nearestBelow (levels t) j = nearestBelow (levels t) k"
          by (simp_all add: siblings_def)
        then have "j \<in> set ?S" using k by (simp add: siblings_eq)
        then obtain m where m: "m < length ?S" "?S ! m = j" by (auto simp: in_set_conv_nth)
        have "sorted_wrt (<) ?S" using k by (simp add: siblings_eq sorted_wrt_filter)
        then have "n < m" using m nk jn(1) sorted_wrt_nth_less by (metis linorder_neqE_nat order_less_asym less_irrefl)
        then show False using False m by simp
      qed
      moreover have "moveItem t pos dir = Inr None"
        using False Down it n by (simp add: moveItem_def Let_def idx)
      ultimately show ?thesis by blast
    next
      case True
      then have sib: "siblings t k (?S ! Suc n)" using adjacent_siblings [OF k, of n] nk by simp
      note L = siblings_lines [OF sib]
      let ?q = "?S ! Suc n"
      have "moveItem t pos dir = caret (swapLines (oiLine (itemsOf t ! k)) (oiEndLine (itemsOf t ! k))
          (oiLine (itemsOf t ! ?q)) (oiEndLine (itemsOf t ! ?q)) (splitOn newline t))
        (oiLine (itemsOf t ! k) + length (jsSlice (oiLine (itemsOf t ! ?q)) (oiEndLine (itemsOf t ! ?q) + 1) (splitOn newline t))
          + length (jsSlice (oiEndLine (itemsOf t ! k) + 1) (oiLine (itemsOf t ! ?q)) (splitOn newline t))
          + (lineOf (parseOutline t) pos - oiLine (itemsOf t ! k)))
        (int pos - int (lnFrom (linesOf t ! lineOf (parseOutline t) pos)))"
        using Down it n True unfolding moveItem_def Let_def swapLines_def
        by (simp add: idx del: length_jsSlice)
      moreover have "length (jsSlice (oiLine (itemsOf t ! ?q)) (oiEndLine (itemsOf t ! ?q) + 1) (splitOn newline t))
          = oiEndLine (itemsOf t ! ?q) + 1 - oiLine (itemsOf t ! ?q)"
        "length (jsSlice (oiEndLine (itemsOf t ! k) + 1) (oiLine (itemsOf t ! ?q)) (splitOn newline t))
          = oiLine (itemsOf t ! ?q) - (oiEndLine (itemsOf t ! k) + 1)"
        using L by simp_all
      ultimately show ?thesis using sib Down
        by (intro disjI2 exI [of _ k] exI [of _ ?q]) (simp only: direction.simps if_False if_True add.assoc simp_thms)
    qed
  qed
qed

lemma moveItem_owning: "moveItem t pos dir \<noteq> Inr None \<Longrightarrow> \<exists>it. itemOwning (parseOutline t) pos = Some it"
  by (cases "itemOwning (parseOutline t) pos") (simp_all add: moveItem_def)




lemma caret_throws: "caret ls l c = Inl TypeError \<longleftrightarrow> \<not> l < length ls"
  by (simp add: caret_def offsetOf_def)

lemma moveItem_throws_at:
  assumes it: "itemOwning (parseOutline t) pos = Some (itemsOf t ! k)" and k: "k < length (itemsOf t)"
    and kl: "oiLine (itemsOf t ! k) \<le> lineOf (parseOutline t) pos"
  shows "moveItem t pos dir = Inl TypeError \<longleftrightarrow> dir = Down \<and> (\<exists>j. siblings t k j \<and> lineCount t
      \<le> lineOf (parseOutline t) pos + (oiEndLine (itemsOf t ! j) - oiEndLine (itemsOf t ! k)))"
proof -
  let ?li = "lineOf (parseOutline t) pos"
  have li: "?li < lineCount t" using lineOf_spec by blast
  show ?thesis
    using moveItem_pair [OF it k, of dir]
  proof (elim disjE exE conjE)
    assume "moveItem t pos dir = Inr None" "dir = Down \<longrightarrow> (\<forall>j. \<not> siblings t k j)"
    then show ?thesis by auto
  next
    fix i j assume sib: "siblings t i j" and kij: "k = (if dir = Up then j else i)" and
      eq: "moveItem t pos dir = caret (swapLines (oiLine (itemsOf t ! i)) (oiEndLine (itemsOf t ! i))
          (oiLine (itemsOf t ! j)) (oiEndLine (itemsOf t ! j)) (splitOn newline t))
        (oiLine (itemsOf t ! i) + (if dir = Up then 0 else
            (oiEndLine (itemsOf t ! j) + 1 - oiLine (itemsOf t ! j))
            + (oiLine (itemsOf t ! j) - (oiEndLine (itemsOf t ! i) + 1)))
          + (?li - oiLine (itemsOf t ! k)))
        (int pos - int (lnFrom (linesOf t ! ?li)))"
    note L = siblings_lines [OF sib]
    have len: "length (swapLines (oiLine (itemsOf t ! i)) (oiEndLine (itemsOf t ! i))
          (oiLine (itemsOf t ! j)) (oiEndLine (itemsOf t ! j)) (splitOn newline t)) = lineCount t"
      by (rule swapLines_nth(1) [OF L(1-4)])
    show ?thesis
    proof (cases dir)
      case Up
      then have "oiLine (itemsOf t ! i) + 0 + (?li - oiLine (itemsOf t ! k)) < lineCount t"
        using li kl L(1,2) kij by simp
      then show ?thesis unfolding eq caret_throws len using Up by simp
    next
      case Down
      have only: "j' = j" if "siblings t k j'" for j'
        using siblings_next [OF that] siblings_next [OF sib] kij Down by simp
      have num: "oiLine (itemsOf t ! i) + (if dir = Up then 0 else
            (oiEndLine (itemsOf t ! j) + 1 - oiLine (itemsOf t ! j))
            + (oiLine (itemsOf t ! j) - (oiEndLine (itemsOf t ! i) + 1))) + (?li - oiLine (itemsOf t ! k))
          = ?li + (oiEndLine (itemsOf t ! j) - oiEndLine (itemsOf t ! k))"
        using L(1-3) kl kij Down by simp
      have "siblings t k j" using sib kij Down by simp
      then show ?thesis unfolding eq caret_throws len num not_less using Down only by blast
    qed
  qed
qed

text \<open>C16: A move never fails while the caret is in the subtree of its item, nor upwards; it throws
  exactly when the caret is on a blank line after the subtree, the item moves down, and the line the
  caret would land on does not exist.\<close>

theorem moveItem_throws_iff:
  "moveItem t pos dir = Inl TypeError \<longleftrightarrow> dir = Down \<and>
    (\<exists>i j. itemOwning (parseOutline t) pos = Some (itemsOf t ! i) \<and> siblings t i j \<and>
       lineCount t \<le> lineOf (parseOutline t) pos + (oiEndLine (itemsOf t ! j) - oiEndLine (itemsOf t ! i)))"
proof -
  let ?li = "lineOf (parseOutline t) pos"
  show ?thesis
  proof
    assume thr: "moveItem t pos dir = Inl TypeError"
    then have "moveItem t pos dir \<noteq> Inr None" by simp
    then obtain it where it: "itemOwning (parseOutline t) pos = Some it"
      using moveItem_owning by blast
    obtain k where k: "k < length (itemsOf t)" "it = itemsOf t ! k" "oiLine it \<le> ?li"
      using itemOwning_SomeD [OF it] by blast
    have it': "itemOwning (parseOutline t) pos = Some (itemsOf t ! k)" using it k(2) by simp
    have "oiLine (itemsOf t ! k) \<le> ?li" using k(2,3) by simp
    from moveItem_throws_at [OF it' k(1) this] thr it' show "dir = Down \<and>
      (\<exists>i j. itemOwning (parseOutline t) pos = Some (itemsOf t ! i) \<and> siblings t i j \<and>
       lineCount t \<le> ?li + (oiEndLine (itemsOf t ! j) - oiEndLine (itemsOf t ! i)))" by blast
  next
    assume R: "dir = Down \<and> (\<exists>i j. itemOwning (parseOutline t) pos = Some (itemsOf t ! i) \<and> siblings t i j \<and>
       lineCount t \<le> ?li + (oiEndLine (itemsOf t ! j) - oiEndLine (itemsOf t ! i)))"
    then obtain i j where ij: "itemOwning (parseOutline t) pos = Some (itemsOf t ! i)" "siblings t i j"
       "lineCount t \<le> ?li + (oiEndLine (itemsOf t ! j) - oiEndLine (itemsOf t ! i))" by blast
    have i: "i < length (itemsOf t)" using ij(2) by (simp add: siblings_def)
    have "oiLine (itemsOf t ! i) \<le> ?li" using itemOwning_SomeD [OF ij(1)] by auto
    from moveItem_throws_at [OF ij(1) i this] ij R show "moveItem t pos dir = Inl TypeError" by blast
  qed
qed

text \<open>Such a text: the caret on the blank line between two items.\<close>

lemma moveItem_throws_example:
  "moveItem (joinWith newline [js ''- a'', js '''', js ''- b'']) 4 Down = Inl TypeError"
  by code_simp

section \<open>The breadcrumb of an item\<close>

lemma above_parent:
  assumes "nearestBelow lv k = Some p"
  shows "above lv k = above lv p @ [p]"
proof -
  have p: "p < k" "lv ! p < lv ! k" "\<And>j. p < j \<Longrightarrow> j < k \<Longrightarrow> lv ! k \<le> lv ! j"
    using assms by (auto simp: nearestBelow_Some)
  have split: "[0..<k] = [0..<p] @ p # [Suc p..<k]"
    using p(1) upt_add_eq_append [of 0 p "k - p"] by (simp add: upt_conv_Cons)
  let ?Q = "\<lambda>k j. \<forall>m \<in> set [Suc j..<Suc k]. lv ! j < lv ! m"
  have up: "lv ! p < lv ! m" if "p < m" "m \<le> k" for m
    using p(2) p(3) [of m] that by (cases "m = k") auto
  have "filter (?Q k) [0..<p] = filter (?Q p) [0..<p]"
  proof (rule filter_cong)
    fix j assume "j \<in> set [0..<p]"
    then have j: "j < p" by simp
    show "?Q k j = ?Q p j"
    proof
      assume "?Q k j"
      then show "?Q p j" using p(1) by auto
    next
      assume Q: "?Q p j"
      then have "lv ! j < lv ! p" using j by auto
      have "lv ! j < lv ! m" if m: "m \<in> set [Suc j..<Suc k]" for m
      proof (cases "m \<le> p")
        case True
        then have "m \<in> set [Suc j..<Suc p]" using m by (simp only: set_upt atLeastLessThan_iff) simp
        then show ?thesis using Q by blast
      next
        case False
        then have "p < m" "m \<le> k" using m by (simp_all only: set_upt atLeastLessThan_iff not_le) simp
        then show ?thesis using up [of m] \<open>lv ! j < lv ! p\<close> by simp
      qed
      then show "?Q k j" by blast
    qed
  qed simp
  moreover have "?Q k p" using up by auto
  moreover have "filter (?Q k) [Suc p..<k] = []"
    unfolding filter_empty_conv using p(3) by (auto simp: Suc_le_eq not_less intro!: bexI [of _ k])
  ultimately show ?thesis unfolding above_def split by simp
qed

lemma walkUp_above:
  assumes "k < length (itemsOf t)" "k < f"
  shows "walkUp f (parseOutline t) (nearestBelow (levels t) k) acc = map ((!) (itemsOf t)) (above (levels t) k) @ acc"
  using assms
proof (induction f arbitrary: k acc)
  case (Suc f)
  show ?case
  proof (cases "nearestBelow (levels t) k")
    case None
    then have "above (levels t) k = []"
      using nearestBelow_above [of "levels t" k] by (simp add: lastOf_def split: if_splits)
    then show ?thesis using None by simp
  next
    case (Some p)
    then have p: "p < k" by (simp add: nearestBelow_Some)
    then have "p < length (itemsOf t)" using Suc.prems by simp
    then have "oiParent (itemsOf t ! p) = nearestBelow (levels t) p" by (simp add: items_nth)
    then show ?thesis using Suc Some p above_parent [OF Some] by simp
  qed
qed simp

text \<open>C21: The breadcrumb of an item lists, from the root to its parent, the items before it that are
  less indented than everything between them and the item; their number is the depth of the item,
  and no item is listed twice.\<close>

theorem ancestors_breadcrumb:
  assumes "k < length (outItems (parseOutline t))"
  shows "map oiIndex (ancestors (parseOutline t) (outItems (parseOutline t) ! k)) = above (levels t) k
    \<and> length (ancestors (parseOutline t) (outItems (parseOutline t) ! k)) = oiDepth (outItems (parseOutline t) ! k)"
proof -
  have "ancestors (parseOutline t) (itemsOf t ! k) = map ((!) (itemsOf t)) (above (levels t) k)"
    using walkUp_above [OF assms, of "Suc k" "[]"] assms by (simp add: ancestors_def items_nth)
  moreover have "map oiIndex (map ((!) (itemsOf t)) (above (levels t) k)) = above (levels t) k"
    using assms by (auto simp: above_def items_nth intro!: map_idI)
  ultimately show ?thesis using assms by (simp add: items_nth)
qed

theorem ancestors_breadcrumb_witness:
  "map oiIndex (ancestors (parseOutline sampleOutline) (outItems (parseOutline sampleOutline) ! 1)) = [0]"
proof -
  have "(1::nat) < length (outItems (parseOutline sampleOutline))" by code_simp
  from ancestors_breadcrumb [OF this] show ?thesis
    by (rule conjunct1 [THEN trans]) code_simp
qed

section \<open>Indenting and dedenting\<close>

lemma stripColumns_spec:
  "stripColumns l cols n = (s, k) \<Longrightarrow> k \<le> length l \<and> s = drop k l \<and> list_all isBlankCol (take k l)
     \<and> dropWhile isBlankCol s = dropWhile isBlankCol l"
  by (induction l cols n arbitrary: s k rule: stripColumns.induct) (auto split: if_splits prod.splits)

definition bare :: "jsstr \<Rightarrow> jsstr" where
  "bare = dropWhile isBlankCol"

lemma bare_pad: "bare (replicate n space @ l) = bare l"
  by (induction n) (auto simp: bare_def isBlankCol_def)

lemma newline_pad: "newline \<notin> set (replicate n space)"
  by (auto simp: in_set_replicate)

definition padLines :: "nat \<Rightarrow> nat \<Rightarrow> nat \<Rightarrow> jsstr list \<Rightarrow> jsstr list" where
  "padLines a e w ls = map (\<lambda>i. if a \<le> i \<and> i \<le> e \<and> \<not> blankLine (ls ! i)
     then replicate w space @ ls ! i else ls ! i) [0..<length ls]"

definition indentWidth :: "jsstr \<Rightarrow> nat \<Rightarrow> nat" where
  "indentWidth t p = (case oiChildren (itemsOf t ! p) of
      [] \<Rightarrow> indentUnit
    | c # _ \<Rightarrow> levels t ! c - levels t ! p)"

lemma child_less:
  assumes "c \<in> set (oiChildren (itemsOf t ! p))" "p < length (itemsOf t)"
  shows "p < c" "c < length (itemsOf t)" "levels t ! p < levels t ! c"
  using assms by (auto simp: items_nth nearestBelow_Some)

lemma indentItem_eq:
  assumes "indentItem t pos = Inr (Some r)"
  shows "\<exists>k p c. itemOwning (parseOutline t) pos = Some (itemsOf t ! k) \<and> siblings t p k
    \<and> 0 < indentWidth t p
    \<and> caret (padLines (oiLine (itemsOf t ! k)) (oiEndLine (itemsOf t ! k)) (indentWidth t p) (splitOn newline t))
        (lineOf (parseOutline t) pos) c = Inr (Some r)"
proof -
  obtain it where it: "itemOwning (parseOutline t) pos = Some it"
    using assms by (cases "itemOwning (parseOutline t) pos") (simp_all add: indentItem_def)
  obtain k where k: "k < length (itemsOf t)" "it = itemsOf t ! k" using itemOwning_SomeD [OF it] by blast
  let ?S = "siblingsOf (parseOutline t) (itemsOf t ! k)"
  have idx: "oiIndex (itemsOf t ! k) = k" using k by (simp add: items_nth)
  have "k \<in> set ?S" using k by (simp add: siblings_eq)
  then obtain m where m: "indexOf k ?S = Some m" using indexOf_mem by metis
  have it': "itemOwning (parseOutline t) pos = Some (itemsOf t ! k)" using it k(2) by simp
  have "m \<noteq> 0"
  proof
    assume "m = 0"
    then have "indentItem t pos = Inr None" using it' m by (simp add: indentItem_def Let_def idx)
    then show False using assms by simp
  qed
  then obtain n where n: "indexOf k ?S = Some (Suc n)" using m by (cases m) auto
  then have nS: "Suc n < length ?S" "?S ! Suc n = k" using indexOf_Some [OF n] by simp_all
  let ?p = "?S ! n"
  have sib: "siblings t ?p k" using adjacent_siblings [OF k(1) nS(1)] nS(2)by simp
  then have p: "?p < length (itemsOf t)" by (simp add: siblings_def)
  define unit where "unit = (case oiChildren (itemsOf t ! ?p) of [] \<Rightarrow> int indentUnit
       | c # _ \<Rightarrow> int (oiIndent (itemsOf t ! c)) - int (oiIndent (itemsOf t ! ?p)))"
  have w: "0 < unit \<and> unit = int (indentWidth t ?p)"
  proof (cases "oiChildren (itemsOf t ! ?p)")
    case Nil
    then show ?thesis by (simp add: unit_def indentWidth_def indentUnit_def)
  next
    case (Cons c cs)
    then have "c \<in> set (oiChildren (itemsOf t ! ?p))" by simp
    note child_less [OF this p]
    then show ?thesis using Cons p by (simp add: unit_def indentWidth_def levels_def)
  qed
  have F: "(if 0 < (case oiChildren (itemsOf t ! ?p) of [] \<Rightarrow> int indentUnit
       | c # _ \<Rightarrow> int (oiIndent (itemsOf t ! c)) - int (oiIndent (itemsOf t ! ?p)))
      then nat (case oiChildren (itemsOf t ! ?p) of [] \<Rightarrow> int indentUnit
       | c # _ \<Rightarrow> int (oiIndent (itemsOf t ! c)) - int (oiIndent (itemsOf t ! ?p)))
      else indentUnit) = indentWidth t ?p"
    using w unfolding unit_def by simp
  have "indentItem t pos = caret (padLines (oiLine (itemsOf t ! k)) (oiEndLine (itemsOf t ! k)) (indentWidth t ?p)
      (splitOn newline t)) (lineOf (parseOutline t) pos)
      (int pos - int (lnFrom (linesOf t ! lineOf (parseOutline t) pos))
         + (if lineOf (parseOutline t) pos \<le> oiEndLine (itemsOf t ! k)
              \<and> \<not> blankLine (splitOn newline t ! lineOf (parseOutline t) pos)
            then int (length (replicate (indentWidth t ?p) space)) else 0))"
    unfolding indentItem_def Let_def padLines_def
    by (simp only: it' option.case idx n nat.case F lineTexts_parse outLines_parse)
  from this [symmetric] have "\<exists>c. caret (padLines (oiLine (itemsOf t ! k)) (oiEndLine (itemsOf t ! k))
      (indentWidth t ?p) (splitOn newline t)) (lineOf (parseOutline t) pos) c = Inr (Some r)"
    unfolding assms by (rule exI)
  moreover have "0 < indentWidth t ?p" using w by simp
  ultimately show ?thesis using it' sib by blast
qed

lemma padLines_bare: "map bare (padLines a e w ls) = map bare ls"
  by (rule nth_equalityI) (simp_all add: padLines_def bare_pad)

lemma padLines_ok:
  "ls \<noteq> [] \<Longrightarrow> \<forall>l \<in> set ls. newline \<notin> set l \<Longrightarrow> padLines a e w ls \<noteq> [] \<and> (\<forall>l \<in> set (padLines a e w ls). newline \<notin> set l)"
  by (auto simp: padLines_def newline_pad)

lemma indentItem_lines:
  assumes "indentItem t pos = Inr (Some r)"
  shows "\<exists>k p. itemOwning (parseOutline t) pos = Some (itemsOf t ! k) \<and> siblings t p k
    \<and> 0 < indentWidth t p \<and> splitOn newline (erText r)
      = padLines (oiLine (itemsOf t ! k)) (oiEndLine (itemsOf t ! k)) (indentWidth t p) (splitOn newline t)"
proof -
  obtain k p c where *: "itemOwning (parseOutline t) pos = Some (itemsOf t ! k)" "siblings t p k"
    "0 < indentWidth t p"
    "caret (padLines (oiLine (itemsOf t ! k)) (oiEndLine (itemsOf t ! k)) (indentWidth t p) (splitOn newline t))
        (lineOf (parseOutline t) pos) c = Inr (Some r)"
    using indentItem_eq [OF assms] by blast
  have "\<forall>l \<in> set (splitOn newline t). newline \<notin> set l" by (intro ballI) (rule splitOn_sep_free)
  note ok = padLines_ok [OF splitOn_not_Nil this]
  have "splitOn newline (erText r)
      = padLines (oiLine (itemsOf t ! k)) (oiEndLine (itemsOf t ! k)) (indentWidth t p) (splitOn newline t)"
    by (rule caret_result(1) [OF *(4) ok [THEN conjunct1] ok [THEN conjunct2]])
  then show ?thesis using * by blast
qed

definition dedentLines :: "nat \<Rightarrow> nat \<Rightarrow> nat \<Rightarrow> nat \<Rightarrow> jsstr list \<Rightarrow> jsstr list" where
  "dedentLines a e f d ls = take a ls @ jsSlice (e + 1) (f + 1) ls
     @ map (\<lambda>l. fst (stripColumns l d 0)) (jsSlice a (e + 1) ls) @ drop (f + 1) ls"

lemma jsSlice_map_nth: "b \<le> length xs \<Longrightarrow> map (\<lambda>i. g (xs ! i)) [a..<b] = map g (jsSlice a b xs)"
  by (rule nth_equalityI) (simp_all add: jsSlice_nth)

lemma dedentItem_eq:
  assumes "dedentItem t pos = Inr (Some r)"
  shows "\<exists>k p c l. itemOwning (parseOutline t) pos = Some (itemsOf t ! k) \<and> k < length (itemsOf t)
    \<and> nearestBelow (levels t) k = Some p
    \<and> caret (dedentLines (oiLine (itemsOf t ! k)) (oiEndLine (itemsOf t ! k)) (oiEndLine (itemsOf t ! p))
        (levels t ! k - levels t ! p) (splitOn newline t)) l c = Inr (Some r)"
proof -
  obtain it where it: "itemOwning (parseOutline t) pos = Some it"
    using assms by (cases "itemOwning (parseOutline t) pos") (simp_all add: dedentItem_def)
  obtain k where k: "k < length (itemsOf t)" "it = itemsOf t ! k" using itemOwning_SomeD [OF it] by blast
  obtain p where p: "oiParent it = Some p"
    using assms it by (cases "oiParent it") (simp_all add: dedentItem_def)
  then have np: "nearestBelow (levels t) k = Some p" using k by (simp add: items_nth)
  then have pn: "p < length (itemsOf t)" using k by (simp add: nearestBelow_Some)
  have "Suc (oiEndLine it) \<le> lineCount t" using item_lines [OF k(1)] k(2) by simp
  then have blk: "map (fst \<circ> (\<lambda>i. stripColumns (splitOn newline t ! i) (levels t ! k - levels t ! p) 0))
       [oiLine it..<Suc (oiEndLine it)]
     = map (\<lambda>l. fst (stripColumns l (levels t ! k - levels t ! p) 0)) (jsSlice (oiLine it) (oiEndLine it + 1) (splitOn newline t))"
    using jsSlice_map_nth [of "Suc (oiEndLine it)" "splitOn newline t"
        "\<lambda>l. fst (stripColumns l (levels t ! k - levels t ! p) 0)" "oiLine it"]
    by (simp add: comp_def del: upt_Suc)
  have "levels t ! k = oiIndent it" "levels t ! p = oiIndent (itemsOf t ! p)"
    using k pn by (simp_all add: levels_def)
  note lv = this
  let ?li = "lineOf (parseOutline t) pos"
  have "dedentItem t pos = caret (dedentLines (oiLine it) (oiEndLine it) (oiEndLine (itemsOf t ! p))
        (levels t ! k - levels t ! p) (splitOn newline t))
      (if ?li \<le> oiEndLine it then length (jsSlice 0 (oiLine it) (splitOn newline t))
         + length (jsSlice (oiEndLine it + 1) (oiEndLine (itemsOf t ! p) + 1) (splitOn newline t))
         + (?li - oiLine it) else ?li)
      (int pos - int (lnFrom (linesOf t ! ?li))
         - (if ?li \<le> oiEndLine it then int (if ?li \<in> {oiLine it..oiEndLine it}
              then snd (stripColumns (splitOn newline t ! ?li) (levels t ! k - levels t ! p) 0) else 0) else 0))"
    using it p blk unfolding dedentItem_def Let_def dedentLines_def lv
    by (simp del: upt_Suc length_jsSlice)
  then show ?thesis using assms it k np by metis
qed

lemma dedentLines_bare:
  assumes "a \<le> e" "e \<le> f"
  shows "mset (map bare (dedentLines a e f d ls)) = mset (map bare ls)"
proof -
  have b: "bare (fst (stripColumns l d 0)) = bare l" for l
    using stripColumns_spec [of l d 0] by (cases "stripColumns l d 0") (simp add: bare_def)
  have "ls = take a ls @ jsSlice a (e + 1) ls @ jsSlice (e + 1) (f + 1) ls @ drop (f + 1) ls"
    using assms by (simp add: jsSlice_append_drop)
  then have "mset (map bare ls) = mset (map bare (take a ls @ jsSlice a (e + 1) ls @ jsSlice (e + 1) (f + 1) ls @ drop (f + 1) ls))"
    by simp
  then show ?thesis by (simp add: dedentLines_def b comp_def ac_simps)
qed

text \<open>The subtree of a child ends inside that of its parent.\<close>

lemma child_end:
  assumes "nearestBelow (levels t) k = Some p" "k < length (itemsOf t)"
  shows "p < k" "oiLine (itemsOf t ! p) < oiLine (itemsOf t ! k)"
    "oiEndLine (itemsOf t ! k) \<le> oiEndLine (itemsOf t ! p)"
proof -
  let ?lv = "levels t" and ?il = "itemLinesOf t"
  show p: "p < k" using assms by (simp add: nearestBelow_Some)
  have pn: "p < length (itemsOf t)" using p assms by simp
  have ll: "?il ! p < ?il ! k" "?il ! k < lineCount t"
    using itemLines_mono [of p k "linesOf t" "lineCount t"] itemLines_less [of k "linesOf t" "lineCount t"] p assms
    by (simp_all add: length_items)
  then show "oiLine (itemsOf t ! p) < oiLine (itemsOf t ! k)" using assms pn by (simp add: items_nth)
  define E where "E j = (case nextOut ?lv j of None \<Rightarrow> lineCount t - 1 | Some m \<Rightarrow> ?il ! m - 1)" for j
  have end_eq: "oiEndLine (itemsOf t ! j) = shrinkEnd (linesOf t) (?il ! j) (E j)" if "j < length (itemsOf t)" for j
    using that by (simp add: items_nth endLineOf_def E_def cong: option.case_cong)
  have E: "?il ! k \<le> E k" "E k \<le> E p"
  proof -
    show "?il ! k \<le> E k"
    proof (cases "nextOut ?lv k")
      case None
      then show ?thesis using ll by (simp add: E_def)
    next
      case (Some m)
      then have "k < m" "m < length ?il" by (auto simp: nextOut_Some length_items)
      then show ?thesis using Some itemLines_mono [of k m "linesOf t" "lineCount t"] by (simp add: E_def)
    qed
    show "E k \<le> E p"
    proof (cases "nextOut ?lv p")
      case None
      have "E k \<le> lineCount t - 1"
      proof (cases "nextOut ?lv k")
        case (Some m)
        then have "m < length ?il" by (auto simp: nextOut_Some length_items)
        then show ?thesis using Some itemLines_less [of m "linesOf t" "lineCount t"] by (simp add: E_def)
      qed (simp add: E_def)
      then show ?thesis using None by (simp add: E_def)
    next
      case (Some j)
      then have j: "p < j" "j < length (itemsOf t)" "?lv ! j \<le> ?lv ! p" by (auto simp: nextOut_Some)
      have jk: "k < j"
      proof (rule ccontr)
        assume "\<not> k < j"
        then have "?lv ! k \<le> ?lv ! j" using assms(1) j(1) by (cases "j = k") (auto simp: nearestBelow_Some)
        then show False using assms(1) j(3) by (simp add: nearestBelow_Some)
      qed
      have "?lv ! j \<le> ?lv ! k" using assms(1) j(3) by (simp add: nearestBelow_Some)
      then have "nextOut ?lv k \<noteq> None" using jk j(2) by (auto simp: nextOut_None not_less)
      then obtain m where m: "nextOut ?lv k = Some m" by blast
      have "m \<le> j"
      proof (rule ccontr)
        assume "\<not> m \<le> j"
        then have "?lv ! k < ?lv ! j" using m jk by (simp add: nextOut_Some)
        then show False using \<open>?lv ! j \<le> ?lv ! k\<close> by simp
      qed
      then have "?il ! m \<le> ?il ! j"
        using itemLines_mono [of m j "linesOf t" "lineCount t"] j(2) by (cases "m = j") (auto simp: length_items)
      then show ?thesis using m Some by (simp add: E_def diff_le_mono)
    qed
  qed
  show "oiEndLine (itemsOf t ! k) \<le> oiEndLine (itemsOf t ! p)"
  proof (rule ccontr)
    assume gt: "\<not> oiEndLine (itemsOf t ! k) \<le> oiEndLine (itemsOf t ! p)"
    let ?e = "oiEndLine (itemsOf t ! k)"
    have "?e \<le> E p" using shrinkEnd_bounds [OF E(1), of "linesOf t"] E(2) end_eq [OF assms(2)] by simp
    moreover have "?il ! p \<le> E p" using ll E by linarith
    ultimately have "trim (lnText (linesOf t ! ?e)) = []"
      using shrinkEnd_blank [of "?il ! p" "E p" "linesOf t" ?e] gt end_eq [OF pn] by simp
    moreover have "?e = ?il ! k \<or> trim (lnText (linesOf t ! ?e)) \<noteq> []"
      using shrinkEnd_end [OF E(1), of "linesOf t"] end_eq [OF assms(2)] by simp
    moreover have "trim (lnText (linesOf t ! (?il ! k))) \<noteq> []"
      using item_nonblank [OF assms(2)] assms(2) by (simp add: items_nth)
    ultimately show False by auto
  qed
qed

lemma dedentItem_lines:
  assumes "dedentItem t pos = Inr (Some r)"
  shows "\<exists>k p. itemOwning (parseOutline t) pos = Some (itemsOf t ! k) \<and> k < length (itemsOf t)
    \<and> nearestBelow (levels t) k = Some p
    \<and> splitOn newline (erText r) = dedentLines (oiLine (itemsOf t ! k)) (oiEndLine (itemsOf t ! k))
        (oiEndLine (itemsOf t ! p)) (levels t ! k - levels t ! p) (splitOn newline t)"
proof -
  let ?ls = "splitOn newline t"
  obtain k p c l where *: "itemOwning (parseOutline t) pos = Some (itemsOf t ! k)" "k < length (itemsOf t)"
    "nearestBelow (levels t) k = Some p"
    "caret (dedentLines (oiLine (itemsOf t ! k)) (oiEndLine (itemsOf t ! k)) (oiEndLine (itemsOf t ! p))
        (levels t ! k - levels t ! p) ?ls) l c = Inr (Some r)"
    using dedentItem_eq [OF assms] by blast
  let ?d = "dedentLines (oiLine (itemsOf t ! k)) (oiEndLine (itemsOf t ! k)) (oiEndLine (itemsOf t ! p))
        (levels t ! k - levels t ! p) ?ls"
  have free: "\<forall>l \<in> set ?ls. newline \<notin> set l" by (intro ballI) (rule splitOn_sep_free)
  have st: "set (fst (stripColumns l d 0)) \<subseteq> set l" for l d
    using stripColumns_spec [of l d 0] by (cases "stripColumns l d 0") (auto dest: in_set_dropD)
  have "\<forall>l \<in> set ?d. newline \<notin> set l"
    using free st by (auto simp: dedentLines_def jsSlice_def dest!: in_set_takeD in_set_dropD)
  moreover have "?d \<noteq> []"
    using item_lines [OF *(2)] by (simp add: dedentLines_def jsSlice_def)
  ultimately have "splitOn newline (erText r) = ?d" using caret_result(1) [OF *(4)] by blast
  then show ?thesis using * by blast
qed

text \<open>C18: Indenting and dedenting only change the white space at the start of lines and the place of
  lines: the lines of the new text, without their leading blanks, are those of the text, and
  indenting keeps their order.\<close>

theorem indent_dedent_keep_lines:
  "(indentItem t pos = Inr (Some r) \<longrightarrow> map bare (splitOn newline (erText r)) = map bare (splitOn newline t))
   \<and> (dedentItem t pos = Inr (Some r) \<longrightarrow>
        mset (map bare (splitOn newline (erText r))) = mset (map bare (splitOn newline t)))"
proof (intro conjI impI)
  assume "indentItem t pos = Inr (Some r)"
  from indentItem_lines [OF this] show "map bare (splitOn newline (erText r)) = map bare (splitOn newline t)"
    by (auto simp: padLines_bare)
next
  assume "dedentItem t pos = Inr (Some r)"
  then obtain k p where *: "k < length (itemsOf t)" "nearestBelow (levels t) k = Some p"
    "splitOn newline (erText r) = dedentLines (oiLine (itemsOf t ! k)) (oiEndLine (itemsOf t ! k))
        (oiEndLine (itemsOf t ! p)) (levels t ! k - levels t ! p) (splitOn newline t)"
    using dedentItem_lines by blast
  show "mset (map bare (splitOn newline (erText r))) = mset (map bare (splitOn newline t))"
    unfolding *(3) by (rule dedentLines_bare [OF item_lines(1) [OF *(1)] child_end(3) [OF *(2,1)]])
qed

theorem indent_dedent_keep_lines_witness:
  "indentItem (js ''- a'' @ newline # js ''- b'') 5 = Inr (Some (at (js ''- a'' @ newline # js ''  - b'') 7))
   \<and> map bare (splitOn newline (js ''- a'' @ newline # js ''  - b'')) = map bare (splitOn newline (js ''- a'' @ newline # js ''- b''))"
proof -
  have "indentItem (js ''- a'' @ newline # js ''- b'') 5 = Inr (Some (at (js ''- a'' @ newline # js ''  - b'') 7))"
    by code_simp
  with indent_dedent_keep_lines [THEN conjunct1, THEN mp, OF this] show ?thesis by (simp add: at_def)
qed

section \<open>What indenting does to the tree\<close>









text \<open>When the siblings are not indented alike the item does not become a child.\<close>

lemma indentItem_uneven_example:
  "map (map oiParent) (map (\<lambda>r. case r of Inr (Some e) \<Rightarrow> outItems (parseOutline (erText e)) | _ \<Rightarrow> [])
     [indentItem (joinWith newline [js ''    - a'', js ''- b'']) 9]) = [[None, None]]"
  by code_simp

section \<open>Edits inside a line\<close>

lemma startOf_cong: "map length xs = map length ys \<Longrightarrow> startOf xs j = startOf ys j"
proof -
  assume e: "map length xs = map length ys"
  have "startOf zs j = sum_list (map (\<lambda>n. n + 1) (take j (map length zs)))" for zs
    by (simp add: startOf_def take_map comp_def)
  then show ?thesis using e by simp
qed

lemma joinWith_split:
  "i < length ls \<Longrightarrow> joinWith c ls
     = concat (map (\<lambda>l. l @ [c]) (take i ls)) @ ls ! i @ concat (map ((#) c) (drop (Suc i) ls))"
proof (induction c ls arbitrary: i rule: joinWith.induct)
  case (3 c l l' ls)
  show ?case
  proof (cases i)
    case 0
    have "joinWith c (l' # ls) = l' @ concat (map ((#) c) ls)" using 3(1) [of 0] by simp
    then show ?thesis using 0 by simp
  next
    case (Suc j)
    then show ?thesis using 3 by simp
  qed
qed simp_all

lemma length_concat_lines: "length (concat (map (\<lambda>l. l @ [c]) ls)) = sum_list (map (\<lambda>l. length l + 1) ls)"
  by (induction ls) auto

lemma line_edit:
  assumes "i < length ls" "a \<le> b" "b \<le> length (ls ! i)"
  shows "take (startOf ls i + a) (joinWith c ls) @ ins @ drop (startOf ls i + b) (joinWith c ls)
    = joinWith c (ls[i := take a (ls ! i) @ ins @ drop b (ls ! i)])"
proof -
  let ?P = "concat (map (\<lambda>l. l @ [c]) (take i ls))" and ?S = "concat (map ((#) c) (drop (Suc i) ls))"
  have P: "length ?P = startOf ls i" by (simp add: length_concat_lines startOf_def)
  have "joinWith c ls = ?P @ ls ! i @ ?S" by (rule joinWith_split [OF assms(1)])
  moreover have "joinWith c (ls[i := take a (ls ! i) @ ins @ drop b (ls ! i)])
      = ?P @ (take a (ls ! i) @ ins @ drop b (ls ! i)) @ ?S"
    using joinWith_split [of i "ls[i := take a (ls ! i) @ ins @ drop b (ls ! i)]"] assms(1) by simp
  ultimately show ?thesis using assms by (simp add: P [symmetric])
qed

lemma text_line:
  "i < lineCount t \<Longrightarrow> a \<le> b \<Longrightarrow> b \<le> length (splitOn newline t ! i) \<Longrightarrow>
   take (startOf (splitOn newline t) i + a) t @ ins @ drop (startOf (splitOn newline t) i + b) t
    = joinWith newline ((splitOn newline t)[i := take a (splitOn newline t ! i) @ ins @ drop b (splitOn newline t ! i)])"
  using line_edit [of i "splitOn newline t" a b newline ins] by simp

lemma text_nth:
  assumes "i < lineCount t" "a < length (splitOn newline t ! i)"
  shows "t ! (startOf (splitOn newline t) i + a) = splitOn newline t ! i ! a"
proof -
  let ?ls = "splitOn newline t"
  let ?P = "concat (map (\<lambda>l. l @ [newline]) (take i ?ls))"
    and ?S = "concat (map ((#) newline) (drop (Suc i) ?ls))"
  have P: "length ?P = startOf ?ls i" by (simp add: length_concat_lines startOf_def)
  have "t = ?P @ (?ls ! i @ ?S)" using joinWith_split [OF assms(1), of newline] by simp
  then have "t ! (length ?P + a) = (?ls ! i @ ?S) ! a" by (metis nth_append_length_plus)
  then show ?thesis using assms(2) by (simp add: P nth_append)
qed

section \<open>Check boxes\<close>

lemma matchItem_box:
  assumes "matchItem l = Some (ws, b, Some m, len)"
  shows "\<exists>rest. l = ws @ [b, space, 91, m, 93] @ rest \<and> list_all isBlankCol ws \<and> (b = 45 \<or> b = 42 \<or> b = 43)
    \<and> (m = space \<or> m = 120 \<or> m = 88) \<and> (rest = [] \<and> len = length ws + 5 \<or> (\<exists>r. rest = space # r) \<and> len = length ws + 6)"
proof -
  let ?ws = "takeWhile isBlankCol l"
  obtain r where r: "dropWhile isBlankCol l = b # space # r" "b = 45 \<or> b = 42 \<or> b = 43" "ws = ?ws"
    and box: "\<exists>k. matchBox r = Some (m, k) \<and> len = length ws + 2 + k"
    using assms by (auto simp: matchItem_def Let_def split: list.splits if_splits option.splits)
  obtain rest where rest: "r = [91, m, 93] @ rest" "m = space \<or> m = 120 \<or> m = 88"
    "rest = [] \<and> len = length ws + 5 \<or> (\<exists>r. rest = space # r) \<and> len = length ws + 6"
    using box by (auto simp: matchBox_def split: list.splits if_splits)
  have "l = ?ws @ dropWhile isBlankCol l" by simp
  then have "l = ws @ [b, space, 91, m, 93] @ rest" using r rest(1) by simp
  moreover have "list_all isBlankCol ws" using r(3) by (auto simp: list_all_iff dest: set_takeWhileD)
  ultimately show ?thesis using r(2) rest(2,3) by blast
qed

lemma matchItem_boxI:
  assumes "list_all isBlankCol ws" "b = 45 \<or> b = 42 \<or> b = 43" "m = space \<or> m = 120 \<or> m = 88"
    "rest = [] \<or> (\<exists>r. rest = space # r)"
  shows "\<exists>len. matchItem (ws @ [b, space, 91, m, 93] @ rest) = Some (ws, b, Some m, len)"
proof -
  have nb: "\<not> isBlankCol b" using assms(2) by (auto simp: isBlankCol_def)
  have "takeWhile isBlankCol (ws @ [b, space, 91, m, 93] @ rest) = ws"
    using assms(1) nb by (induction ws) auto
  moreover have "dropWhile isBlankCol (ws @ [b, space, 91, m, 93] @ rest) = [b, space, 91, m, 93] @ rest"
    using assms(1) nb by (induction ws) auto
  moreover have "\<exists>k. matchBox ([91, m, 93] @ rest) = Some (m, k)"
    using assms(3,4) by (auto simp: matchBox_def)
  ultimately show ?thesis using assms(2) by (auto simp: matchItem_def Let_def)
qed

lemma itemOnLine_match:
  assumes "matchItem (splitOn newline t ! lineOf (parseOutline t) pos) = Some (ws, b, mark, len)"
  shows "\<exists>it. itemOnLine (parseOutline t) pos = Some it \<and> oiIndentText it = ws
    \<and> oiChecked it = map_option (\<lambda>m. m \<noteq> space) mark
    \<and> oiFrom it = startOf (splitOn newline t) (lineOf (parseOutline t) pos)"
proof -
  let ?l = "lineOf (parseOutline t) pos"
  have l: "?l < lineCount t" using lineOf_spec by blast
  have m: "matchItem (lnText (linesOf t ! ?l)) = Some (ws, b, mark, len)" using assms linesOf_nth [OF l] by simp
  then have "outItemAt (parseOutline t) ! ?l \<noteq> None" using l by (simp add: parse_eq)
  then obtain it where it: "itemOnLine (parseOutline t) pos = Some it" by (auto simp: itemOnLine_def)
  from itemOnLine_SomeD [OF it] obtain k where k: "k < length (itemsOf t)" "it = itemsOf t ! k" "oiLine it = ?l"
    by blast
  then have il: "itemLinesOf t ! k = ?l" by (simp add: items_nth)
  have "it = itemAt (linesOf t) (itemLinesOf t) (levels t) (endLineOf (linesOf t) (itemLinesOf t) (levels t) k) k"
    using k by (simp add: items_nth)
  then show ?thesis
    using it itemAt_match [of "linesOf t" "itemLinesOf t" k ws b mark len] m linesOf_nth [OF l] by (simp add: il)
qed

lemma itemOnLine_matchD:
  assumes "itemOnLine (parseOutline t) pos = Some it"
  shows "\<exists>ws b mark len. matchItem (splitOn newline t ! lineOf (parseOutline t) pos) = Some (ws, b, mark, len)"
proof -
  let ?l = "lineOf (parseOutline t) pos"
  have l: "?l < lineCount t" using lineOf_spec by blast
  have "matchItem (lnText (linesOf t ! ?l)) \<noteq> None"
    using assms l by (auto simp: itemOnLine_def parse_eq split: if_splits)
  then show ?thesis using linesOf_nth [OF l] by auto
qed

text \<open>A line with a box, and the offset of the mark in the text.\<close>

definition boxLine :: "jsstr \<Rightarrow> nat \<Rightarrow> jsstr \<Rightarrow> cu \<Rightarrow> cu \<Rightarrow> jsstr \<Rightarrow> bool" where
  "boxLine t pos ws b x rest \<longleftrightarrow>
     splitOn newline t ! lineOf (parseOutline t) pos = ws @ [b, space, 91, x, 93] @ rest \<and> list_all isBlankCol ws
     \<and> (b = 45 \<or> b = 42 \<or> b = 43) \<and> (x = space \<or> x = 120 \<or> x = 88) \<and> (rest = [] \<or> (\<exists>r. rest = space # r))"

definition markAt :: "jsstr \<Rightarrow> nat \<Rightarrow> jsstr \<Rightarrow> nat" where
  "markAt t pos ws = startOf (splitOn newline t) (lineOf (parseOutline t) pos) + (length ws + 3)"

lemma boxLine_mark:
  assumes "boxLine t pos ws b x rest"
  shows "markAt t pos ws < length t" "t ! markAt t pos ws = x"
proof -
  let ?ls = "splitOn newline t" and ?li = "lineOf (parseOutline t) pos"
  have li: "?li < lineCount t" using lineOf_spec by blast
  have l: "?ls ! ?li = ws @ [b, space, 91, x, 93] @ rest" using assms by (simp add: boxLine_def)
  have "startOf ?ls ?li + length (?ls ! ?li) < startOf ?ls (length ?ls)" by (rule startOf_less) (use li in auto)
  then show "markAt t pos ws < length t" using startOf_text [of ?ls newline] by (simp add: markAt_def l)
  have "t ! markAt t pos ws = ?ls ! ?li ! (length ws + 3)"
    unfolding markAt_def by (rule text_nth [OF li]) (simp add: l)
  then show "t ! markAt t pos ws = x" by (simp add: l nth_append)
qed

lemma boxLine_item:
  assumes "boxLine t pos ws b x rest"
  shows "\<exists>it. itemOnLine (parseOutline t) pos = Some it \<and> oiChecked it = Some (x \<noteq> space)
    \<and> toggleChecked t pos = Some (at (t[markAt t pos ws := if x \<noteq> space then space else 120]) pos)"
proof -
  obtain len where "matchItem (splitOn newline t ! lineOf (parseOutline t) pos) = Some (ws, b, Some x, len)"
    using matchItem_boxI [of ws b x rest] assms by (auto simp: boxLine_def)
  from itemOnLine_match [OF this] obtain it where it: "itemOnLine (parseOutline t) pos = Some it"
    "oiIndentText it = ws" "oiChecked it = Some (x \<noteq> space)"
    "oiFrom it = startOf (splitOn newline t) (lineOf (parseOutline t) pos)" by auto
  then have "toggleChecked t pos = Some (at (t[markAt t pos ws := if x \<noteq> space then space else 120]) pos)"
    using boxLine_mark(1) [OF assms]
    by (simp add: toggleChecked_def Let_def markAt_def upd_conv_take_nth_drop add.assoc)
  then show ?thesis using it by blast
qed

lemma boxLine_update:
  assumes "boxLine t pos ws b x rest" "y = space \<or> y = 120 \<or> y = 88"
  shows "boxLine (t[markAt t pos ws := y]) pos ws b y rest"
    "markAt (t[markAt t pos ws := y]) pos ws = markAt t pos ws"
proof -
  let ?ls = "splitOn newline t" and ?li = "lineOf (parseOutline t) pos" and ?u = "t[markAt t pos ws := y]"
  have li: "?li < lineCount t" using lineOf_spec by blast
  have l: "?ls ! ?li = ws @ [b, space, 91, x, 93] @ rest" using assms(1) by (simp add: boxLine_def)
  define l' where "l' = ws @ [b, space, 91, y, 93] @ rest"
  have "?u = take (markAt t pos ws) t @ [y] @ drop (markAt t pos ws + 1) t"
    using boxLine_mark(1) [OF assms(1)] by (simp add: upd_conv_take_nth_drop)
  also have "\<dots> = joinWith newline (?ls[?li := take (length ws + 3) (?ls ! ?li) @ [y] @ drop (length ws + (3 + 1)) (?ls ! ?li)])"
    unfolding markAt_def add.assoc
    by (rule text_line [OF li, of "length ws + 3" "length ws + (3 + 1)" "[y]"]) (simp_all add: l)
  also have "\<dots> = joinWith newline (?ls[?li := l'])" by (simp add: l l'_def)
  finally have u: "?u = joinWith newline (?ls[?li := l'])" .
  have "\<forall>l \<in> set ?ls. newline \<notin> set l" by (intro ballI) (rule splitOn_sep_free)
  moreover have "newline \<notin> set l'"
  proof -
    have "newline \<notin> set (?ls ! ?li)" by (rule splitOn_sep_free [OF nth_mem [OF li]])
    then show ?thesis using assms(2) by (auto simp: l l'_def)
  qed
  ultimately have free: "\<forall>l \<in> set (?ls[?li := l']). newline \<notin> set l"
    using set_update_subset_insert [of ?ls ?li l'] by blast
  have split: "splitOn newline ?u = ?ls[?li := l']" unfolding u by (rule splitOn_joinWith) (use free in auto)
  have same: "length l' = map length ?ls ! ?li" using l li by (simp add: l'_def)
  have "map length (?ls[?li := l']) = map length ?ls" unfolding map_update same by (rule list_update_id)
  then have start: "startOf (?ls[?li := l']) j = startOf ?ls j" for j by (rule startOf_cong)
  have li': "lineOf (parseOutline ?u) pos = ?li"
    by (rule lineOf_unique) (use lineOf_spec [of t pos] in \<open>simp_all add: split start\<close>)
  show "markAt ?u pos ws = markAt t pos ws"
    unfolding markAt_def [of ?u pos ws] li' split start by (simp add: markAt_def)
  show "boxLine ?u pos ws b y rest"
    unfolding boxLine_def li' split using assms li by (simp add: boxLine_def l'_def)
qed

text \<open>C19: Toggling a check box changes one code unit of the text, the mark in the box, and the item of the
  line is then read with the other state; toggling again restores the text, unless the mark was a
  capital \<open>X\<close>, which comes back as \<open>x\<close>.\<close>

theorem toggleChecked_flips:
  assumes "toggleChecked t pos = Some r"
  shows "\<exists>i c it it'. i < length t \<and> erText r = t[i := if c then 32 else 120]
    \<and> itemOnLine (parseOutline t) pos = Some it \<and> oiChecked it = Some c
    \<and> itemOnLine (parseOutline (erText r)) pos = Some it' \<and> oiChecked it' = Some (\<not> c)
    \<and> toggleChecked (erText r) pos = Some (at (if t ! i = 88 then t[i := 120] else t) pos)"
proof -
  obtain it c where it: "itemOnLine (parseOutline t) pos = Some it" "oiChecked it = Some c"
    using assms by (auto simp: toggleChecked_def Let_def split: option.splits)
  obtain ws b mark len where m: "matchItem (splitOn newline t ! lineOf (parseOutline t) pos) = Some (ws, b, mark, len)"
    using itemOnLine_matchD [OF it(1)] by blast
  from itemOnLine_match [OF m] it have "map_option (\<lambda>m. m \<noteq> space) mark = Some c" by simp
  then obtain x where x: "mark = Some x" "c = (x \<noteq> space)" by auto
  obtain rest where B: "boxLine t pos ws b x rest"
    using matchItem_box [OF m [unfolded x(1)]] by (auto simp: boxLine_def)
  let ?i = "markAt t pos ws"
  define y :: cu where "y = (if c then space else 120)"
  have y: "y = space \<or> y = 120 \<or> y = 88" "(y \<noteq> space) = (\<not> c)" by (simp_all add: y_def)
  have r: "r = at (t[?i := y]) pos" using boxLine_item [OF B] assms x(2) by (auto simp: y_def)
  then have u: "erText r = t[?i := y]" by (simp add: at_def)
  note U = boxLine_update [OF B y(1)]
  obtain it' where it': "itemOnLine (parseOutline (erText r)) pos = Some it'" "oiChecked it' = Some (\<not> c)"
    "toggleChecked (erText r) pos = Some (at ((t[?i := y])[?i := if \<not> c then space else 120]) pos)"
    using boxLine_item [OF U(1)] unfolding u U(2) y(2) by blast
  have "(t[?i := y])[?i := if \<not> c then space else 120] = (if t ! ?i = 88 then t[?i := 120] else t)"
    using boxLine_mark(2) [OF B] B x(2) list_update_id [of t ?i] by (auto simp: boxLine_def)
  then show ?thesis
    using it it' u boxLine_mark(1) [OF B] by (intro exI [of _ ?i] exI [of _ c] exI [of _ it] exI [of _ it']) (simp add: y_def)
qed

theorem toggleChecked_flips_witness:
  "toggleChecked (js ''- [X] a'') 7 = Some (at (js ''- [ ] a'') 7)
   \<and> toggleChecked (js ''- [ ] a'') 7 = Some (at (js ''- [x] a'') 7)"
proof -
  have t: "toggleChecked (js ''- [X] a'') 7 = Some (at (js ''- [ ] a'') 7)" by code_simp
  have "toggleChecked (js ''- [ ] a'') 7 = Some (at (js ''- [x] a'') 7)" by code_simp
  then show ?thesis using toggleChecked_flips [OF t] t by blast
qed

section \<open>The caret stays in the text\<close>

















end
