(* ===== verification/DomainSync.thy ===== *)
theory DomainSync
  imports Prelude
begin

text \<open>
  The domain of synchronisation (\<open>domain-sync/src\<close>): documents, the replication session of one
  document, the state of a vault and an account.  A method that throws is an \<open>Inl\<close>; the clock
  (\<open>new Date()\<close>) is an argument, in milliseconds; \<open>localeCompare\<close> is the parameter \<open>le\<close>
  of the two lists that are sorted with it.
\<close>

section \<open>Data\<close>

datatype replication_mode = LocalOnly | RemoteOnly | Bidirectional

datatype connectivity = Offline | Connecting | Online

datatype sync_state = NotInitialized | InSync | LocalPending | ConflictState | ErrorState

datatype update_source = Local | Remote

record doc_update =
  upId :: jsstr
  upDocument :: jsstr
  upSource :: update_source
  upPayload :: "nat list"
  upAt :: nat

datatype sync_error = EmptyValue string | IdMismatch jsstr jsstr | NotLocal | NotRemote

definition trimNonEmpty :: "jsstr \<Rightarrow> string \<Rightarrow> sync_error + jsstr" where
  "trimNonEmpty value label = (let v = trim value in if v = [] then Inl (EmptyValue label) else Inr v)"

section \<open>Documents\<close>

record document =
  dcId :: jsstr
  dcName :: jsstr
  dcPath :: jsstr
  dcTitle :: jsstr
  dcContent :: jsstr
  dcDeleted :: bool
  dcUpdated :: nat

abbreviation slash :: cu where "slash \<equiv> 47"

text \<open>The part up to and including the last slash, and the part after it.\<close>

definition parentPath :: "jsstr \<Rightarrow> jsstr" where
  "parentPath p = rev (dropWhile (\<lambda>c. c \<noteq> slash) (rev p))"

definition afterSlash :: "jsstr \<Rightarrow> jsstr" where
  "afterSlash p = rev (takeWhile (\<lambda>c. c \<noteq> slash) (rev p))"

definition newDocument :: "jsstr \<Rightarrow> jsstr \<Rightarrow> jsstr \<Rightarrow> jsstr option \<Rightarrow> jsstr option \<Rightarrow> bool option
    \<Rightarrow> nat option \<Rightarrow> nat \<Rightarrow> sync_error + document" where
  "newDocument i name path title content del upd now =
     (case trimNonEmpty name ''name'' of
        Inl e \<Rightarrow> Inl e
      | Inr n \<Rightarrow>
          (case trimNonEmpty path ''path'' of
             Inl e \<Rightarrow> Inl e
           | Inr p \<Rightarrow> Inr \<lparr>dcId = i, dcName = n, dcPath = p,
               dcTitle = (case title of None \<Rightarrow> [] | Some x \<Rightarrow> x),
               dcContent = (case content of None \<Rightarrow> [] | Some x \<Rightarrow> x),
               dcDeleted = (case del of None \<Rightarrow> False | Some b \<Rightarrow> b),
               dcUpdated = (case upd of None \<Rightarrow> now | Some d \<Rightarrow> d)\<rparr>))"

record doc_meta =
  dmId :: jsstr
  dmName :: jsstr
  dmPath :: jsstr
  dmUpdated :: nat

definition toMeta :: "document \<Rightarrow> doc_meta" where
  "toMeta d = \<lparr>dmId = dcId d, dmName = dcName d, dmPath = dcPath d, dmUpdated = dcUpdated d\<rparr>"

definition renameTo :: "jsstr \<Rightarrow> nat \<Rightarrow> document \<Rightarrow> sync_error + document" where
  "renameTo newName now d =
     (case trimNonEmpty newName ''newName'' of
        Inl e \<Rightarrow> Inl e
      | Inr n \<Rightarrow> Inr (d\<lparr>dcName := n, dcPath := parentPath (dcPath d) @ n, dcUpdated := now\<rparr>))"

definition moveTo :: "jsstr \<Rightarrow> nat \<Rightarrow> document \<Rightarrow> sync_error + document" where
  "moveTo newPath now d =
     (case trimNonEmpty newPath ''newPath'' of
        Inl e \<Rightarrow> Inl e
      | Inr p \<Rightarrow> Inr (d\<lparr>dcPath := p, dcName := (if slash \<in> set p then afterSlash p else p), dcUpdated := now\<rparr>))"

definition setDocContent :: "jsstr \<Rightarrow> nat \<Rightarrow> document \<Rightarrow> document" where
  "setDocContent c now d = d\<lparr>dcContent := c, dcUpdated := now\<rparr>"

definition markDeleted :: "nat \<Rightarrow> document \<Rightarrow> document" where
  "markDeleted now d = d\<lparr>dcDeleted := True, dcUpdated := now\<rparr>"

definition restore :: "nat \<Rightarrow> document \<Rightarrow> document" where
  "restore now d = d\<lparr>dcDeleted := False, dcUpdated := now\<rparr>"

section \<open>The session of a document\<close>

record session =
  ssId :: jsstr
  ssDocument :: jsstr
  ssVault :: jsstr
  ssMode :: replication_mode
  ssState :: sync_state
  ssConn :: connectivity
  ssVersion :: nat
  ssPending :: "doc_update list"
  ssApplied :: "jsstr list"

text \<open>A new session; a parameter left out has the constructor's default.\<close>

definition newSession :: "jsstr \<Rightarrow> jsstr \<Rightarrow> jsstr \<Rightarrow> replication_mode option \<Rightarrow> sync_state option
    \<Rightarrow> connectivity option \<Rightarrow> nat option \<Rightarrow> doc_update list option \<Rightarrow> jsstr list option \<Rightarrow> session" where
  "newSession i doc vault mode st conn ver pend applied =
     \<lparr>ssId = i, ssDocument = doc, ssVault = vault,
      ssMode = (case mode of None \<Rightarrow> Bidirectional | Some x \<Rightarrow> x),
      ssState = (case st of None \<Rightarrow> NotInitialized | Some x \<Rightarrow> x),
      ssConn = (case conn of None \<Rightarrow> Offline | Some x \<Rightarrow> x),
      ssVersion = (case ver of None \<Rightarrow> 0 | Some x \<Rightarrow> x),
      ssPending = (case pend of None \<Rightarrow> [] | Some x \<Rightarrow> x),
      ssApplied = (case applied of None \<Rightarrow> [] | Some x \<Rightarrow> setOf x)\<rparr>"

abbreviation freshSession :: "jsstr \<Rightarrow> jsstr \<Rightarrow> jsstr \<Rightarrow> session" where
  "freshSession i doc vault \<equiv> newSession i doc vault None None None None None None"

definition applyLocalUpdate :: "doc_update \<Rightarrow> session \<Rightarrow> sync_error + session" where
  "applyLocalUpdate u s =
     (if ssDocument s \<noteq> upDocument u then Inl (IdMismatch (ssDocument s) (upDocument u))
      else if upSource u \<noteq> Local then Inl NotLocal
      else Inr (s\<lparr>ssPending := ssPending s @ [u], ssVersion := ssVersion s + 1, ssState := LocalPending\<rparr>))"

definition applyRemoteUpdate :: "doc_update \<Rightarrow> session \<Rightarrow> sync_error + session" where
  "applyRemoteUpdate u s =
     (if ssDocument s \<noteq> upDocument u then Inl (IdMismatch (ssDocument s) (upDocument u))
      else if upSource u \<noteq> Remote then Inl NotRemote
      else if upId u \<in> set (ssApplied s) then Inr s
      else Inr (s\<lparr>ssApplied := ssApplied s @ [upId u], ssVersion := ssVersion s + 1,
             ssState := (if ssPending s = [] then InSync else ssState s)\<rparr>))"

fun removeUpdate :: "jsstr \<Rightarrow> doc_update list \<Rightarrow> doc_update list" where
  "removeUpdate i [] = []"
| "removeUpdate i (u # us) = (if upId u = i then us else u # removeUpdate i us)"

definition ackLocalUpdate :: "jsstr \<Rightarrow> session \<Rightarrow> session" where
  "ackLocalUpdate i s =
     (if i \<notin> upId ` set (ssPending s) then s
      else let p = removeUpdate i (ssPending s)
           in s\<lparr>ssPending := p, ssState := (if p = [] then InSync else ssState s)\<rparr>)"

definition markConn :: "connectivity \<Rightarrow> session \<Rightarrow> session" where
  "markConn c s = s\<lparr>ssConn := c\<rparr>"

definition markState :: "sync_state \<Rightarrow> session \<Rightarrow> session" where
  "markState x s = s\<lparr>ssState := x\<rparr>"

definition isDirty :: "session \<Rightarrow> bool" where
  "isDirty s \<longleftrightarrow> ssPending s \<noteq> []"

text \<open>What may happen to a session.\<close>

datatype session_event = EvLocal doc_update | EvRemote doc_update | EvAck jsstr
  | EvConnected | EvDisconnected | EvConnecting | EvConflict | EvError

definition sessionStep :: "session_event \<Rightarrow> session \<Rightarrow> sync_error + session" where
  "sessionStep e s =
     (case e of
        EvLocal u \<Rightarrow> applyLocalUpdate u s
      | EvRemote u \<Rightarrow> applyRemoteUpdate u s
      | EvAck i \<Rightarrow> Inr (ackLocalUpdate i s)
      | EvConnected \<Rightarrow> Inr (markConn Online s)
      | EvDisconnected \<Rightarrow> Inr (markConn Offline s)
      | EvConnecting \<Rightarrow> Inr (markConn Connecting s)
      | EvConflict \<Rightarrow> Inr (markState ConflictState s)
      | EvError \<Rightarrow> Inr (markState ErrorState s))"

section \<open>Vault and account\<close>

record vault_sync =
  vsState :: sync_state
  vsAt :: "nat option"
  vsError :: "jsstr option"

definition newVaultSync :: vault_sync where
  "newVaultSync = \<lparr>vsState = NotInitialized, vsAt = None, vsError = None\<rparr>"

definition markInSync :: "nat \<Rightarrow> vault_sync \<Rightarrow> vault_sync" where
  "markInSync at v = v\<lparr>vsState := InSync, vsAt := Some at, vsError := None\<rparr>"

definition markSyncing :: "vault_sync \<Rightarrow> vault_sync" where
  "markSyncing v = v\<lparr>vsState := LocalPending, vsError := None\<rparr>"

definition markOutOfSync :: "jsstr \<Rightarrow> vault_sync \<Rightarrow> vault_sync" where
  "markOutOfSync r v = v\<lparr>vsState := LocalPending, vsError := Some r\<rparr>"

definition markConflict :: "jsstr \<Rightarrow> vault_sync \<Rightarrow> vault_sync" where
  "markConflict r v = v\<lparr>vsState := ConflictState, vsError := Some r\<rparr>"

definition markError :: "jsstr \<Rightarrow> vault_sync \<Rightarrow> vault_sync" where
  "markError r v = v\<lparr>vsState := ErrorState, vsError := Some r\<rparr>"

record vault =
  vtId :: jsstr
  vtName :: jsstr
  vtMode :: replication_mode
  vtConn :: connectivity
  vtSync :: vault_sync
  vtDocuments :: "(jsstr \<times> document) list"

definition newVault :: "jsstr \<Rightarrow> jsstr \<Rightarrow> replication_mode option \<Rightarrow> connectivity option \<Rightarrow> vault_sync option
    \<Rightarrow> document list \<Rightarrow> sync_error + vault" where
  "newVault i name mode conn sync docs =
     (case trimNonEmpty name ''name'' of
        Inl e \<Rightarrow> Inl e
      | Inr n \<Rightarrow> Inr \<lparr>vtId = i, vtName = n,
          vtMode = (case mode of None \<Rightarrow> Bidirectional | Some x \<Rightarrow> x),
          vtConn = (case conn of None \<Rightarrow> Offline | Some x \<Rightarrow> x),
          vtSync = (case sync of None \<Rightarrow> newVaultSync | Some x \<Rightarrow> x),
          vtDocuments = fold (\<lambda>d m. AList.update (dcId d) d m) docs []\<rparr>)"

definition addDocument :: "document \<Rightarrow> vault \<Rightarrow> vault" where
  "addDocument d v = v\<lparr>vtDocuments := AList.update (dcId d) d (vtDocuments v)\<rparr>"

definition removeDocument :: "jsstr \<Rightarrow> vault \<Rightarrow> vault" where
  "removeDocument i v = v\<lparr>vtDocuments := AList.delete i (vtDocuments v)\<rparr>"

definition getDocument :: "jsstr \<Rightarrow> vault \<Rightarrow> document option" where
  "getDocument i v = map_of (vtDocuments v) i"

definition listDocuments :: "(jsstr \<Rightarrow> jsstr \<Rightarrow> bool) \<Rightarrow> vault \<Rightarrow> doc_meta list" where
  "listDocuments le v = sortBy (\<lambda>a b. le (dmPath a) (dmPath b)) (map (toMeta \<circ> snd) (vtDocuments v))"

definition renameVault :: "jsstr \<Rightarrow> vault \<Rightarrow> sync_error + vault" where
  "renameVault name v =
     (case trimNonEmpty name ''newName'' of Inl e \<Rightarrow> Inl e | Inr n \<Rightarrow> Inr (v\<lparr>vtName := n\<rparr>))"

definition markVault :: "connectivity \<Rightarrow> vault \<Rightarrow> vault" where
  "markVault c v = v\<lparr>vtConn := c\<rparr>"

definition syncVault :: "(vault_sync \<Rightarrow> vault_sync) \<Rightarrow> vault \<Rightarrow> vault" where
  "syncVault f v = v\<lparr>vtSync := f (vtSync v)\<rparr>"

record account =
  acId :: jsstr
  acName :: jsstr
  acEmail :: jsstr
  acVaults :: "(jsstr \<times> vault) list"

definition newAccount :: "jsstr \<Rightarrow> jsstr \<Rightarrow> jsstr \<Rightarrow> vault list \<Rightarrow> sync_error + account" where
  "newAccount i name email vs =
     (case trimNonEmpty name ''displayName'' of
        Inl e \<Rightarrow> Inl e
      | Inr n \<Rightarrow>
          (case trimNonEmpty email ''email'' of
             Inl e \<Rightarrow> Inl e
           | Inr m \<Rightarrow> Inr \<lparr>acId = i, acName = n, acEmail = m,
               acVaults = fold (\<lambda>v m. AList.update (vtId v) v m) vs []\<rparr>))"

definition addVault :: "vault \<Rightarrow> account \<Rightarrow> account" where
  "addVault v a = a\<lparr>acVaults := AList.update (vtId v) v (acVaults a)\<rparr>"

definition removeVault :: "jsstr \<Rightarrow> account \<Rightarrow> account" where
  "removeVault i a = a\<lparr>acVaults := AList.delete i (acVaults a)\<rparr>"

definition getVault :: "jsstr \<Rightarrow> account \<Rightarrow> vault option" where
  "getVault i a = map_of (acVaults a) i"

definition listVaults :: "(jsstr \<Rightarrow> jsstr \<Rightarrow> bool) \<Rightarrow> account \<Rightarrow> vault list" where
  "listVaults le a = sortBy (\<lambda>x y. le (vtName x) (vtName y)) (map snd (acVaults a))"

section \<open>What a session keeps\<close>

text \<open>A handler that throws has changed nothing: the session stays as it was.\<close>

definition deliver :: "session_event \<Rightarrow> session \<Rightarrow> session" where
  "deliver e s = (case sessionStep e s of Inl err \<Rightarrow> s | Inr s' \<Rightarrow> s')"

text \<open>The states a new session can reach.\<close>

inductive reachable_session :: "session \<Rightarrow> bool" where
  fresh: "reachable_session (freshSession i doc vault)"
| event: "reachable_session s \<Longrightarrow> sessionStep e s = Inr s' \<Longrightarrow> reachable_session s'"

lemmas session_defs = sessionStep_def applyLocalUpdate_def applyRemoteUpdate_def ackLocalUpdate_def
  markConn_def markState_def isDirty_def

lemma set_removeUpdate: "set (removeUpdate i us) \<subseteq> set us"
  by (induction us) auto

lemma removeUpdate_length:
  "i \<in> upId ` set us \<Longrightarrow> Suc (length (removeUpdate i us)) = length us"
  by (induction us) auto

definition session_ok :: "session \<Rightarrow> bool" where
  "session_ok s \<longleftrightarrow>
     (\<forall>u \<in> set (ssPending s). upSource u = Local \<and> upDocument u = ssDocument s)
     \<and> distinct (ssApplied s)
     \<and> (ssState s = InSync \<longrightarrow> \<not> isDirty s)
     \<and> (ssState s = LocalPending \<longrightarrow> isDirty s)
     \<and> length (ssPending s) + length (ssApplied s) \<le> ssVersion s"

lemma session_ok_step:
  assumes "session_ok s" "sessionStep e s = Inr s'"
  shows "session_ok s'"
proof (cases e)
  case (EvLocal u)
  then show ?thesis using assms by (auto simp: session_ok_def session_defs split: if_splits)
next
  case (EvRemote u)
  then show ?thesis using assms by (auto simp: session_ok_def session_defs split: if_splits)
next
  case (EvAck i)
  show ?thesis
  proof (cases "i \<in> upId ` set (ssPending s)")
    case True
    then show ?thesis
      using assms EvAck set_removeUpdate [of i "ssPending s"] removeUpdate_length [OF True]
      by (auto simp: session_ok_def session_defs Let_def split: if_splits)
  qed (use assms EvAck in \<open>auto simp: session_ok_def session_defs\<close>)
qed (use assms in \<open>auto simp: session_ok_def session_defs\<close>)

text \<open>C22: in every state a new session can reach, the state shown agrees with the queue.\<close>

theorem session_invariant:
  "reachable_session s \<Longrightarrow>
     (\<forall>u \<in> set (ssPending s). upSource u = Local \<and> upDocument u = ssDocument s)
     \<and> distinct (ssApplied s)
     \<and> (ssState s = InSync \<longrightarrow> \<not> isDirty s) \<and> (ssState s = LocalPending \<longrightarrow> isDirty s)
     \<and> length (ssPending s) + length (ssApplied s) \<le> ssVersion s"
proof (induction rule: reachable_session.induct)
  case (fresh i doc vault)
  then show ?case by (simp add: newSession_def isDirty_def)
next
  case (event s e s')
  then have "session_ok s'" by (intro session_ok_step [of s e s']) (simp_all add: session_ok_def)
  then show ?case by (simp add: session_ok_def)
qed

theorem session_invariant_witness:
  "ssState (deliver EvConflict (freshSession [] [] [])) = ConflictState
   \<and> distinct (ssApplied (deliver EvConflict (freshSession [] [] [])))"
proof -
  have "reachable_session (markState ConflictState (freshSession [] [] []))"
    by (rule event [OF fresh, of EvConflict]) (simp add: session_defs)
  from session_invariant [OF this] show ?thesis by (simp add: deliver_def session_defs)
qed

section \<open>Remote updates may come twice and in any order\<close>

definition remote_for :: "session \<Rightarrow> doc_update \<Rightarrow> bool" where
  "remote_for s u \<longleftrightarrow> upSource u = Remote \<and> upDocument u = ssDocument s"

lemma deliver_remote:
  "remote_for s u \<Longrightarrow> deliver (EvRemote u) s =
     (if upId u \<in> set (ssApplied s) then s
      else s\<lparr>ssApplied := ssApplied s @ [upId u], ssVersion := ssVersion s + 1,
             ssState := (if isDirty s then ssState s else InSync)\<rparr>)"
  by (simp add: deliver_def session_defs remote_for_def)

lemma deliver_document [simp]: "ssDocument (deliver e s) = ssDocument s"
  by (cases e) (auto simp: deliver_def session_defs Let_def)

lemma remote_for_deliver [simp]: "remote_for (deliver e s) u = remote_for s u"
  by (simp add: remote_for_def)

text \<open>The session after the updates with the ids \<open>is\<close> have come.\<close>

definition after_remote :: "jsstr list \<Rightarrow> session \<Rightarrow> session" where
  "after_remote xs s = (let new = filter (\<lambda>x. x \<notin> set (ssApplied s)) (setOf xs)
     in s\<lparr>ssApplied := ssApplied s @ new, ssVersion := ssVersion s + length new,
          ssState := (if isDirty s \<or> new = [] then ssState s else InSync)\<rparr>)"

lemma setOf_snoc: "setOf (xs @ [x]) = (if x \<in> set xs then setOf xs else setOf xs @ [x])"
  by (simp add: setOf_def setAdd_def set_fold_setAdd)

lemma deliver_remotes:
  "\<forall>u \<in> set us. remote_for s u \<Longrightarrow> fold (\<lambda>u. deliver (EvRemote u)) us s = after_remote (map upId us) s"
proof (induction us rule: rev_induct)
  case Nil
  then show ?case by (simp add: after_remote_def setOf_def)
next
  case (snoc u us)
  then have "remote_for (after_remote (map upId us) s) u"
    by (simp add: remote_for_def after_remote_def Let_def)
  then show ?case using snoc
    by (auto simp: deliver_remote after_remote_def Let_def isDirty_def setOf_snoc)
qed

text \<open>Two sets with the same values have the same elements, in some order.\<close>

lemma mset_setOf: "set xs = set ys \<Longrightarrow> mset (setOf xs) = mset (setOf ys)"
  using set_eq_iff_mset_eq_distinct [of "setOf xs" "setOf ys"] by simp

definition deliverAll :: "doc_update list \<Rightarrow> session \<Rightarrow> session" where
  "deliverAll us s = fold (\<lambda>u. deliver (EvRemote u)) us s"

text \<open>C23: remote updates may be delivered several times and in any order: two deliveries of
  updates with the same ids leave the session in the same state, up to the order in which the ids
  were seen.\<close>

theorem remote_delivery_order:
  assumes "\<forall>u \<in> set us \<union> set vs. upSource u = Remote \<and> upDocument u = ssDocument s"
    and "upId ` set us = upId ` set vs"
  shows "mset (ssApplied (deliverAll us s)) = mset (ssApplied (deliverAll vs s))
    \<and> (deliverAll us s)\<lparr>ssApplied := []\<rparr> = (deliverAll vs s)\<lparr>ssApplied := []\<rparr>"
proof -
  define new where "new xs = filter (\<lambda>x. x \<notin> set (ssApplied s)) (setOf xs)" for xs
  have m: "mset (new (map upId us)) = mset (new (map upId vs))"
    using mset_setOf [of "map upId us" "map upId vs"] assms(2) by (simp add: new_def)
  then have l: "length (new (map upId us)) = length (new (map upId vs))" by (metis size_mset)
  then have e: "new (map upId us) = [] \<longleftrightarrow> new (map upId vs) = []" by (metis length_0_conv)
  have "deliverAll us s = after_remote (map upId us) s" "deliverAll vs s = after_remote (map upId vs) s"
    unfolding deliverAll_def using assms(1) by (auto intro!: deliver_remotes simp: remote_for_def)
  then show ?thesis using m l e by (simp add: after_remote_def Let_def flip: new_def)
qed

theorem remote_delivery_order_witness:
  "let u = \<lparr>upId = js ''u'', upDocument = [], upSource = Remote, upPayload = [], upAt = 0\<rparr>;
       v = u\<lparr>upId := js ''v''\<rparr>; s = freshSession [] [] []
   in mset (ssApplied (deliverAll [u, v] s)) = mset (ssApplied (deliverAll [v, u, v] s))
      \<and> (deliverAll [u, v] s)\<lparr>ssApplied := []\<rparr> = (deliverAll [v, u, v] s)\<lparr>ssApplied := []\<rparr>"
  unfolding Let_def by (rule remote_delivery_order) (auto simp: newSession_def)

section \<open>The name of a document is the end of its path\<close>

definition named_by_path :: "document \<Rightarrow> bool" where
  "named_by_path d \<longleftrightarrow> dcName d = afterSlash (dcPath d)"

lemma parentPath_afterSlash: "parentPath p @ afterSlash p = p"
  unfolding parentPath_def afterSlash_def
  by (metis rev_append rev_rev_ident takeWhile_dropWhile_id)

lemma afterSlash_free: "slash \<notin> set (afterSlash p)"
  unfolding afterSlash_def by (auto dest: set_takeWhileD)

lemma afterSlash_parent: "slash \<notin> set n \<Longrightarrow> afterSlash (parentPath p @ n) = n"
  unfolding afterSlash_def parentPath_def
proof -
  assume n: "slash \<notin> set n"
  define r where "r = dropWhile (\<lambda>c. c \<noteq> slash) (rev p)"
  have "takeWhile (\<lambda>c. c \<noteq> slash) r = []"
    using hd_dropWhile [of "\<lambda>c. c \<noteq> slash" "rev p"] unfolding r_def [symmetric]
    by (cases r) auto
  then have "takeWhile (\<lambda>c. c \<noteq> slash) (rev n @ r) = rev n"
    using n by (subst takeWhile_append2) auto
  then show "rev (takeWhile (\<lambda>c. c \<noteq> slash) (rev (rev r @ n))) = n" by simp
qed

lemma afterSlash_none: "slash \<notin> set p \<Longrightarrow> afterSlash p = p"
  using afterSlash_parent [of p "[]"] by (simp add: parentPath_def)

text \<open>A document is named by the end of its path after every move, and after a rename exactly
  when the new name has no slash; the other operations do not touch name and path.\<close>

theorem document_named_by_path:
  assumes "named_by_path d"
  shows "(\<forall>p. moveTo p now d = Inr d' \<longrightarrow> named_by_path d')
    \<and> (\<forall>n. renameTo n now d = Inr d' \<longrightarrow> (named_by_path d' \<longleftrightarrow> slash \<notin> set (trim n)))
    \<and> named_by_path (setDocContent c now d) \<and> named_by_path (markDeleted now d) \<and> named_by_path (restore now d)"
proof -
  have "named_by_path d'" if "moveTo p now d = Inr d'" for p
    using that by (auto simp: moveTo_def trimNonEmpty_def Let_def named_by_path_def afterSlash_none
        split: if_splits)
  moreover have "named_by_path d' \<longleftrightarrow> slash \<notin> set (trim n)" if "renameTo n now d = Inr d'" for n
  proof -
    from that have d': "dcName d' = trim n" "dcPath d' = parentPath (dcPath d) @ trim n"
      by (auto simp: renameTo_def trimNonEmpty_def Let_def split: if_splits)
    show ?thesis
      using afterSlash_parent [of "trim n" "dcPath d"] afterSlash_free [of "dcPath d'"] d'
      by (auto simp: named_by_path_def)
  qed
  ultimately show ?thesis
    using assms by (simp add: named_by_path_def setDocContent_def markDeleted_def restore_def)
qed

theorem document_named_by_path_witness:
  "named_by_path \<lparr>dcId = [], dcName = js ''b'', dcPath = js ''a/b'', dcTitle = [], dcContent = [],
     dcDeleted = True, dcUpdated = 1\<rparr>"
  using document_named_by_path [of "\<lparr>dcId = [], dcName = js ''b'', dcPath = js ''a/b'', dcTitle = [],
     dcContent = [], dcDeleted = False, dcUpdated = 0\<rparr>" 1 _ "[]"]
  by (simp add: named_by_path_def afterSlash_def js_def markDeleted_def)

section \<open>Vaults and accounts are keyed stores\<close>

lemma map_of_update: "map_of (AList.update k v al) j = (if k = j then Some v else map_of al j)"
  by (simp add: update_conv')

lemma map_of_delete: "map_of (AList.delete k al) j = (if k = j then None else map_of al j)"
  by (simp add: delete_conv')

interpretation vault_store: keyed_store dcId addDocument removeDocument getDocument
  by unfold_locales (simp_all add: addDocument_def removeDocument_def getDocument_def map_of_update map_of_delete)

interpretation account_store: keyed_store vtId addVault removeVault getVault
  by unfold_locales (simp_all add: addVault_def removeVault_def getVault_def map_of_update map_of_delete)


definition vaultStep :: "(jsstr, document) store_op \<Rightarrow> vault \<Rightarrow> vault" where
  "vaultStep x v = (case x of StAdd d \<Rightarrow> addDocument d v | StRemove i \<Rightarrow> removeDocument i v)"

lemma vaultStep_apply: "vaultStep = vault_store.apply_op"
  by (rule ext)+ (simp add: vaultStep_def vault_store.apply_op_def)

text \<open>Every document is filed once, under its own id.\<close>

definition filed :: "vault \<Rightarrow> bool" where
  "filed v \<longleftrightarrow> distinct (map fst (vtDocuments v)) \<and> (\<forall>(k, d) \<in> set (vtDocuments v). k = dcId d)"

lemma set_update_mem: "(k, d) \<in> set (AList.update i x al) \<Longrightarrow> (k, d) = (i, x) \<or> (k, d) \<in> set al"
  by (induction al) (auto split: if_splits)

lemma set_delete_mem: "(k, d) \<in> set (AList.delete i al) \<Longrightarrow> (k, d) \<in> set al"
  by (induction al) (auto split: if_splits)

lemma filed_vaultStep: "filed v \<Longrightarrow> filed (vaultStep x v)"
  unfolding filed_def vaultStep_def addDocument_def removeDocument_def
  by (auto simp: distinct_update distinct_delete split: store_op.splits dest!: set_update_mem set_delete_mem)

lemma filed_fold: "filed v \<Longrightarrow> filed (fold vaultStep xs v)"
  by (induction xs arbitrary: v) (auto simp: filed_vaultStep)

lemma filed_documents: "filed v \<Longrightarrow> d \<in> snd ` set (vtDocuments v) \<longleftrightarrow> getDocument (dcId d) v = Some d"
  unfolding filed_def getDocument_def by force

lemma filed_ids: "filed v \<Longrightarrow> map (dcId \<circ> snd) (vtDocuments v) = map fst (vtDocuments v)"
  unfolding filed_def by (auto simp: case_prod_beta)

text \<open>After any sequence of additions and removals on an empty vault, the list of documents
  holds the document last added under each id that was not removed since, once, and is sorted by
  path.\<close>

theorem listDocuments_lists:
  assumes "newVault i name mode conn sync [] = Inr v" "preorder_on_set le UNIV"
  shows "set (listDocuments le (fold vaultStep xs v))
      = toMeta ` {d. lastWrite dcId (dcId d) xs = Some (Some d)}
    \<and> distinct (map dmId (listDocuments le (fold vaultStep xs v)))
    \<and> sorted_wrt (\<lambda>a b. le (dmPath a) (dmPath b)) (listDocuments le (fold vaultStep xs v))"
proof -
  define w where "w = fold vaultStep xs v"
  have v: "vtDocuments v = []" using assms(1) by (auto simp: newVault_def split: sum.splits)
  have f: "filed w" unfolding w_def by (rule filed_fold) (simp add: filed_def v)
  have docs: "snd ` set (vtDocuments w) = {d. lastWrite dcId (dcId d) xs = Some (Some d)}"
    using filed_documents [OF f] vault_store.get_from_empty [of _ v xs]
    by (auto simp: w_def vaultStep_apply getDocument_def v)
  have "set (listDocuments le w) = toMeta ` snd ` set (vtDocuments w)"
    by (simp add: listDocuments_def image_image)
  moreover have "mset (map dmId (listDocuments le w)) = mset (map fst (vtDocuments w))"
    unfolding filed_ids [OF f, symmetric] mset_map
    by (simp add: listDocuments_def toMeta_def multiset.map_comp comp_def)
  then have "distinct (map dmId (listDocuments le w))"
    using f mset_eq_imp_distinct_iff unfolding filed_def by blast
  moreover have "preorder_on_set (\<lambda>a b. le (dmPath a) (dmPath b)) UNIV"
    using assms(2) unfolding preorder_on_set_def transp_on_def by blast
  then have "sorted_wrt (\<lambda>a b. le (dmPath a) (dmPath b)) (listDocuments le w)"
    unfolding listDocuments_def by (rule sorted_sortBy) simp
  ultimately show ?thesis using docs unfolding w_def by simp
qed

theorem listDocuments_lists_witness:
  "\<exists>v. newVault [] (js ''v'') None None None [] = Inr v \<and> distinct (map dmId (listDocuments (\<le>) (fold vaultStep [] v)))"
proof -
  obtain v where v: "newVault [] (js ''v'') None None None [] = Inr v"
    by (simp add: newVault_def trimNonEmpty_def trim_def js_def isSpace_def)
  have "preorder_on_set ((\<le>) :: jsstr \<Rightarrow> jsstr \<Rightarrow> bool) UNIV"
    by (auto simp: preorder_on_set_def transp_on_def)
  from listDocuments_lists [OF v this] v show ?thesis by blast
qed

end
