(* ===== verification/Doubles.thy ===== *)
theory Doubles
  imports Complex_Main Prelude
begin

text \<open>
  The numbers of JavaScript: IEEE 754 double precision, rounded to nearest even, with signed zeros,
  infinities and NaN.  A finite number is its sign and its magnitude as a rational; arithmetic is
  exact on rationals and then rounded.  The text of a number and the number of a text are those of
  \<open>String(n)\<close> and \<open>Number(s)\<close>.
\<close>

section \<open>Values and rounding\<close>

datatype dbl = NaN | Infinite bool | Finite bool rat

function nlog2 :: "int \<Rightarrow> nat" where
  "nlog2 n = (if n < 2 then 0 else Suc (nlog2 (n div 2)))"
  by pat_completeness auto
termination
  by (relation "measure nat") auto

declare nlog2.simps [simp del]

definition pow2 :: "int \<Rightarrow> rat" where
  "pow2 e = (if 0 \<le> e then 2 ^ nat e else 1 / 2 ^ nat (- e))"

text \<open>The binary exponent of a positive rational: \<open>pow2 (flog2 q) \<le> q < 2 * pow2 (flog2 q)\<close>.\<close>

definition flog2 :: "rat \<Rightarrow> int" where
  "flog2 q = (case quotient_of q of (n, d) \<Rightarrow>
     let e = int (nlog2 n) - int (nlog2 d) in if pow2 e \<le> q then e else e - 1)"

definition roundHalfEven :: "rat \<Rightarrow> int" where
  "roundHalfEven q = (let f = \<lfloor>q\<rfloor>; r = q - of_int f
     in if r < 1 / 2 then f else if 1 / 2 < r then f + 1 else if even f then f else f + 1)"

text \<open>A positive magnitude rounded to 53 bits, or to a multiple of the least subnormal.\<close>

definition ulpExp :: "rat \<Rightarrow> int" where
  "ulpExp q = max (flog2 q - 52) (- 1074)"

definition roundMag :: "rat \<Rightarrow> rat" where
  "roundMag q = of_int (roundHalfEven (q / pow2 (ulpExp q))) * pow2 (ulpExp q)"

definition mkDbl :: "bool \<Rightarrow> rat \<Rightarrow> dbl" where
  "mkDbl s q = (if q = 0 then Finite s 0
     else let r = roundMag q in if pow2 1024 \<le> r then Infinite s else Finite s r)"

text \<open>The double nearest to a rational; \<open>z\<close> is the sign of a zero result.\<close>

definition ofRat :: "bool \<Rightarrow> rat \<Rightarrow> dbl" where
  "ofRat z r = (if r = 0 then Finite z 0 else mkDbl (r < 0) \<bar>r\<bar>)"

definition ofInt :: "int \<Rightarrow> dbl" where
  "ofInt n = ofRat False (of_int n)"

abbreviation dzero :: dbl where "dzero \<equiv> Finite False 0"

definition signed :: "bool \<Rightarrow> rat \<Rightarrow> rat" where
  "signed s q = (if s then - q else q)"

section \<open>Arithmetic\<close>

fun dneg :: "dbl \<Rightarrow> dbl" where
  "dneg NaN = NaN"
| "dneg (Infinite s) = Infinite (\<not> s)"
| "dneg (Finite s q) = Finite (\<not> s) q"

fun dadd :: "dbl \<Rightarrow> dbl \<Rightarrow> dbl" where
  "dadd (Finite s p) (Finite t q) = ofRat (s \<and> t) (signed s p + signed t q)"
| "dadd (Infinite s) (Infinite t) = (if s = t then Infinite s else NaN)"
| "dadd (Infinite s) (Finite t q) = Infinite s"
| "dadd (Finite s p) (Infinite t) = Infinite t"
| "dadd _ _ = NaN"

definition dsub :: "dbl \<Rightarrow> dbl \<Rightarrow> dbl" where
  "dsub a b = dadd a (dneg b)"

fun dmul :: "dbl \<Rightarrow> dbl \<Rightarrow> dbl" where
  "dmul (Finite s p) (Finite t q) = mkDbl (s \<noteq> t) (p * q)"
| "dmul (Infinite s) (Infinite t) = Infinite (s \<noteq> t)"
| "dmul (Infinite s) (Finite t q) = (if q = 0 then NaN else Infinite (s \<noteq> t))"
| "dmul (Finite s p) (Infinite t) = (if p = 0 then NaN else Infinite (s \<noteq> t))"
| "dmul _ _ = NaN"

fun ddiv :: "dbl \<Rightarrow> dbl \<Rightarrow> dbl" where
  "ddiv (Finite s p) (Finite t q) =
     (if q = 0 then (if p = 0 then NaN else Infinite (s \<noteq> t)) else mkDbl (s \<noteq> t) (p / q))"
| "ddiv (Infinite s) (Finite t q) = Infinite (s \<noteq> t)"
| "ddiv (Finite s p) (Infinite t) = Finite (s \<noteq> t) 0"
| "ddiv _ _ = NaN"

text \<open>\<open>a % b\<close>: the sign of the dividend, exact.\<close>

fun dmod :: "dbl \<Rightarrow> dbl \<Rightarrow> dbl" where
  "dmod (Finite s p) (Finite t q) = (if q = 0 then NaN else Finite s (p - q * of_int \<lfloor>p / q\<rfloor>))"
| "dmod (Finite s p) (Infinite t) = Finite s p"
| "dmod _ _ = NaN"

fun dlt :: "dbl \<Rightarrow> dbl \<Rightarrow> bool" where
  "dlt (Finite s p) (Finite t q) = (signed s p < signed t q)"
| "dlt (Infinite s) (Infinite t) = (s \<and> \<not> t)"
| "dlt (Infinite s) (Finite t q) = s"
| "dlt (Finite s p) (Infinite t) = (\<not> t)"
| "dlt _ _ = False"

fun deq :: "dbl \<Rightarrow> dbl \<Rightarrow> bool" where
  "deq (Finite s p) (Finite t q) = (signed s p = signed t q)"
| "deq (Infinite s) (Infinite t) = (s = t)"
| "deq _ _ = False"

definition dle :: "dbl \<Rightarrow> dbl \<Rightarrow> bool" where
  "dle a b \<longleftrightarrow> dlt a b \<or> deq a b"

fun isFinite :: "dbl \<Rightarrow> bool" where
  "isFinite (Finite s q) = True"
| "isFinite _ = False"

fun isInteger :: "dbl \<Rightarrow> bool" where
  "isInteger (Finite s q) = (q = of_int \<lfloor>q\<rfloor>)"
| "isInteger _ = False"

text \<open>\<open>Math.trunc\<close>, \<open>Math.floor\<close>, \<open>Math.ceil\<close>, \<open>Math.round\<close>, \<open>Math.abs\<close> and \<open>Math.sign\<close>.\<close>

fun dtrunc :: "dbl \<Rightarrow> dbl" where
  "dtrunc (Finite s q) = Finite s (of_int \<lfloor>q\<rfloor>)"
| "dtrunc d = d"

fun dfloor :: "dbl \<Rightarrow> dbl" where
  "dfloor (Finite s q) = Finite s (of_int (if s then \<lceil>q\<rceil> else \<lfloor>q\<rfloor>))"
| "dfloor d = d"

fun dceil :: "dbl \<Rightarrow> dbl" where
  "dceil (Finite s q) = Finite s (of_int (if s then \<lfloor>q\<rfloor> else \<lceil>q\<rceil>))"
| "dceil d = d"

fun dround :: "dbl \<Rightarrow> dbl" where
  "dround (Finite s q) = Finite s (of_int (if s then \<lceil>q - 1 / 2\<rceil> else \<lfloor>q + 1 / 2\<rfloor>))"
| "dround d = d"

fun dabs :: "dbl \<Rightarrow> dbl" where
  "dabs (Finite s q) = Finite False q"
| "dabs (Infinite s) = Infinite False"
| "dabs NaN = NaN"

fun dsign :: "dbl \<Rightarrow> dbl" where
  "dsign (Finite s q) = (if q = 0 then Finite s 0 else Finite s 1)"
| "dsign (Infinite s) = Finite s 1"
| "dsign NaN = NaN"

text \<open>The integer of a number, for positions: NaN counts as 0 and an infinity is cut at the ends.\<close>

fun toIntIn :: "int \<Rightarrow> int \<Rightarrow> dbl \<Rightarrow> int" where
  "toIntIn lo hi NaN = max lo (min hi 0)"
| "toIntIn lo hi (Infinite s) = (if s then lo else hi)"
| "toIntIn lo hi (Finite s q) = max lo (min hi (if s then - \<lfloor>q\<rfloor> else \<lfloor>q\<rfloor>))"

section \<open>Numbers as text\<close>

definition isDigit :: "cu \<Rightarrow> bool" where
  "isDigit c \<longleftrightarrow> 48 \<le> c \<and> c \<le> 57"

definition digitVal :: "cu \<Rightarrow> int" where
  "digitVal c = uint c - 48"

definition intOfDigits :: "jsstr \<Rightarrow> int" where
  "intOfDigits s = foldl (\<lambda>n c. 10 * n + digitVal c) 0 s"

function digitsOf :: "int \<Rightarrow> jsstr" where
  "digitsOf n = (if n < 10 then [of_int (48 + n)] else digitsOf (n div 10) @ [of_int (48 + n mod 10)])"
  by pat_completeness auto
termination
  by (relation "measure nat") auto

declare digitsOf.simps [simp del]

definition pow10 :: "int \<Rightarrow> rat" where
  "pow10 e = (if 0 \<le> e then 10 ^ nat e else 1 / 10 ^ nat (- e))"

text \<open>The exponent part of a decimal literal; \<open>None\<close> when the text is not one.\<close>

definition exponentOf :: "jsstr \<Rightarrow> int option" where
  "exponentOf s =
     (case s of
        [] \<Rightarrow> Some 0
      | c # r \<Rightarrow>
          if c \<noteq> 101 \<and> c \<noteq> 69 then None
          else let neg = (r \<noteq> [] \<and> hd r = 45); d = (if r \<noteq> [] \<and> (hd r = 45 \<or> hd r = 43) then tl r else r)
               in if d = [] \<or> \<not> list_all isDigit d then None
                  else Some (if neg then - intOfDigits d else intOfDigits d))"

definition decimalOf :: "jsstr \<Rightarrow> rat option" where
  "decimalOf s =
     (let a = takeWhile isDigit s; r = dropWhile isDigit s;
          b = (if r \<noteq> [] \<and> hd r = 46 then takeWhile isDigit (tl r) else []);
          r2 = (if r \<noteq> [] \<and> hd r = 46 then dropWhile isDigit (tl r) else r)
      in if a = [] \<and> b = [] then None
         else map_option (\<lambda>e. of_int (intOfDigits (a @ b)) * pow10 (e - int (length b))) (exponentOf r2))"

definition radixDigit :: "int \<Rightarrow> cu \<Rightarrow> int option" where
  "radixDigit b c =
     (let v = (if isDigit c then digitVal c
               else if 97 \<le> c \<and> c \<le> 102 then uint c - 87
               else if 65 \<le> c \<and> c \<le> 70 then uint c - 55 else 99)
      in if v < b then Some v else None)"

definition radixOf :: "int \<Rightarrow> jsstr \<Rightarrow> rat option" where
  "radixOf b s = (if s = [] \<or> list_ex (\<lambda>c. radixDigit b c = None) s then None
     else Some (of_int (foldl (\<lambda>n c. b * n + the (radixDigit b c)) 0 s)))"

text \<open>\<open>Number(s)\<close>.\<close>

definition numberOf :: "jsstr \<Rightarrow> dbl" where
  "numberOf text =
     (let s = trim text; pre = take 2 s; orNaN = (\<lambda>neg x. case x of None \<Rightarrow> NaN | Some q \<Rightarrow> mkDbl neg q)
      in if s = [] then dzero
         else if pre = js ''0x'' \<or> pre = js ''0X'' then orNaN False (radixOf 16 (drop 2 s))
         else if pre = js ''0o'' \<or> pre = js ''0O'' then orNaN False (radixOf 8 (drop 2 s))
         else if pre = js ''0b'' \<or> pre = js ''0B'' then orNaN False (radixOf 2 (drop 2 s))
         else let neg = (hd s = 45); u = (if hd s = 45 \<or> hd s = 43 then tl s else s)
              in if u = js ''Infinity'' then Infinite neg else orNaN neg (decimalOf u))"

text \<open>The shortest digits that read back as the number, the nearest ones among them, and the
  decimal exponent: the magnitude is about \<open>0.digits * 10 ^ n\<close>.\<close>

definition flog10 :: "rat \<Rightarrow> int" where
  "flog10 q = (case quotient_of q of (n, d) \<Rightarrow>
     let e = int (length (digitsOf n)) - int (length (digitsOf d))
     in if pow10 e \<le> q then e else e - 1)"

definition digitsTry :: "rat \<Rightarrow> int \<Rightarrow> nat \<Rightarrow> int option" where
  "digitsTry q n k =
     (let x = q / pow10 (n - int k); f = \<lfloor>x\<rfloor>;
          order = (if x - of_int f \<le> 1 / 2 then [f, f + 1] else [f + 1, f])
      in find (\<lambda>s. 10 ^ (k - 1) \<le> s \<and> s < 10 ^ k
           \<and> mkDbl False (of_int s * pow10 (n - int k)) = Finite False q) order)"

definition shortestDigits :: "rat \<Rightarrow> int \<times> nat \<times> int" where
  "shortestDigits q =
     (let n = flog10 q + 1
      in if mkDbl False (pow10 n) = Finite False q then (1, 1, n + 1)
         else case find (\<lambda>k. digitsTry q n k \<noteq> None) [1..<18] of
           None \<Rightarrow> (0, 1, n)
         | Some k \<Rightarrow> (the (digitsTry q n k), k, n))"

definition zeros :: "nat \<Rightarrow> jsstr" where
  "zeros n = replicate n 48"

definition magText :: "rat \<Rightarrow> jsstr" where
  "magText q =
     (case shortestDigits q of (s, k, n) \<Rightarrow>
        let d = digitsOf s
        in if int k \<le> n \<and> n \<le> 21 then d @ zeros (nat (n - int k))
           else if 0 < n \<and> n \<le> 21 then take (nat n) d @ [46] @ drop (nat n) d
           else if - 6 < n \<and> n \<le> 0 then [48, 46] @ zeros (nat (- n)) @ d
           else take 1 d @ (if k = 1 then [] else 46 # drop 1 d)
                @ [101, (if 0 < n then 43 else 45)] @ digitsOf \<bar>n - 1\<bar>)"

text \<open>\<open>String(n)\<close>.\<close>

definition numText :: "dbl \<Rightarrow> jsstr" where
  "numText d =
     (case d of
        NaN \<Rightarrow> js ''NaN''
      | Infinite s \<Rightarrow> (if s then [45] else []) @ js ''Infinity''
      | Finite s q \<Rightarrow> (if q = 0 then [48] else (if s then [45] else []) @ magText q))"

section \<open>Facts about rounding\<close>

text \<open>A number of the program: its magnitude is a multiple of the least subnormal.\<close>

definition isDouble :: "dbl \<Rightarrow> bool" where
  "isDouble d = (case d of Finite s q \<Rightarrow> 0 \<le> q \<and> of_int \<lfloor>q / pow2 (- 1074)\<rfloor> * pow2 (- 1074) = q | _ \<Rightarrow> True)"

lemma pow2_pos [simp]: "0 < pow2 e"
  by (simp add: pow2_def)

lemma pow2_Suc: "pow2 (e + 1) = 2 * pow2 e"
proof -
  consider "0 \<le> e" | "e = - 1" | "e < - 1" by linarith
  then show ?thesis
  proof cases
    case 1
    then show ?thesis by (simp add: pow2_def nat_add_distrib)
  next
    case 3
    then have "nat (- e) = Suc (nat (- e - 1))" by simp
    then show ?thesis using 3 by (simp add: pow2_def algebra_simps)
  qed (simp add: pow2_def)
qed

lemma pow2_mono: "d \<le> e \<Longrightarrow> pow2 d \<le> pow2 e"
proof (induction "nat (e - d)" arbitrary: e)
  case (Suc n)
  then have "pow2 d \<le> pow2 (e - 1)" by (intro Suc.hyps(1)) auto
  also have "\<dots> \<le> pow2 (e - 1 + 1)" unfolding pow2_Suc using pow2_pos [of "e - 1"] by simp
  finally show ?case by simp
qed simp

lemma pow2_nat: "pow2 (int n) = 2 ^ n"
  by (simp add: pow2_def)

lemma pow2_diff: "pow2 (int m - int n) = 2 ^ m / 2 ^ n"
proof (cases "n \<le> m")
  case True
  then have "nat (int m - int n) = m - n" by simp
  then show ?thesis using True by (simp add: pow2_def power_diff)
next
  case False
  then have "nat (- (int m - int n)) = n - m" by simp
  then show ?thesis using False by (simp add: pow2_def power_diff)
qed

lemma nlog2_bounds: "0 < n \<Longrightarrow> 2 ^ nlog2 n \<le> n \<and> n < 2 ^ Suc (nlog2 n)"
proof (induction n rule: nlog2.induct)
  case (1 n)
  show ?case
  proof (cases "n < 2")
    case False
    then have "2 ^ nlog2 (n div 2) \<le> n div 2 \<and> n div 2 < 2 ^ Suc (nlog2 (n div 2))"
      using 1 by auto
    then show ?thesis using False by (auto simp: nlog2.simps [of n])
  qed (use 1 in \<open>simp add: nlog2.simps [of n]\<close>)
qed

lemma flog2_le:
  assumes "0 < q"
  shows "pow2 (flog2 q) \<le> q"
proof -
  obtain n d where nd: "quotient_of q = (n, d)" by force
  then have d: "0 < d" and q: "q = of_int n / of_int d"
    by (simp_all add: quotient_of_denom_pos quotient_of_div)
  then have n: "0 < n" using assms by (simp add: zero_less_divide_iff)
  define e where "e = int (nlog2 n) - int (nlog2 d)"
  have "of_int (2 ^ nlog2 n) \<le> (of_int n :: rat)" "(of_int d :: rat) < of_int (2 ^ Suc (nlog2 d))"
    using nlog2_bounds [OF n] nlog2_bounds [OF d] by (simp_all only: of_int_le_iff of_int_less_iff)
  then have "2 ^ nlog2 n / 2 ^ Suc (nlog2 d) \<le> q"
    unfolding q using n d by (intro frac_le) simp_all
  moreover have "pow2 (e - 1) = 2 ^ nlog2 n / 2 ^ Suc (nlog2 d)"
    using pow2_diff [of "nlog2 n" "Suc (nlog2 d)"] by (simp add: e_def algebra_simps)
  ultimately show ?thesis by (simp add: flog2_def nd Let_def flip: e_def)
qed

lemma roundHalfEven_ge_1: "1 \<le> x \<Longrightarrow> 1 \<le> roundHalfEven x"
  by (auto simp: roundHalfEven_def Let_def le_floor_iff)

lemma roundHalfEven_nonneg: "0 \<le> x \<Longrightarrow> 0 \<le> roundHalfEven x"
  by (auto simp: roundHalfEven_def Let_def)

lemma roundMag_pos:
  assumes "pow2 (- 1074) \<le> q"
  shows "0 < roundMag q"
proof -
  have q: "0 < q" using assms pow2_pos [of "- 1074"] by linarith
  have "pow2 (ulpExp q) \<le> q"
    using assms flog2_le [OF q] pow2_mono [of "flog2 q - 52" "flog2 q"]
    by (auto simp: ulpExp_def max_def split: if_splits)
  then have "1 \<le> roundHalfEven (q / pow2 (ulpExp q))"
    by (intro roundHalfEven_ge_1) (simp add: le_divide_eq)
  then show ?thesis by (simp add: roundMag_def zero_less_mult_iff)
qed

lemma roundMag_nonneg: "0 \<le> q \<Longrightarrow> 0 \<le> roundMag q"
  by (simp add: roundMag_def roundHalfEven_nonneg less_imp_le)

lemma pow2_add: "pow2 (d + int n) = 2 ^ n * pow2 d"
proof (induction n)
  case (Suc n)
  have "d + int (Suc n) = (d + int n) + 1" by simp
  then show ?case using Suc by (simp only: pow2_Suc) simp
qed simp

lemma isDouble_Finite: "isDouble (Finite s q) \<longleftrightarrow> (\<exists>k \<ge> 0. q = of_int k * pow2 (- 1074))"
proof
  assume "isDouble (Finite s q)"
  then show "\<exists>k \<ge> 0. q = of_int k * pow2 (- 1074)"
    by (intro exI [of _ "\<lfloor>q / pow2 (- 1074)\<rfloor>"]) (simp add: isDouble_def less_imp_le)
next
  assume "\<exists>k \<ge> 0. q = of_int k * pow2 (- 1074)"
  then obtain k :: int where k: "0 \<le> k" "q = of_int k * pow2 (- 1074)" by blast
  then have "q / pow2 (- 1074) = of_int k" by (simp add: less_imp_neq [THEN not_sym])
  then show "isDouble (Finite s q)" using k by (simp add: isDouble_def less_imp_le)
qed

lemma isDouble_least: "isDouble (Finite s q) \<Longrightarrow> q \<noteq> 0 \<Longrightarrow> pow2 (- 1074) \<le> q"
proof -
  assume "isDouble (Finite s q)" "q \<noteq> 0"
  then obtain k :: int where k: "0 < k" "q = of_int k * pow2 (- 1074)"
    unfolding isDouble_Finite by (metis less_le mult_zero_left of_int_0)
  then have "1 \<le> (of_int k :: rat)" by simp
  then have "1 * pow2 (- 1074) \<le> of_int k * pow2 (- 1074)"
    by (rule mult_right_mono) (simp add: less_imp_le)
  then show ?thesis by (simp add: k(2))
qed

lemma isDouble_roundMag:
  assumes "0 \<le> q"
  shows "isDouble (Finite s (roundMag q))"
proof -
  define e where "e = ulpExp q"
  have "0 \<le> roundHalfEven (q / pow2 e)"
    using assms by (intro roundHalfEven_nonneg) (simp add: less_imp_le)
  moreover have "- 1074 \<le> e" by (simp add: e_def ulpExp_def)
  then have "e = - 1074 + int (nat (e + 1074))" by simp
  then have "pow2 e = 2 ^ nat (e + 1074) * pow2 (- 1074)" by (metis pow2_add)
  then have "roundMag q = of_int (roundHalfEven (q / pow2 e) * 2 ^ nat (e + 1074)) * pow2 (- 1074)"
    by (simp add: roundMag_def flip: e_def)
  ultimately show ?thesis unfolding isDouble_Finite by (metis mult_nonneg_nonneg zero_le_numeral zero_le_power)
qed

lemma isDouble_zero [simp]: "isDouble (Finite s 0)"
  unfolding isDouble_Finite by (rule exI [of _ 0]) simp

lemma isDouble_mkDbl: "0 \<le> q \<Longrightarrow> isDouble (mkDbl s q)"
  using isDouble_roundMag [of q s] by (auto simp: mkDbl_def Let_def) (simp add: isDouble_def)

text \<open>The sign of a difference: swapping the operands negates it, and \<open>0 - x\<close> has the sign
  opposite to that of \<open>x\<close>.\<close>

lemma pow2_le_pos: "pow2 e \<le> r \<Longrightarrow> 0 < r"
  by (rule less_le_trans [OF pow2_pos])

lemma dlt_mkDbl_zero: "0 \<le> q \<Longrightarrow> dlt (mkDbl s q) dzero \<longleftrightarrow> s \<and> (q \<noteq> 0 \<and> 0 < roundMag q)"
  using roundMag_nonneg [of q] by (auto simp: mkDbl_def Let_def signed_def dest: pow2_le_pos)

lemma dlt_zero_mkDbl: "0 \<le> q \<Longrightarrow> dlt dzero (mkDbl s q) \<longleftrightarrow> \<not> s \<and> (q \<noteq> 0 \<and> 0 < roundMag q)"
  using roundMag_nonneg [of q] by (auto simp: mkDbl_def Let_def signed_def dest: pow2_le_pos)

lemma deq_mkDbl_zero: "0 \<le> q \<Longrightarrow> deq (mkDbl s q) dzero \<longleftrightarrow> \<not> (q \<noteq> 0 \<and> 0 < roundMag q)"
  using roundMag_nonneg [of q] by (auto simp: mkDbl_def Let_def signed_def dest: pow2_le_pos)

lemma signed_not [simp]: "signed (\<not> s) q = - signed s q"
  by (simp add: signed_def)

lemma signed_0 [simp]: "signed s 0 = 0"
  by (simp add: signed_def)

lemma dsub_flip:
  "dlt (dsub b a) dzero \<longleftrightarrow> dlt dzero (dsub a b)" "dlt dzero (dsub b a) \<longleftrightarrow> dlt (dsub a b) dzero"
  "deq (dsub b a) dzero \<longleftrightarrow> deq (dsub a b) dzero"
proof -
  have *: "\<bar>signed s p - signed t q\<bar> = \<bar>signed t q - signed s p\<bar>" for s t p q by simp
  show "dlt (dsub b a) dzero \<longleftrightarrow> dlt dzero (dsub a b)" "dlt dzero (dsub b a) \<longleftrightarrow> dlt (dsub a b) dzero"
    "deq (dsub b a) dzero \<longleftrightarrow> deq (dsub a b) dzero"
    by (cases a; cases b; auto simp: dsub_def ofRat_def dlt_mkDbl_zero dlt_zero_mkDbl deq_mkDbl_zero abs_minus_commute)+
qed

lemma dsub_zero:
  assumes "isDouble l"
  shows "dlt (dsub dzero l) dzero \<longleftrightarrow> dlt dzero l" "dlt dzero (dsub dzero l) \<longleftrightarrow> dlt l dzero"
    "deq (dsub dzero l) dzero \<longleftrightarrow> deq l dzero" "deq dzero l \<longleftrightarrow> deq l dzero"
proof -
  have r: "0 < roundMag q" if "l = Finite s q" "q \<noteq> 0" for s q
    using assms that by (intro roundMag_pos isDouble_least [of s]) simp_all
  have q: "0 \<le> q" if "l = Finite s q" for s q
    using assms that by (simp add: isDouble_def)
  show "dlt (dsub dzero l) dzero \<longleftrightarrow> dlt dzero l" "dlt dzero (dsub dzero l) \<longleftrightarrow> dlt l dzero"
    "deq (dsub dzero l) dzero \<longleftrightarrow> deq l dzero" "deq dzero l \<longleftrightarrow> deq l dzero"
    using r q
    by (cases l; auto simp: dsub_def ofRat_def dlt_mkDbl_zero dlt_zero_mkDbl deq_mkDbl_zero signed_def)+
qed

text \<open>The sign of the difference of two finite numbers is that of the comparison.\<close>

lemma diff_double:
  assumes "isDouble (Finite s p)" "isDouble (Finite t q)"
  shows "isDouble (Finite u \<bar>signed s p - signed t q\<bar>)"
proof -
  obtain j k :: int where jk: "p = of_int j * pow2 (- 1074)" "q = of_int k * pow2 (- 1074)"
    using assms unfolding isDouble_Finite by blast
  define m where "m = (if s then - j else j) - (if t then - k else k)"
  have "signed s p - signed t q = of_int m * pow2 (- 1074)"
    by (simp add: jk m_def signed_def algebra_simps)
  then have "\<bar>signed s p - signed t q\<bar> = of_int \<bar>m\<bar> * pow2 (- 1074)"
    by (simp add: abs_mult less_imp_le)
  then show ?thesis unfolding isDouble_Finite by (metis abs_ge_zero)
qed

lemma dsub_sign:
  assumes "isDouble a" "isDouble b" "isFinite a" "isFinite b"
  shows "dlt (dsub a b) dzero \<longleftrightarrow> dlt a b" "dlt dzero (dsub a b) \<longleftrightarrow> dlt b a" "deq (dsub a b) dzero \<longleftrightarrow> deq a b"
proof -
  obtain s p where a: "a = Finite s p" using assms(3) by (cases a) auto
  obtain t q where b: "b = Finite t q" using assms(4) by (cases b) auto
  define r where "r = signed s p - signed t q"
  have r: "0 < roundMag \<bar>r\<bar>" if "r \<noteq> 0"
    using diff_double [of s p t q] assms that a b
    by (intro roundMag_pos isDouble_least [of undefined]) (auto simp: r_def)
  have d: "dsub a b = ofRat (s \<and> \<not> t) r" by (simp add: a b dsub_def r_def)
  have "dlt (dsub a b) dzero \<longleftrightarrow> r < 0" "dlt dzero (dsub a b) \<longleftrightarrow> 0 < r" "deq (dsub a b) dzero \<longleftrightarrow> r = 0"
    using r unfolding d by (auto simp: ofRat_def dlt_mkDbl_zero dlt_zero_mkDbl deq_mkDbl_zero signed_def)
  then show "dlt (dsub a b) dzero \<longleftrightarrow> dlt a b" "dlt dzero (dsub a b) \<longleftrightarrow> dlt b a" "deq (dsub a b) dzero \<longleftrightarrow> deq a b"
    by (auto simp: a b r_def)
qed

end
