(* ===== verification/FormulaSyntax.thy ===== *)
theory FormulaSyntax
  imports Doubles
begin

text \<open>
  The formula language of the bases (\<open>plugin-api/src/formula.ts\<close>): its tokens, its tree and its
  parser.  Unicode tables, the local collation, \<open>**\<close>, \<open>Math.sqrt\<close> and the parser of dates belong to
  the JavaScript engine and are the fields of \<open>host\<close>.  The methods of the parser call each other
  without a bound the type checker sees: they take fuel, \<open>None\<close> is running out of it.
\<close>

section \<open>What the engine provides\<close>

record host =
  hLetter :: "nat \<Rightarrow> bool"
  hNumeral :: "nat \<Rightarrow> bool"
  hLower :: "jsstr \<Rightarrow> jsstr"
  hUpper :: "jsstr \<Rightarrow> jsstr"
  hCollate :: "jsstr \<Rightarrow> jsstr \<Rightarrow> int"
  hNfd :: "jsstr \<Rightarrow> jsstr"
  hPow :: "dbl \<Rightarrow> dbl \<Rightarrow> dbl"
  hSqrt :: "dbl \<Rightarrow> dbl"
  hDateParse :: "jsstr \<Rightarrow> dbl"

section \<open>Values, operators, functions, trees\<close>

text \<open>A date is its time value in milliseconds.\<close>

datatype fval = VNum dbl | VStr jsstr | VBool bool | VNull | VDate dbl | VList "fval list"

datatype sym = SEq | SNeq | SGe | SLe | SAnd | SOr | SAdd | SSub | SMul | SDiv | SMod | SPow | SGt | SLt
  | SNot | SOpen | SClose | SComma | SDot | SQuest | SColon | SOpenList | SCloseList

text \<open>The functions, in the groups of the table.  \<open>Inherited\<close>: a name that the object \<open>FUNCTIONS\<close>
  inherits from \<open>Object.prototype\<close>.\<close>

datatype logic_fn = FIf | FIfs | FEmpty | FNot

datatype text_fn = FConcat | FJoin | FLength | FLower | FUpper | FTrim | FContains | FStartsWith
  | FEndsWith | FReplace | FReplaceAll | FSlice | FRepeat | FFormat | FToNumber

datatype num_fn = FAbs | FCeil | FFloor | FSqrt | FSign | FRound | FPow | FMin | FMax | FMedian
  | FCount | FSum | FMean

datatype list_fn = FAt | FFirst | FLast | FSort | FReverse | FUnique

datatype date_fn = FNow | FToday | FDate | FDateAdd | FDateSubtract | FDateBetween | FFormatDate
  | FYear | FMonth | FDay | FWeekday

datatype fn = Logic logic_fn | Textual text_fn | Numeric num_fn | Listed list_fn | Dated date_fn | Inherited

datatype node = NLit fval | NProp jsstr | NUn sym node | NBin sym node node | NTern node node node
  | NCall fn "node list" | NListLit "node list"

datatype ferror =
    UnclosedText nat | BadChar cu nat | Expected sym nat | ExpectedAtEnd sym nat | Unexpected jsstr nat
  | TooNested | NameExpected nat | PropNeedsName nat | UnknownFunction jsstr nat
  | WrongArity jsstr nat "nat option" nat | UnknownName jsstr nat | Incomplete nat
  | FormulaTooLong | FormulaBlank
  | NotANumber jsstr | NotADate jsstr | Impossible | UnknownUnit jsstr | InvalidFormula

definition maxFormula :: nat where "maxFormula = 2000"
definition maxDepth :: nat where "maxDepth = 64"

section \<open>Tokens\<close>

datatype token = TNum jsstr | TStr jsstr | TId jsstr | TOp sym | TEnd

type_synonym tok = "token \<times> nat"

text \<open>Longest operators first.\<close>

definition OPS :: "(jsstr \<times> sym) list" where
  "OPS = [(js ''=='', SEq), (js ''!='', SNeq), (js ''>='', SGe), (js ''<='', SLe), (js ''&&'', SAnd),
     (js ''||'', SOr), (js ''+'', SAdd), (js ''-'', SSub), (js ''*'', SMul), (js ''/'', SDiv),
     (js ''%'', SMod), (js ''^'', SPow), (js ''>'', SGt), (js ''<'', SLt), (js ''!'', SNot),
     (js ''('', SOpen), (js '')'', SClose), (js '','', SComma), (js ''.'', SDot), (js ''?'', SQuest),
     (js '':'', SColon), (js ''['', SOpenList), (js '']'', SCloseList)]"

definition startsWith :: "'a list \<Rightarrow> 'a list \<Rightarrow> bool" where
  "startsWith p s \<longleftrightarrow> take (length p) s = p"

text \<open>The code point at the start of a text and its number of code units.\<close>

definition codePoint :: "jsstr \<Rightarrow> nat \<times> nat" where
  "codePoint s =
     (case s of
        [] \<Rightarrow> (0, 0)
      | [c] \<Rightarrow> (unat c, 1)
      | c # d # _ \<Rightarrow>
          if isHighSurrogate c \<and> isLowSurrogate d
          then ((unat c - 0xD800) * 0x400 + (unat d - 0xDC00) + 0x10000, 2) else (unat c, 1))"

definition underscore :: nat where "underscore = 95"

text \<open>Length of the code points that may continue a name.\<close>

function contLength :: "host \<Rightarrow> jsstr \<Rightarrow> nat" where
  "contLength H s =
     (if s \<noteq> [] \<and> (hLetter H (fst (codePoint s)) \<or> hNumeral H (fst (codePoint s)) \<or> fst (codePoint s) = underscore)
      then snd (codePoint s) + contLength H (drop (snd (codePoint s)) s) else 0)"
  by pat_completeness auto
termination
  by (relation "measure (\<lambda>(H, s). length s)") (auto simp: codePoint_def split: list.splits)

declare contLength.simps [simp del]

text \<open>Length of the number at the start of a text that starts with one.\<close>

definition numberLength :: "jsstr \<Rightarrow> nat" where
  "numberLength s =
     (let a = takeWhile isDigit s; r = dropWhile isDigit s;
          b = (if r \<noteq> [] \<and> hd r = 46 then hd r # takeWhile isDigit (tl r) else []);
          m = length a + length b; e = drop m s;
          sg = (if length e > 1 \<and> (e ! 1 = 43 \<or> e ! 1 = 45) then 2 else 1);
          ds = takeWhile isDigit (drop sg e)
      in if e \<noteq> [] \<and> (hd e = 101 \<or> hd e = 69) \<and> ds \<noteq> [] then m + sg + length ds else m)"

text \<open>The rest of a text literal: its value and what follows the closing quote.\<close>

fun scanText :: "cu \<Rightarrow> jsstr \<Rightarrow> (jsstr \<times> jsstr) option" where
  "scanText q [] = None"
| "scanText q [c] = (if c = q then Some ([], []) else None)"
| "scanText q (c # d # s) =
     (if c = q then Some ([], d # s)
      else if c = 92 then map_option (\<lambda>(v, r). ((if d = 110 then newline else d) # v, r)) (scanText q s)
      else map_option (\<lambda>(v, r). (c # v, r)) (scanText q (d # s)))"

lemma scanText_length: "scanText q s = Some (v, r) \<Longrightarrow> length r < length s"
  by (induction q s arbitrary: v r rule: scanText.induct) (auto split: if_splits)

definition isQuote :: "cu \<Rightarrow> bool" where
  "isQuote c \<longleftrightarrow> c = 34 \<or> c = 39 \<or> c = 0x201C \<or> c = 0x201D"

definition closeQuote :: "cu \<Rightarrow> cu" where
  "closeQuote c = (if c = 0x201C then 0x201D else c)"

lemma OPS_nonempty: "(o', x) \<in> set OPS \<Longrightarrow> o' \<noteq> []"
  by (auto simp: OPS_def js_def)

lemma find_mem: "find P xs = Some y \<Longrightarrow> y \<in> set xs"
  by (induction xs) (auto split: if_splits)

lemma find_OPS_nonempty:
  assumes "find (\<lambda>(o', _). startsWith o' t) OPS = Some (o', x)"
  shows "0 < length o'"
proof -
  have "(o', x) \<in> set OPS" by (rule find_mem [OF assms])
  then have "o' \<noteq> []" by (rule OPS_nonempty)
  then show ?thesis by simp
qed

lemma numberLength_pos:
  assumes "isDigit c \<or> c = 46 \<and> s \<noteq> [] \<and> isDigit (hd s)"
  shows "0 < numberLength (c # s)"
proof (cases "isDigit c")
  case False
  then show ?thesis using assms by (simp add: numberLength_def Let_def)
qed (simp add: numberLength_def Let_def)

lemma drop_shorter: "0 < n \<Longrightarrow> length (drop n (c # s)) < length (c # s)"
  by simp

text \<open>The tokens of the text that starts at position \<open>i\<close>.\<close>

function tokenize :: "host \<Rightarrow> nat \<Rightarrow> jsstr \<Rightarrow> ferror + tok list" where
  "tokenize H i [] = Inr [(TEnd, i)]"
| "tokenize H i (c # s) =
     (if isSpace c then tokenize H (i + 1) s
      else if isDigit c \<or> c = 46 \<and> s \<noteq> [] \<and> isDigit (hd s)
      then let n = numberLength (c # s)
           in map_sum id (Cons (TNum (take n (c # s)), i)) (tokenize H (i + n) (drop n (c # s)))
      else if isQuote c
      then (case scanText (closeQuote c) s of
              None \<Rightarrow> Inl (UnclosedText i)
            | Some (v, r) \<Rightarrow> map_sum id (Cons (TStr v, i)) (tokenize H (i + 1 + (length s - length r)) r))
      else if hLetter H (unat c) \<or> unat c = underscore
      then let n = 1 + contLength H s
           in map_sum id (Cons (TId (take n (c # s)), i)) (tokenize H (i + n) (drop n (c # s)))
      else (case find (\<lambda>(o', _). startsWith o' (c # s)) OPS of
              None \<Rightarrow> Inl (BadChar c i)
            | Some (o', x) \<Rightarrow>
                map_sum id (Cons (TOp x, i)) (tokenize H (i + length o') (drop (length o') (c # s)))))"
  by pat_completeness auto

termination
proof (relation "measure (\<lambda>(H, i, s). length s)", goal_cases)
  case (3 H i c s x)
  then show ?case unfolding in_measure prod.case by (simp only: drop_shorter numberLength_pos)
next
  case 4
  then show ?case unfolding in_measure prod.case by (auto dest: scanText_length)
next
  case (6 H i c s p o' y)
  then have "find (\<lambda>(o', _). startsWith o' (c # s)) OPS = Some (o', y)" by simp
  then show ?case unfolding in_measure prod.case by (intro drop_shorter find_OPS_nonempty)
qed simp_all

declare tokenize.simps [simp del]

section \<open>The table of functions\<close>

text \<open>Names, least and greatest number of arguments; \<open>None\<close> stands for \<open>Infinity\<close>.\<close>

definition FUNCTIONS :: "(jsstr \<times> fn \<times> nat \<times> nat option) list" where
  "FUNCTIONS = [
     (js ''if'', Logic FIf, 3, Some 3), (js ''ifs'', Logic FIfs, 3, None), (js ''empty'', Logic FEmpty, 1, Some 1),
     (js ''not'', Logic FNot, 1, Some 1), (js ''concat'', Textual FConcat, 1, None), (js ''join'', Textual FJoin, 2, Some 2),
     (js ''length'', Textual FLength, 1, Some 1), (js ''lower'', Textual FLower, 1, Some 1), (js ''upper'', Textual FUpper, 1, Some 1),
     (js ''trim'', Textual FTrim, 1, Some 1), (js ''contains'', Textual FContains, 2, Some 2),
     (js ''startswith'', Textual FStartsWith, 2, Some 2), (js ''endswith'', Textual FEndsWith, 2, Some 2),
     (js ''replace'', Textual FReplace, 3, Some 3), (js ''replaceall'', Textual FReplaceAll, 3, Some 3),
     (js ''slice'', Textual FSlice, 2, Some 3), (js ''repeat'', Textual FRepeat, 2, Some 2), (js ''format'', Textual FFormat, 1, Some 1),
     (js ''tonumber'', Textual FToNumber, 1, Some 1), (js ''abs'', Numeric FAbs, 1, Some 1), (js ''ceil'', Numeric FCeil, 1, Some 1),
     (js ''floor'', Numeric FFloor, 1, Some 1), (js ''sqrt'', Numeric FSqrt, 1, Some 1), (js ''sign'', Numeric FSign, 1, Some 1),
     (js ''round'', Numeric FRound, 1, Some 2), (js ''pow'', Numeric FPow, 2, Some 2), (js ''min'', Numeric FMin, 1, None),
     (js ''max'', Numeric FMax, 1, None), (js ''median'', Numeric FMedian, 1, None), (js ''count'', Numeric FCount, 0, Some 1),
     (js ''sum'', Numeric FSum, 1, None), (js ''mean'', Numeric FMean, 1, None), (js ''at'', Listed FAt, 2, Some 2),
     (js ''first'', Listed FFirst, 1, Some 1), (js ''last'', Listed FLast, 1, Some 1), (js ''sort'', Listed FSort, 1, Some 1),
     (js ''reverse'', Listed FReverse, 1, Some 1), (js ''unique'', Listed FUnique, 1, Some 1), (js ''now'', Dated FNow, 0, Some 0),
     (js ''today'', Dated FToday, 0, Some 0), (js ''date'', Dated FDate, 1, Some 1), (js ''dateadd'', Dated FDateAdd, 3, Some 3),
     (js ''datesubtract'', Dated FDateSubtract, 3, Some 3), (js ''datebetween'', Dated FDateBetween, 3, Some 3),
     (js ''formatdate'', Dated FFormatDate, 2, Some 2), (js ''year'', Dated FYear, 1, Some 1), (js ''month'', Dated FMonth, 1, Some 1),
     (js ''day'', Dated FDay, 1, Some 1), (js ''weekday'', Dated FWeekday, 1, Some 1)]"

text \<open>The names in lower case that every object inherits; their \<open>min\<close> and \<open>max\<close> are undefined,
  so no number of arguments is refused.\<close>

definition inheritedName :: "jsstr \<Rightarrow> bool" where
  "inheritedName s \<longleftrightarrow> s = js ''constructor'' \<or> s = js ''__proto__''"

definition fnEntry :: "jsstr \<Rightarrow> (fn \<times> nat \<times> nat option) option" where
  "fnEntry s = (case map_of FUNCTIONS s of
     Some e \<Rightarrow> Some e
   | None \<Rightarrow> if inheritedName s then Some (Inherited, 0, None) else None)"

section \<open>The parser\<close>

type_synonym 'a parsed = "(ferror + 'a \<times> tok list) option"

definition peek :: "tok list \<Rightarrow> tok" where
  "peek ts = (case ts of [] \<Rightarrow> (TEnd, 0) | t # _ \<Rightarrow> t)"

definition wordOp :: "jsstr \<Rightarrow> sym option" where
  "wordOp s = (if s = js ''and'' then Some SAnd else if s = js ''or'' then Some SOr
     else if s = js ''not'' then Some SNot else None)"

definition isOp :: "host \<Rightarrow> sym \<Rightarrow> tok list \<Rightarrow> bool" where
  "isOp H v ts = (case fst (peek ts) of TOp s \<Rightarrow> s = v | TId n \<Rightarrow> wordOp (hLower H n) = Some v | _ \<Rightarrow> False)"

definition symText :: "sym \<Rightarrow> jsstr" where
  "symText x = (case find (\<lambda>(_, y). y = x) OPS of None \<Rightarrow> [] | Some (s, _) \<Rightarrow> s)"

definition tokText :: "tok \<Rightarrow> jsstr" where
  "tokText t = (case fst t of TNum s \<Rightarrow> s | TStr s \<Rightarrow> s | TId s \<Rightarrow> s | TOp x \<Rightarrow> symText x | TEnd \<Rightarrow> [])"

definition expect :: "sym \<Rightarrow> tok list \<Rightarrow> ferror + tok list" where
  "expect v ts = (let t = peek ts in
     if fst t = TOp v then Inr (tl ts)
     else if fst t = TEnd then Inl (ExpectedAtEnd v (snd t)) else Inl (Expected v (snd t)))"

text \<open>A call by name, once its arguments are known.\<close>

definition mkCall :: "host \<Rightarrow> jsstr \<Rightarrow> nat \<Rightarrow> node list \<Rightarrow> ferror + node" where
  "mkCall H name pos args =
     (let f = hLower H name in
      if f = js ''prop''
      then (case args of [NLit (VStr s)] \<Rightarrow> Inr (NProp s) | _ \<Rightarrow> Inl (PropNeedsName pos))
      else (case fnEntry f of
              None \<Rightarrow> Inl (UnknownFunction name pos)
            | Some (g, mn, mx) \<Rightarrow>
                if length args < mn \<or> (case mx of None \<Rightarrow> False | Some k \<Rightarrow> k < length args)
                then Inl (WrongArity name mn mx pos)
                else Inr (NCall g args)))"

text \<open>The operators of each level of \<open>binary\<close>: or, and, cmp, add, mul.\<close>

definition levelOps :: "nat \<Rightarrow> sym list" where
  "levelOps l = [[SOr], [SAnd], [SEq, SNeq, SGe, SLe, SGt, SLt], [SAdd, SSub], [SMul, SDiv, SMod]] ! l"

definition pret :: "'a \<Rightarrow> tok list \<Rightarrow> 'a parsed" where
  "pret a ts = Some (Inr (a, ts))"

definition pfail :: "ferror \<Rightarrow> 'a parsed" where
  "pfail e = Some (Inl e)"

definition pbind :: "'a parsed \<Rightarrow> ('a \<Rightarrow> tok list \<Rightarrow> 'b parsed) \<Rightarrow> 'b parsed" where
  "pbind r k = (case r of None \<Rightarrow> None | Some (Inl e) \<Rightarrow> Some (Inl e) | Some (Inr (a, ts)) \<Rightarrow> k a ts)"

text \<open>A step that may throw but does not read tokens; \<open>expect\<close> as a step.\<close>

definition plift :: "ferror + 'a \<Rightarrow> ('a \<Rightarrow> 'b parsed) \<Rightarrow> 'b parsed" where
  "plift r k = (case r of Inl e \<Rightarrow> pfail e | Inr a \<Rightarrow> k a)"

text \<open>The methods of the class call each other: a method is written over a record of the methods
  it may call, and \<open>methods n\<close> ties the knot \<open>n\<close> calls deep.  \<open>d\<close> is \<open>this.depth\<close>.\<close>

record parser =
  mTernary :: "nat \<Rightarrow> tok list \<Rightarrow> node parsed"
  mBinary :: "nat \<Rightarrow> nat \<Rightarrow> tok list \<Rightarrow> node parsed"
  mLoop :: "nat \<Rightarrow> nat \<Rightarrow> node \<Rightarrow> tok list \<Rightarrow> node parsed"
  mUnary :: "nat \<Rightarrow> tok list \<Rightarrow> node parsed"
  mPow :: "nat \<Rightarrow> tok list \<Rightarrow> node parsed"
  mPostfix :: "nat \<Rightarrow> tok list \<Rightarrow> node parsed"
  mDots :: "nat \<Rightarrow> node \<Rightarrow> tok list \<Rightarrow> node parsed"
  mArgs :: "nat \<Rightarrow> tok list \<Rightarrow> node list parsed"
  mItems :: "nat \<Rightarrow> tok list \<Rightarrow> node list parsed"
  mPrimary :: "nat \<Rightarrow> tok list \<Rightarrow> node parsed"

definition ternary :: "host \<Rightarrow> parser \<Rightarrow> nat \<Rightarrow> tok list \<Rightarrow> node parsed" where
  "ternary H P d ts =
     (if maxDepth \<le> d then pfail TooNested
      else pbind (mBinary P 0 (Suc d) ts) (\<lambda>c ts.
        if isOp H SQuest ts
        then pbind (mTernary P (Suc d) (tl ts)) (\<lambda>a ts.
             plift (expect SColon ts) (\<lambda>ts. pbind (mTernary P (Suc d) ts) (\<lambda>b. pret (NTern c a b))))
        else pret c ts))"

text \<open>\<open>binary\<close> at level \<open>l\<close>: one operand of the next level, then as long as an operator of the level
  follows, another one.  After the last level come the prefix operators.\<close>

definition binary :: "host \<Rightarrow> parser \<Rightarrow> nat \<Rightarrow> nat \<Rightarrow> tok list \<Rightarrow> node parsed" where
  "binary H P l d ts =
     (if 5 \<le> l then mUnary P d ts else pbind (mBinary P (Suc l) d ts) (mLoop P l d))"

definition binaryLoop :: "host \<Rightarrow> parser \<Rightarrow> nat \<Rightarrow> nat \<Rightarrow> node \<Rightarrow> tok list \<Rightarrow> node parsed" where
  "binaryLoop H P l d a ts =
     (case find (\<lambda>x. isOp H x ts) (levelOps l) of
        None \<Rightarrow> pret a ts
      | Some x \<Rightarrow> pbind (mBinary P (Suc l) d (tl ts)) (\<lambda>b. mLoop P l d (NBin x a b)))"

definition unary :: "host \<Rightarrow> parser \<Rightarrow> nat \<Rightarrow> tok list \<Rightarrow> node parsed" where
  "unary H P d ts =
     (if isOp H SNot ts \<or> isOp H SSub ts \<or> isOp H SAdd ts
      then let x = (if isOp H SNot ts then SNot else if isOp H SSub ts then SSub else SAdd)
           in if maxDepth \<le> d then pfail TooNested
              else pbind (mUnary P (Suc d) (tl ts)) (\<lambda>a. pret (NUn x a))
      else mPow P d ts)"

definition powExp :: "host \<Rightarrow> parser \<Rightarrow> nat \<Rightarrow> tok list \<Rightarrow> node parsed" where
  "powExp H P d ts =
     pbind (mPostfix P d ts) (\<lambda>a ts.
       if isOp H SPow ts then pbind (mUnary P d (tl ts)) (\<lambda>b. pret (NBin SPow a b)) else pret a ts)"

definition postfix :: "host \<Rightarrow> parser \<Rightarrow> nat \<Rightarrow> tok list \<Rightarrow> node parsed" where
  "postfix H P d ts = pbind (mPrimary P d ts) (mDots P d)"

text \<open>One turn of the loop of \<open>postfix\<close>: \<open>.name\<close> or \<open>.name(...)\<close> after \<open>a\<close>.\<close>

definition dots :: "host \<Rightarrow> parser \<Rightarrow> nat \<Rightarrow> node \<Rightarrow> tok list \<Rightarrow> node parsed" where
  "dots H P d a ts =
     (if isOp H SDot ts
      then let t = peek (tl ts); r = tl (tl ts)
           in case fst t of
                TId name \<Rightarrow>
                  if isOp H SOpen r
                  then pbind (mArgs P d r) (\<lambda>as r. plift (mkCall H name (snd t) (a # as)) (\<lambda>c. mDots P d c r))
                  else plift (mkCall H name (snd t) [a]) (\<lambda>c. mDots P d c r)
              | _ \<Rightarrow> pfail (NameExpected (snd t))
      else pret a ts)"

definition callArgs :: "host \<Rightarrow> parser \<Rightarrow> nat \<Rightarrow> tok list \<Rightarrow> node list parsed" where
  "callArgs H P d ts =
     plift (expect SOpen ts) (\<lambda>ts.
       if isOp H SClose ts then plift (expect SClose ts) (pret [])
       else pbind (mItems P d ts) (\<lambda>as ts. plift (expect SClose ts) (pret as)))"

text \<open>Expressions separated by commas.\<close>

definition items :: "host \<Rightarrow> parser \<Rightarrow> nat \<Rightarrow> tok list \<Rightarrow> node list parsed" where
  "items H P d ts =
     pbind (mTernary P d ts) (\<lambda>a ts.
       if isOp H SComma ts then pbind (mItems P d (tl ts)) (\<lambda>as. pret (a # as)) else pret [a] ts)"

definition namePrimary :: "host \<Rightarrow> parser \<Rightarrow> nat \<Rightarrow> jsstr \<Rightarrow> nat \<Rightarrow> tok list \<Rightarrow> node parsed" where
  "namePrimary H P d s pos r =
     (let low = hLower H s
      in if low = js ''true'' then pret (NLit (VBool True)) r
         else if low = js ''false'' then pret (NLit (VBool False)) r
         else if isOp H SOpen r
         then pbind (mArgs P d r) (\<lambda>as r. plift (mkCall H s pos as) (\<lambda>c. pret c r))
         else if low = js ''now'' \<or> low = js ''today''
         then plift (mkCall H s pos []) (\<lambda>c. pret c r)
         else pfail (UnknownName s pos))"

definition primary :: "host \<Rightarrow> parser \<Rightarrow> nat \<Rightarrow> tok list \<Rightarrow> node parsed" where
  "primary H P d ts =
     (let t = peek ts; r = tl ts
      in case fst t of
           TNum s \<Rightarrow> pret (NLit (VNum (numberOf s))) r
         | TStr s \<Rightarrow> pret (NLit (VStr s)) r
         | TId s \<Rightarrow> namePrimary H P d s (snd t) r
         | TOp x \<Rightarrow>
             if x = SOpen then pbind (mTernary P d r) (\<lambda>a r. plift (expect SClose r) (pret a))
             else if x = SOpenList
             then (if isOp H SCloseList r then plift (expect SCloseList r) (pret (NListLit []))
                   else pbind (mItems P d r) (\<lambda>as r. plift (expect SCloseList r) (pret (NListLit as))))
             else pfail (Unexpected (tokText t) (snd t))
         | TEnd \<Rightarrow> pfail (Incomplete (snd t)))"

primrec methods :: "host \<Rightarrow> nat \<Rightarrow> parser" where
  "methods H 0 = \<lparr>mTernary = \<lambda>_ _. None, mBinary = \<lambda>_ _ _. None, mLoop = \<lambda>_ _ _ _. None,
     mUnary = \<lambda>_ _. None, mPow = \<lambda>_ _. None, mPostfix = \<lambda>_ _. None, mDots = \<lambda>_ _ _. None,
     mArgs = \<lambda>_ _. None, mItems = \<lambda>_ _. None, mPrimary = \<lambda>_ _. None\<rparr>"
| "methods H (Suc n) =
     (let P = methods H n in
      \<lparr>mTernary = ternary H P, mBinary = binary H P, mLoop = binaryLoop H P, mUnary = unary H P,
       mPow = powExp H P, mPostfix = postfix H P, mDots = dots H P, mArgs = callArgs H P,
       mItems = items H P, mPrimary = primary H P\<rparr>)"

text \<open>\<open>parse()\<close>: one expression up to the end.\<close>

definition parseFuel :: "tok list \<Rightarrow> nat" where
  "parseFuel ts = 16 * length ts + 16"

definition parseTokens :: "host \<Rightarrow> tok list \<Rightarrow> (ferror + node) option" where
  "parseTokens H ts =
     (case mTernary (methods H (parseFuel ts)) 0 ts of
        None \<Rightarrow> None
      | Some (Inl e) \<Rightarrow> Some (Inl e)
      | Some (Inr (a, r)) \<Rightarrow>
          Some (if fst (peek r) = TEnd then Inr a else Inl (Unexpected (tokText (peek r)) (snd (peek r)))))"

section \<open>What the parser returns\<close>

definition arityOk :: "fn \<Rightarrow> nat \<Rightarrow> bool" where
  "arityOk f n \<longleftrightarrow> f = Inherited \<or>
     list_ex (\<lambda>(_, g, mn, mx). g = f \<and> mn \<le> n \<and> (case mx of None \<Rightarrow> True | Some k \<Rightarrow> n \<le> k)) FUNCTIONS"

definition binOps :: "sym list" where
  "binOps = [SOr, SAnd, SEq, SNeq, SGe, SLe, SGt, SLt, SAdd, SSub, SMul, SDiv, SMod, SPow]"

text \<open>Well-formed trees: literals are numbers, texts and booleans, operators are at their place and
  every call has a number of arguments its function accepts.\<close>

fun wfNode :: "node \<Rightarrow> bool" where
  "wfNode (NLit v) = (case v of VNum d \<Rightarrow> isDouble d | VStr s \<Rightarrow> True | VBool b \<Rightarrow> True | _ \<Rightarrow> False)"
| "wfNode (NProp s) = True"
| "wfNode (NUn x a) = (x \<in> {SNot, SSub, SAdd} \<and> wfNode a)"
| "wfNode (NBin x a b) = (x \<in> set binOps \<and> wfNode a \<and> wfNode b)"
| "wfNode (NTern c a b) = (wfNode c \<and> wfNode a \<and> wfNode b)"
| "wfNode (NCall f args) = (arityOk f (length args) \<and> (\<forall>a \<in> set args. wfNode a))"
| "wfNode (NListLit xs) = (\<forall>a \<in> set xs. wfNode a)"

abbreviation wfNodes :: "node list \<Rightarrow> bool" where
  "wfNodes xs \<equiv> \<forall>a \<in> set xs. wfNode a"

text \<open>The result has not run out of fuel and, when it is not an error, satisfies \<open>Q\<close> and leaves at
  least \<open>k\<close> of the \<open>L\<close> tokens read.\<close>

definition yields :: "nat \<Rightarrow> ('a \<Rightarrow> bool) \<Rightarrow> nat \<Rightarrow> 'a parsed \<Rightarrow> bool" where
  "yields k Q L r \<longleftrightarrow> (case r of None \<Rightarrow> False | Some (Inl e) \<Rightarrow> True | Some (Inr (a, ts)) \<Rightarrow> Q a \<and> length ts + k \<le> L)"

lemma yields_pfail [intro, simp]: "yields k Q L (pfail e)"
  by (simp add: yields_def pfail_def)

lemma yields_pret [simp]: "yields k Q L (pret a ts) \<longleftrightarrow> Q a \<and> length ts + k \<le> L"
  by (simp add: yields_def pret_def)

lemma yields_pbind:
  assumes "yields j R L r" "\<And>a ts. R a \<Longrightarrow> length ts + j \<le> L \<Longrightarrow> yields k Q M (f a ts)"
  shows "yields k Q M (pbind r f)"
proof (cases r)
  case (Some x)
  then show ?thesis using assms by (cases x) (auto simp: yields_def pbind_def)
qed (use assms(1) in \<open>simp add: yields_def\<close>)

lemma yields_plift: "(\<And>a. r = Inr a \<Longrightarrow> yields k Q L (f a)) \<Longrightarrow> yields k Q L (plift r f)"
  by (auto simp: plift_def split: sum.splits)

lemma yields_weaken: "yields k Q L r \<Longrightarrow> j + L \<le> k + M \<Longrightarrow> yields j Q M r"
  by (auto simp: yields_def split: option.splits sum.splits)

lemma isOp_length: "isOp H x ts \<Longrightarrow> Suc (length (tl ts)) = length ts"
  by (cases ts) (auto simp: isOp_def peek_def)

lemma expect_length: "expect x ts = Inr r \<Longrightarrow> Suc (length r) = length ts"
  by (cases ts) (auto simp: expect_def peek_def Let_def split: if_splits)

lemma peek_length: "fst (peek ts) \<noteq> TEnd \<Longrightarrow> Suc (length (tl ts)) = length ts"
  by (cases ts) (auto simp: peek_def)

lemma FUNCTIONS_arity:
  "map_of FUNCTIONS s = Some (f, mn, mx) \<Longrightarrow> mn \<le> n \<Longrightarrow> (case mx of None \<Rightarrow> True | Some k \<Rightarrow> n \<le> k) \<Longrightarrow> arityOk f n"
  unfolding arityOk_def list_ex_iff by (drule map_of_SomeD) force

lemma fnEntry_arity:
  assumes "fnEntry s = Some (f, mn, mx)" "mn \<le> n" "case mx of None \<Rightarrow> True | Some k \<Rightarrow> n \<le> k"
  shows "arityOk f n"
proof (cases "map_of FUNCTIONS s")
  case None
  then show ?thesis using assms(1) by (auto simp: fnEntry_def arityOk_def split: if_splits)
next
  case (Some e)
  then show ?thesis using FUNCTIONS_arity [of s f mn mx n] assms by (simp add: fnEntry_def)
qed

lemma mkCall_wf: "mkCall H name pos args = Inr c \<Longrightarrow> wfNodes args \<Longrightarrow> wfNode c"
  by (auto simp: mkCall_def Let_def split: if_splits list.splits node.splits fval.splits option.splits
      dest!: fnEntry_arity [of _ _ _ _ "length args"])

lemma foldl_nonneg:
  fixes n :: int and s :: jsstr
  assumes "\<forall>c \<in> set s. 0 \<le> g c" "0 \<le> k"
  shows "0 \<le> n \<Longrightarrow> 0 \<le> foldl (\<lambda>n c. k * n + g c) n s"
  using assms by (induction s arbitrary: n) auto

lemma digitVal_nonneg: "isDigit c \<Longrightarrow> 0 \<le> digitVal c"
  by (simp add: isDigit_def digitVal_def word_le_def)

lemma intOfDigits_nonneg: "list_all isDigit s \<Longrightarrow> 0 \<le> intOfDigits s"
  unfolding intOfDigits_def by (rule foldl_nonneg) (auto simp: list_all_iff digitVal_nonneg)

lemma pow10_nonneg: "0 \<le> pow10 e"
  by (simp add: pow10_def)

lemma decimalOf_nonneg: "decimalOf s = Some q \<Longrightarrow> 0 \<le> q"
proof -
  have "list_all isDigit (takeWhile isDigit x @ takeWhile isDigit y)" "list_all isDigit (takeWhile isDigit x)" for x y
    by (auto simp: list_all_iff dest: set_takeWhileD)
  then show "decimalOf s = Some q \<Longrightarrow> 0 \<le> q"
    by (auto simp: decimalOf_def Let_def pow10_nonneg intOfDigits_nonneg split: if_splits)
qed

lemma radixDigit_nonneg: "radixDigit b c = Some v \<Longrightarrow> 0 \<le> v"
  by (auto simp: radixDigit_def Let_def digitVal_nonneg word_le_def split: if_splits)

lemma radixOf_nonneg:
  assumes "radixOf b s = Some q" "0 \<le> b"
  shows "0 \<le> q"
proof -
  have "\<forall>c \<in> set s. 0 \<le> the (radixDigit b c)"
    using assms(1) radixDigit_nonneg by (fastforce simp: radixOf_def list_ex_iff split: if_splits)
  then show ?thesis using assms foldl_nonneg [of s "\<lambda>c. the (radixDigit b c)" b 0]
    by (auto simp: radixOf_def split: if_splits)
qed

lemma isDouble_numberOf: "isDouble (numberOf s)"
proof -
  have "isDouble (case x of None \<Rightarrow> NaN | Some q \<Rightarrow> mkDbl g q)" if "\<And>q. x = Some q \<Longrightarrow> 0 \<le> q" for x g
    using that isDouble_mkDbl by (cases x) (auto simp: isDouble_def)
  moreover have "isDouble dzero" "isDouble (Infinite g)" for g by (simp_all add: isDouble_def)
  ultimately show ?thesis
    unfolding numberOf_def Let_def using decimalOf_nonneg radixOf_nonneg [of 16] radixOf_nonneg [of 8] radixOf_nonneg [of 2]
    by (simp split del: if_split split: if_split)
qed

lemma levelOps_find:
  "find (\<lambda>x. isOp H x ts) (levelOps l) = Some x \<Longrightarrow> l < 5 \<Longrightarrow> isOp H x ts \<and> x \<in> set binOps"
proof -
  assume f: "find (\<lambda>x. isOp H x ts) (levelOps l) = Some x" and l: "l < 5"
  have "x \<in> set (levelOps l)" by (rule find_mem [OF f])
  moreover have "set (levelOps l) \<subseteq> set binOps"
    using l by (auto simp: levelOps_def binOps_def less_Suc_eq numeral_eq_Suc)
  moreover have "isOp H x ts" using f by (auto simp: find_Some_iff)
  ultimately show ?thesis by blast
qed

text \<open>The methods at the depth \<open>n\<close> return whenever \<open>n\<close> is large enough for the tokens.\<close>

definition methodsOk :: "parser \<Rightarrow> nat \<Rightarrow> bool" where
  "methodsOk P n \<longleftrightarrow> (\<forall>d ts.
     (16 * length ts + 14 \<le> n \<longrightarrow> yields (Suc 0) wfNode (length ts) (mTernary P d ts))
   \<and> (\<forall>l \<le> 5. 16 * length ts + 13 \<le> n + l \<longrightarrow> yields (Suc 0) wfNode (length ts) (mBinary P l d ts))
   \<and> (\<forall>l < 5. \<forall>a. 16 * length ts + 14 \<le> n \<longrightarrow> wfNode a \<longrightarrow> yields 0 wfNode (length ts) (mLoop P l d a ts))
   \<and> (16 * length ts + 7 \<le> n \<longrightarrow> yields (Suc 0) wfNode (length ts) (mUnary P d ts))
   \<and> (16 * length ts + 6 \<le> n \<longrightarrow> yields (Suc 0) wfNode (length ts) (mPow P d ts))
   \<and> (16 * length ts + 5 \<le> n \<longrightarrow> yields (Suc 0) wfNode (length ts) (mPostfix P d ts))
   \<and> (\<forall>a. 16 * length ts + 14 \<le> n \<longrightarrow> wfNode a \<longrightarrow> yields 0 wfNode (length ts) (mDots P d a ts))
   \<and> (16 * length ts + 3 \<le> n \<longrightarrow> yields (Suc 0) wfNodes (length ts) (mArgs P d ts))
   \<and> (16 * length ts + 15 \<le> n \<longrightarrow> yields (Suc 0) wfNodes (length ts) (mItems P d ts))
   \<and> (16 * length ts + 4 \<le> n \<longrightarrow> yields (Suc 0) wfNode (length ts) (mPrimary P d ts)))"

lemma methodsOkD:
  assumes "methodsOk P n"
  shows "16 * length ts + 14 \<le> n \<Longrightarrow> yields (Suc 0) wfNode (length ts) (mTernary P d ts)"
    and "l \<le> 5 \<Longrightarrow> 16 * length ts + 13 \<le> n + l \<Longrightarrow> yields (Suc 0) wfNode (length ts) (mBinary P l d ts)"
    and "l < 5 \<Longrightarrow> 16 * length ts + 14 \<le> n \<Longrightarrow> wfNode a \<Longrightarrow> yields 0 wfNode (length ts) (mLoop P l d a ts)"
    and "16 * length ts + 7 \<le> n \<Longrightarrow> yields (Suc 0) wfNode (length ts) (mUnary P d ts)"
    and "16 * length ts + 6 \<le> n \<Longrightarrow> yields (Suc 0) wfNode (length ts) (mPow P d ts)"
    and "16 * length ts + 5 \<le> n \<Longrightarrow> yields (Suc 0) wfNode (length ts) (mPostfix P d ts)"
    and "16 * length ts + 14 \<le> n \<Longrightarrow> wfNode a \<Longrightarrow> yields 0 wfNode (length ts) (mDots P d a ts)"
    and "16 * length ts + 3 \<le> n \<Longrightarrow> yields (Suc 0) wfNodes (length ts) (mArgs P d ts)"
    and "16 * length ts + 15 \<le> n \<Longrightarrow> yields (Suc 0) wfNodes (length ts) (mItems P d ts)"
    and "16 * length ts + 4 \<le> n \<Longrightarrow> yields (Suc 0) wfNode (length ts) (mPrimary P d ts)"
  using assms unfolding methodsOk_def by blast+

lemma ternary_ok:
  assumes P: "methodsOk P n" and L: "16 * length ts + 13 \<le> n"
  shows "yields (Suc 0) wfNode (length ts) (ternary H P d ts)"
  unfolding ternary_def using L
  by (auto intro!: yields_pbind [OF methodsOkD(2) [OF P]] yields_pbind [OF methodsOkD(1) [OF P]] yields_plift
      dest!: isOp_length expect_length)

lemma binary_ok:
  assumes P: "methodsOk P n" and L: "l \<le> 5" "16 * length ts + 12 \<le> n + l"
  shows "yields (Suc 0) wfNode (length ts) (binary H P l d ts)"
proof (cases "l = 5")
  case True
  then show ?thesis unfolding binary_def using L by (auto intro: methodsOkD(4) [OF P])
next
  case False
  then show ?thesis unfolding binary_def using L
    by (auto intro!: yields_pbind [OF methodsOkD(2) [OF P]] yields_weaken [OF methodsOkD(3) [OF P]])
qed

lemma binaryLoop_ok:
  assumes P: "methodsOk P n" and L: "l < 5" "16 * length ts + 13 \<le> n" and a: "wfNode a"
  shows "yields 0 wfNode (length ts) (binaryLoop H P l d a ts)"
proof (cases "find (\<lambda>x. isOp H x ts) (levelOps l)")
  case (Some x)
  then have x: "isOp H x ts" "x \<in> set binOps" using levelOps_find L by blast+
  then show ?thesis unfolding binaryLoop_def Some option.case using L a isOp_length [OF x(1)]
    by (auto intro!: yields_pbind [OF methodsOkD(2) [OF P]] yields_weaken [OF methodsOkD(3) [OF P]])
qed (use a in \<open>auto simp: binaryLoop_def\<close>)

lemma unary_ok:
  assumes P: "methodsOk P n" and L: "16 * length ts + 6 \<le> n"
  shows "yields (Suc 0) wfNode (length ts) (unary H P d ts)"
  unfolding unary_def Let_def using L
  by (auto intro!: yields_pbind [OF methodsOkD(4) [OF P]] methodsOkD(5) [OF P] dest!: isOp_length)

lemma powExp_ok:
  assumes P: "methodsOk P n" and L: "16 * length ts + 5 \<le> n"
  shows "yields (Suc 0) wfNode (length ts) (powExp H P d ts)"
  unfolding powExp_def using L
  by (auto simp: binOps_def intro!: yields_pbind [OF methodsOkD(4) [OF P]] yields_pbind [OF methodsOkD(6) [OF P]]
      dest!: isOp_length)

lemma postfix_ok:
  assumes P: "methodsOk P n" and L: "16 * length ts + 4 \<le> n"
  shows "yields (Suc 0) wfNode (length ts) (postfix H P d ts)"
  unfolding postfix_def using L
  by (auto intro!: yields_pbind [OF methodsOkD(10) [OF P]] yields_weaken [OF methodsOkD(7) [OF P]])

lemma dots_ok:
  assumes P: "methodsOk P n" and L: "16 * length ts + 13 \<le> n" and a: "wfNode a"
  shows "yields 0 wfNode (length ts) (dots H P d a ts)"
proof (cases "isOp H SDot ts")
  case True
  define t where "t = peek (tl ts)"
  define r where "r = tl (tl ts)"
  have l: "Suc (length (tl ts)) = length ts" using isOp_length [OF True] .
  have r: "length r + 1 \<le> length (tl ts) \<or> r = []" unfolding r_def by (cases "tl ts") auto
  have rec: "yields 0 wfNode (length ts) (mDots P d c x)"
    if "wfNode c" "length x < length ts" for c x
    using that L by (intro yields_weaken [OF methodsOkD(7) [OF P]]) auto
  have lr: "length r < length ts" using l r by auto
  have call: "yields 0 wfNode (length ts) (plift (mkCall H name pos args) (\<lambda>c. mDots P d c x))"
    if "wfNodes args" "length x < length ts" for name pos args x
    using that by (auto intro!: yields_plift rec dest: mkCall_wf)
  show ?thesis
  proof (cases "fst t")
    case (TId name)
    have "yields 0 wfNode (length ts)
        (pbind (mArgs P d r) (\<lambda>as r. plift (mkCall H name (snd t) (a # as)) (\<lambda>c. mDots P d c r)))"
      using L lr a by (intro yields_pbind [OF methodsOkD(8) [OF P]] call) auto
    then show ?thesis unfolding dots_def Let_def t_def [symmetric] r_def [symmetric]
      using True TId a lr call [of "[a]" r name "snd t"] by simp
  qed (use True in \<open>simp_all add: dots_def Let_def flip: t_def\<close>)
qed (use a in \<open>simp add: dots_def\<close>)

lemma callArgs_ok:
  assumes P: "methodsOk P n" and L: "16 * length ts + 2 \<le> n"
  shows "yields (Suc 0) wfNodes (length ts) (callArgs H P d ts)"
  unfolding callArgs_def using L
  by (auto intro!: yields_plift yields_pbind [OF methodsOkD(9) [OF P]] dest!: expect_length)

lemma items_ok:
  assumes P: "methodsOk P n" and L: "16 * length ts + 14 \<le> n"
  shows "yields (Suc 0) wfNodes (length ts) (items H P d ts)"
  unfolding items_def using L
  by (auto intro!: yields_pbind [OF methodsOkD(9) [OF P]] yields_pbind [OF methodsOkD(1) [OF P]]
      dest!: isOp_length)

lemma namePrimary_ok:
  assumes P: "methodsOk P n" and L: "16 * length r + 3 \<le> n"
  shows "yields 0 wfNode (length r) (namePrimary H P d s pos r)"
  unfolding namePrimary_def Let_def using L
  by (auto intro!: yields_plift yields_pbind [OF methodsOkD(8) [OF P]] dest: mkCall_wf)

lemma primary_ok:
  assumes P: "methodsOk P n" and L: "16 * length ts + 3 \<le> n"
  shows "yields (Suc 0) wfNode (length ts) (primary H P d ts)"
proof (cases "fst (peek ts)")
  case (TNum s)
  then show ?thesis using peek_length [of ts] isDouble_numberOf by (simp add: primary_def)
next
  case (TStr s)
  then show ?thesis using peek_length [of ts] by (simp add: primary_def)
next
  case (TId s)
  then show ?thesis using peek_length [of ts] L
    by (auto simp: primary_def intro!: yields_weaken [OF namePrimary_ok [OF P]])
next
  case (TOp x)
  then have l: "Suc (length (tl ts)) = length ts" using peek_length [of ts] by simp
  have "yields (Suc 0) wfNode (length ts) (pbind (mTernary P d (tl ts)) (\<lambda>a r. plift (expect SClose r) (pret a)))"
    using l L by (auto intro!: yields_plift yields_pbind [OF methodsOkD(1) [OF P]] dest!: expect_length)
  moreover have "yields (Suc 0) wfNode (length ts)
      (pbind (mItems P d (tl ts)) (\<lambda>as r. plift (expect SCloseList r) (pret (NListLit as))))"
    using l L by (auto intro!: yields_plift yields_pbind [OF methodsOkD(9) [OF P]] dest!: expect_length)
  moreover have "yields (Suc 0) wfNode (length ts) (plift (expect SCloseList (tl ts)) (pret (NListLit [])))"
    using l by (auto intro!: yields_plift dest!: expect_length)
  ultimately show ?thesis using TOp by (simp add: primary_def Let_def)
qed (simp add: primary_def)

lemmas method_ok = ternary_ok binary_ok binaryLoop_ok unary_ok powExp_ok postfix_ok dots_ok callArgs_ok
  items_ok primary_ok

lemma methods_ok: "methodsOk (methods H n) n"
proof (induction n)
  case (Suc n)
  show ?case unfolding methodsOk_def [of "methods H (Suc n)"]
    by (auto simp: Let_def intro: method_ok [OF Suc.IH])
qed (simp add: methodsOk_def)

text \<open>The parser always returns, and what it returns is well-formed.\<close>

lemma parseTokens_ok: "\<exists>r. parseTokens H ts = Some r \<and> (\<forall>a. r = Inr a \<longrightarrow> wfNode a)"
  using methodsOkD(1) [OF methods_ok [of H "parseFuel ts"], of ts 0]
  by (auto simp: parseTokens_def parseFuel_def yields_def split: option.splits sum.splits)

end
