(* ===== verification/FormulaEval.thy ===== *)
theory FormulaEval
  imports FormulaSyntax
begin

text \<open>
  The evaluation of formulas (\<open>plugin-api/src/formula.ts\<close>): conversions, comparisons, dates, the
  functions of the table and \<open>evalNode\<close>.  An exception is an \<open>Inl\<close>: a \<open>FormulaError\<close>, a
  \<open>RangeError\<close> (the text of an invalid date) or a \<open>TypeError\<close>.  Numbers are the doubles of
  \<open>Doubles\<close>; a date is its time value.
\<close>

section \<open>Exceptions and values of properties\<close>

datatype exn = FormulaExn ferror | RangeExn | TypeExn

datatype pval = PNum dbl | PStr jsstr | PBool bool | PNull | PList "jsstr list"

fun ofProp :: "pval \<Rightarrow> fval" where
  "ofProp (PNum d) = VNum d"
| "ofProp (PStr s) = VStr s"
| "ofProp (PBool b) = VBool b"
| "ofProp PNull = VNull"
| "ofProp (PList xs) = VList (map VStr xs)"

definition throw :: "ferror \<Rightarrow> exn + 'a" where
  "throw e = Inl (FormulaExn e)"

definition bind :: "exn + 'a \<Rightarrow> ('a \<Rightarrow> exn + 'b) \<Rightarrow> exn + 'b" where
  "bind r k = (case r of Inl e \<Rightarrow> Inl e | Inr a \<Rightarrow> k a)"

fun mapM :: "('a \<Rightarrow> exn + 'b) \<Rightarrow> 'a list \<Rightarrow> exn + 'b list" where
  "mapM f [] = Inr []"
| "mapM f (x # xs) = bind (f x) (\<lambda>y. bind (mapM f xs) (\<lambda>ys. Inr (y # ys)))"

section \<open>Time values\<close>

definition msDay :: int where "msDay = 86400000"

text \<open>The integer of a valid time value; \<open>None\<close> for an invalid date.\<close>

definition timeInt :: "dbl \<Rightarrow> int option" where
  "timeInt t = (case t of Finite s q \<Rightarrow> Some (if s then - \<lfloor>q\<rfloor> else \<lfloor>q\<rfloor>) | _ \<Rightarrow> None)"

text \<open>\<open>new Date(n)\<close>: at most 100 million days from the epoch, in whole milliseconds, no negative zero.\<close>

definition timeClip :: "dbl \<Rightarrow> dbl" where
  "timeClip t = (case t of
     Finite s q \<Rightarrow> if 8640000000000000 < q then NaN else dadd (dtrunc t) dzero
   | _ \<Rightarrow> NaN)"

text \<open>The civil date of a day number since 1970-01-01, and back (proleptic Gregorian calendar).\<close>

definition civilOfDays :: "int \<Rightarrow> int \<times> int \<times> int" where
  "civilOfDays days =
     (let z = days + 719468; era = z div 146097; doe = z mod 146097;
          yoe = (doe - doe div 1460 + doe div 36524 - doe div 146096) div 365;
          doy = doe - (365 * yoe + yoe div 4 - yoe div 100);
          mp = (5 * doy + 2) div 153; dd = doy - (153 * mp + 2) div 5 + 1;
          mm = (if mp < 10 then mp + 3 else mp - 9)
      in (yoe + era * 400 + (if mm \<le> 2 then 1 else 0), mm, dd))"

definition daysOfCivil :: "int \<Rightarrow> int \<Rightarrow> int \<Rightarrow> int" where
  "daysOfCivil y m d =
     (let y' = (if m \<le> 2 then y - 1 else y); era = y' div 400; yoe = y' mod 400;
          doy = (153 * (if 2 < m then m - 3 else m + 9) + 2) div 5 + d - 1;
          doe = yoe * 365 + yoe div 4 - yoe div 100 + doy
      in era * 146097 + doe - 719468)"

definition utcYear :: "int \<Rightarrow> int" where "utcYear t = fst (civilOfDays (t div msDay))"
definition utcMonth :: "int \<Rightarrow> int" where "utcMonth t = fst (snd (civilOfDays (t div msDay))) - 1"
definition utcDate :: "int \<Rightarrow> int" where "utcDate t = snd (snd (civilOfDays (t div msDay)))"
definition utcDay :: "int \<Rightarrow> int" where "utcDay t = (t div msDay + 4) mod 7"
definition utcHours :: "int \<Rightarrow> int" where "utcHours t = (t mod msDay) div 3600000"
definition utcMinutes :: "int \<Rightarrow> int" where "utcMinutes t = (t mod 3600000) div 60000"
definition utcSeconds :: "int \<Rightarrow> int" where "utcSeconds t = (t mod 60000) div 1000"

definition intText :: "int \<Rightarrow> jsstr" where
  "intText n = (if n < 0 then 45 # digitsOf (- n) else digitsOf n)"

definition padStart :: "nat \<Rightarrow> jsstr \<Rightarrow> jsstr" where
  "padStart w s = zeros (w - length s) @ s"

text \<open>\<open>toISOString\<close>: years outside 0..9999 have a sign and six digits.\<close>

definition isoText :: "int \<Rightarrow> jsstr" where
  "isoText t =
     (let y = utcYear t;
          yt = (if 0 \<le> y \<and> y \<le> 9999 then padStart 4 (digitsOf y)
                else (if y < 0 then 45 else 43) # padStart 6 (digitsOf \<bar>y\<bar>))
      in yt @ [45] @ padStart 2 (digitsOf (utcMonth t + 1)) @ [45] @ padStart 2 (digitsOf (utcDate t))
         @ [84] @ padStart 2 (digitsOf (utcHours t)) @ [58] @ padStart 2 (digitsOf (utcMinutes t))
         @ [58] @ padStart 2 (digitsOf (utcSeconds t)) @ [46] @ padStart 3 (digitsOf (t mod 1000)) @ [90])"

section \<open>Values\<close>

definition hasTime :: "int \<Rightarrow> bool" where
  "hasTime t \<longleftrightarrow> utcHours t \<noteq> 0 \<or> utcMinutes t \<noteq> 0 \<or> utcSeconds t \<noteq> 0 \<or> t mod 1000 \<noteq> 0"

text \<open>\<open>toISOString\<close> of an invalid date is a \<open>RangeError\<close>.\<close>

definition dateText :: "dbl \<Rightarrow> exn + jsstr" where
  "dateText d = (case timeInt d of
     None \<Rightarrow> Inl RangeExn
   | Some t \<Rightarrow> Inr (if hasTime t then isoText t else take 10 (isoText t)))"

definition isEmpty :: "fval \<Rightarrow> bool" where
  "isEmpty v \<longleftrightarrow> v = VNull \<or> v = VStr [] \<or> v = VList []"

fun joinText :: "jsstr \<Rightarrow> jsstr list \<Rightarrow> jsstr" where
  "joinText sep [] = []"
| "joinText sep [x] = x"
| "joinText sep (x # xs) = x @ sep @ joinText sep xs"

definition roundDigits :: "dbl \<Rightarrow> dbl" where
  "roundDigits d = ddiv (dround (dmul d (ofInt 10000000000))) (ofInt 10000000000)"

fun asText :: "fval \<Rightarrow> exn + jsstr" and asTexts :: "fval list \<Rightarrow> exn + jsstr list" where
  "asText VNull = Inr []"
| "asText (VDate d) = dateText d"
| "asText (VList xs) = bind (asTexts xs) (\<lambda>ts. Inr (joinText (js '', '') ts))"
| "asText (VNum d) = Inr (if isInteger d then numText d else numText (roundDigits d))"
| "asText (VBool b) = Inr (if b then js ''true'' else js ''false'')"
| "asText (VStr s) = Inr s"
| "asTexts [] = Inr []"
| "asTexts (x # xs) = bind (asText x) (\<lambda>t. bind (asTexts xs) (\<lambda>ts. Inr (t # ts)))"

text \<open>\<open>s.replace(',', '.').trim()\<close>: the first comma only.\<close>

fun commaToDot :: "jsstr \<Rightarrow> jsstr" where
  "commaToDot [] = []"
| "commaToDot (c # s) = (if c = 44 then 46 # s else c # commaToDot s)"

definition textNumber :: "jsstr \<Rightarrow> dbl" where
  "textNumber s = numberOf (trim (commaToDot s))"

definition asNumber :: "fval \<Rightarrow> exn + dbl" where
  "asNumber v =
     (case v of
        VNum d \<Rightarrow> Inr d
      | VBool b \<Rightarrow> Inr (if b then Finite False 1 else dzero)
      | VNull \<Rightarrow> Inr dzero
      | VDate d \<Rightarrow> Inr d
      | VStr s \<Rightarrow> if s = [] then Inr dzero
                 else if isFinite (textNumber s) then Inr (textNumber s) else throw (NotANumber s)
      | VList xs \<Rightarrow> bind (asText v) (\<lambda>t. throw (NotANumber t)))"

definition isNumeric :: "fval \<Rightarrow> bool" where
  "isNumeric v = (case v of
     VNum d \<Rightarrow> True
   | VStr s \<Rightarrow> trim s \<noteq> [] \<and> isFinite (textNumber s)
   | _ \<Rightarrow> False)"

definition asBool :: "fval \<Rightarrow> bool" where
  "asBool v = (case v of
     VBool b \<Rightarrow> b
   | VNum d \<Rightarrow> \<not> deq d dzero
   | _ \<Rightarrow> if v = VStr (js ''true'') then True else if v = VStr (js ''false'') then False else \<not> isEmpty v)"

text \<open>\<open>DATE_RE\<close>: a date, or a date and a time with an optional zone.\<close>

definition digitsAt :: "nat \<Rightarrow> nat \<Rightarrow> jsstr \<Rightarrow> bool" where
  "digitsAt i n s \<longleftrightarrow> i + n \<le> length s \<and> list_all isDigit (take n (drop i s))"

definition charAt :: "nat \<Rightarrow> cu \<Rightarrow> jsstr \<Rightarrow> bool" where
  "charAt i c s \<longleftrightarrow> i < length s \<and> s ! i = c"

definition zoneRest :: "jsstr \<Rightarrow> bool" where
  "zoneRest s \<longleftrightarrow> s = [] \<or> s = [90]
     \<or> (charAt 0 43 s \<or> charAt 0 45 s) \<and> digitsAt 1 2 s
        \<and> (length s = 5 \<and> digitsAt 3 2 s \<or> length s = 6 \<and> charAt 3 58 s \<and> digitsAt 4 2 s)"

definition secondsRest :: "jsstr \<Rightarrow> bool" where
  "secondsRest s \<longleftrightarrow> zoneRest s
     \<or> charAt 0 58 s \<and> digitsAt 1 2 s
        \<and> (zoneRest (drop 3 s)
           \<or> charAt 3 46 s \<and> digitsAt 4 1 s \<and> zoneRest (dropWhile isDigit (drop 4 s)))"

definition matchesDateRe :: "jsstr \<Rightarrow> bool" where
  "matchesDateRe s \<longleftrightarrow> digitsAt 0 4 s \<and> charAt 4 45 s \<and> digitsAt 5 2 s \<and> charAt 7 45 s \<and> digitsAt 8 2 s
     \<and> (length s = 10
        \<or> (charAt 10 84 s \<or> charAt 10 32 s) \<and> digitsAt 11 2 s \<and> charAt 13 58 s \<and> digitsAt 14 2 s
           \<and> secondsRest (drop 16 s))"

definition isDateLike :: "fval \<Rightarrow> bool" where
  "isDateLike v = (case v of VDate d \<Rightarrow> True | VStr s \<Rightarrow> matchesDateRe (trim s) | _ \<Rightarrow> False)"

text \<open>\<open>s.replace(' ', 'T')\<close>: the first space.\<close>

fun spaceToT :: "jsstr \<Rightarrow> jsstr" where
  "spaceToT [] = []"
| "spaceToT (c # s) = (if c = 32 then 84 # s else c # spaceToT s)"

definition asDate :: "host \<Rightarrow> fval \<Rightarrow> exn + dbl" where
  "asDate H v =
     (let fail = bind (asText v) (\<lambda>t. throw (NotADate t)) in
      case v of
        VDate d \<Rightarrow> Inr d
      | VStr s \<Rightarrow>
          if matchesDateRe (trim s)
          then let d = hDateParse H (if length (trim s) = 10 then trim s @ js ''T00:00:00Z'' else spaceToT (trim s))
               in if d \<noteq> NaN then Inr d else fail
          else fail
      | _ \<Rightarrow> fail)"

definition asList :: "fval \<Rightarrow> fval list" where
  "asList v = (case v of VList xs \<Rightarrow> xs | VNull \<Rightarrow> [] | _ \<Rightarrow> [v])"

definition isNum :: "fval \<Rightarrow> bool" where
  "isNum v = (case v of VNum d \<Rightarrow> True | _ \<Rightarrow> False)"

definition isArray :: "fval \<Rightarrow> bool" where
  "isArray v = (case v of VList xs \<Rightarrow> True | _ \<Rightarrow> False)"

definition isBoolean :: "fval \<Rightarrow> bool" where
  "isBoolean v = (case v of VBool b \<Rightarrow> True | _ \<Rightarrow> False)"

definition compareVals :: "host \<Rightarrow> fval \<Rightarrow> fval \<Rightarrow> exn + dbl" where
  "compareVals H a b =
     (if isDateLike a \<and> isDateLike b
      then bind (asDate H a) (\<lambda>x. bind (asDate H b) (\<lambda>y. Inr (dsub x y)))
      else if isNum a \<or> isNum b
      then bind (asNumber a) (\<lambda>x. bind (asNumber b) (\<lambda>y. Inr (dsub x y)))
      else bind (asText a) (\<lambda>x. bind (asText b) (\<lambda>y. Inr (ofInt (hCollate H x y)))))"

definition equalVals :: "host \<Rightarrow> fval \<Rightarrow> fval \<Rightarrow> exn + bool" where
  "equalVals H a b =
     (if isEmpty a \<or> isEmpty b then Inr (isEmpty a \<and> isEmpty b)
      else if isArray a \<or> isArray b
      then bind (asText a) (\<lambda>x. bind (asText b) (\<lambda>y. Inr (x = y)))
      else if isBoolean a \<or> isBoolean b then Inr (asBool a = asBool b)
      else Inr (case compareVals H a b of Inl e \<Rightarrow> False | Inr d \<Rightarrow> deq d dzero))"

definition checkFinite :: "dbl \<Rightarrow> exn + dbl" where
  "checkFinite d = (if isFinite d then Inr d else throw Impossible)"

section \<open>Units of time\<close>

text \<open>\<open>InheritedUnit\<close>: what \<open>UNITS\<close> inherits from \<open>Object.prototype\<close>.\<close>

datatype unit_of_time = UMs | USec | UMin | UHour | UDay | UWeek | UMonth | UYear | InheritedUnit

definition UNITS :: "(jsstr \<times> unit_of_time) list" where
  "UNITS = [(js ''milliseconds'', UMs), (js ''millisecond'', UMs), (js ''seconds'', USec), (js ''second'', USec),
     (js ''secondes'', USec), (js ''seconde'', USec), (js ''minutes'', UMin), (js ''minute'', UMin),
     (js ''hours'', UHour), (js ''hour'', UHour), (js ''heures'', UHour), (js ''heure'', UHour),
     (js ''days'', UDay), (js ''day'', UDay), (js ''jours'', UDay), (js ''jour'', UDay),
     (js ''weeks'', UWeek), (js ''week'', UWeek), (js ''semaines'', UWeek), (js ''semaine'', UWeek),
     (js ''months'', UMonth), (js ''month'', UMonth), (js ''mois'', UMonth),
     (js ''years'', UYear), (js ''year'', UYear), (js ''ann'' @ [233] @ js ''es'', UYear),
     (js ''ann'' @ [233] @ js ''e'', UYear), (js ''ans'', UYear), (js ''an'', UYear)]"

definition unitMs :: "unit_of_time \<Rightarrow> dbl" where
  "unitMs u = (case u of UMs \<Rightarrow> ofInt 1 | USec \<Rightarrow> ofInt 1000 | UMin \<Rightarrow> ofInt 60000 | UHour \<Rightarrow> ofInt 3600000
     | UDay \<Rightarrow> ofInt 86400000 | UWeek \<Rightarrow> ofInt 604800000 | _ \<Rightarrow> NaN)"

definition unitOf :: "host \<Rightarrow> fval \<Rightarrow> exn + unit_of_time" where
  "unitOf H v = bind (asText v) (\<lambda>t. let k = hLower H t in
     case map_of UNITS k of
       Some u \<Rightarrow> Inr u
     | None \<Rightarrow> if inheritedName k then Inr InheritedUnit else throw (UnknownUnit t))"

text \<open>\<open>setUTCMonth(m)\<close>: the same day of the month, carried over when the month is shorter.\<close>

definition setUTCMonth :: "int \<Rightarrow> dbl \<Rightarrow> dbl" where
  "setUTCMonth t m = (case timeInt (dtrunc m) of
     None \<Rightarrow> NaN
   | Some k \<Rightarrow> timeClip (ofInt ((daysOfCivil (utcYear t + k div 12) (k mod 12 + 1) 1 + utcDate t - 1) * msDay
                              + t mod msDay)))"

definition addTo :: "dbl \<Rightarrow> dbl \<Rightarrow> unit_of_time \<Rightarrow> dbl" where
  "addTo d n u =
     (if u = UMonth \<or> u = UYear
      then case timeInt d of
             None \<Rightarrow> NaN
           | Some t \<Rightarrow> setUTCMonth t (dadd (ofInt (utcMonth t)) (dmul (dtrunc n) (ofInt (if u = UYear then 12 else 1))))
      else timeClip (dadd d (dmul n (unitMs u))))"

definition betweenDates :: "dbl \<Rightarrow> dbl \<Rightarrow> unit_of_time \<Rightarrow> dbl" where
  "betweenDates a b u =
     (if u = UMonth \<or> u = UYear
      then case (timeInt a, timeInt b) of
             (Some s, Some t) \<Rightarrow>
               let m = (utcYear s - utcYear t) * 12 + (utcMonth s - utcMonth t);
                   m1 = (if 0 < m \<and> utcDate s < utcDate t then m - 1 else m);
                   m2 = (if m1 < 0 \<and> utcDate t < utcDate s then m1 + 1 else m1)
               in if u = UYear then dtrunc (ddiv (ofInt m2) (ofInt 12)) else ofInt m2
           | _ \<Rightarrow> NaN
      else dtrunc (ddiv (dsub a b) (unitMs u)))"

text \<open>\<open>pad\<close> of a field of a date; an invalid date has NaN fields.\<close>

definition padField :: "nat \<Rightarrow> (int \<Rightarrow> int) \<Rightarrow> dbl \<Rightarrow> jsstr" where
  "padField w f d = padStart w (case timeInt d of None \<Rightarrow> js ''NaN'' | Some t \<Rightarrow> intText (f t))"

function formatDate :: "dbl \<Rightarrow> jsstr \<Rightarrow> jsstr" where
  "formatDate d fmt =
     (if fmt = [] then []
      else if startsWith (js ''YYYY'') fmt then padField 4 utcYear d @ formatDate d (drop 4 fmt)
      else if startsWith (js ''MM'') fmt then padField 2 (\<lambda>t. utcMonth t + 1) d @ formatDate d (drop 2 fmt)
      else if startsWith (js ''DD'') fmt then padField 2 utcDate d @ formatDate d (drop 2 fmt)
      else if startsWith (js ''HH'') fmt then padField 2 utcHours d @ formatDate d (drop 2 fmt)
      else if startsWith (js ''mm'') fmt then padField 2 utcMinutes d @ formatDate d (drop 2 fmt)
      else if startsWith (js ''ss'') fmt then padField 2 utcSeconds d @ formatDate d (drop 2 fmt)
      else hd fmt # formatDate d (tl fmt))"
  by pat_completeness auto
termination
  by (relation "measure (\<lambda>(d, fmt). length fmt)") auto

declare formatDate.simps [simp del]

section \<open>Functions\<close>

record env =
  envTitle :: jsstr
  envValues :: "(jsstr \<times> pval) list"
  envRowCount :: "nat option"
  envNow :: dbl
  envPresets :: "(jsstr \<times> pval) list option"

definition arg :: "nat \<Rightarrow> fval list \<Rightarrow> fval" where
  "arg i args = (if i < length args then args ! i else VNull)"

definition numbersOf :: "fval list \<Rightarrow> dbl list" where
  "numbersOf args = concat (map (\<lambda>v. case v of VNum d \<Rightarrow> if isFinite d then [d] else [] | _ \<Rightarrow> [])
     (concat (map asList args)))"

text \<open>\<open>xs.reduce(f)\<close> on a list that is not empty.\<close>

definition reduce1 :: "('a \<Rightarrow> 'a \<Rightarrow> 'a) \<Rightarrow> 'a list \<Rightarrow> 'a" where
  "reduce1 f xs = foldl f (hd xs) (tl xs)"

definition pickNum :: "bool \<Rightarrow> dbl \<Rightarrow> dbl \<Rightarrow> dbl" where
  "pickNum mx m n = (if (if mx then dlt dzero (dsub n m) else dlt (dsub n m) dzero) then n else m)"

definition pickText :: "bool \<Rightarrow> jsstr \<Rightarrow> jsstr \<Rightarrow> jsstr" where
  "pickText mx m t = (if (if mx then m < t else t < m) then t else m)"

definition textsOf :: "fval list \<Rightarrow> jsstr list" where
  "textsOf xs = concat (map (\<lambda>v. case v of VStr s \<Rightarrow> [s] | _ \<Rightarrow> []) xs)"

definition extreme :: "host \<Rightarrow> bool \<Rightarrow> fval list \<Rightarrow> exn + fval" where
  "extreme H mx args =
     (let xs = filter (\<lambda>v. \<not> isEmpty v) (concat (map asList args)); nums = numbersOf xs; texts = textsOf xs
      in if xs = [] then Inr VNull
         else if nums \<noteq> [] then Inr (VNum (reduce1 (pickNum mx) nums))
         else if list_all isDateLike xs
         then bind (mapM (asDate H) xs) (\<lambda>ds. Inr (VDate (reduce1 (pickNum mx) ds)))
         else if texts = [] then Inr VNull else Inr (VStr (reduce1 (pickText mx) texts)))"

text \<open>A position of \<open>slice\<close> or \<open>at\<close>: counted from the end when negative.\<close>

definition slicePos :: "nat \<Rightarrow> dbl \<Rightarrow> nat" where
  "slicePos len d = (let k = toIntIn (- int len) (int len) d in nat (if k < 0 then int len + k else k))"

definition sliceBy :: "'a list \<Rightarrow> dbl \<Rightarrow> dbl option \<Rightarrow> 'a list" where
  "sliceBy xs s e = jsSlice (slicePos (length xs) s) (case e of None \<Rightarrow> length xs | Some d \<Rightarrow> slicePos (length xs) d) xs"

definition atPos :: "fval list \<Rightarrow> dbl \<Rightarrow> fval" where
  "atPos xs d =
     (let n = int (length xs); k = toIntIn (- n - 1) n d; i = (if k < 0 then n + k else k)
      in if 0 \<le> i \<and> i < n then xs ! nat i else VNull)"

definition findText :: "jsstr \<Rightarrow> jsstr \<Rightarrow> nat option" where
  "findText p s = find (\<lambda>i. startsWith p (drop i s)) [0..<Suc (length s)]"

text \<open>The replacement of \<open>replace\<close> with a text pattern: \<open>$$\<close>, \<open>$&\<close>, \<open>$`\<close> and \<open>$'\<close> stand for a dollar, the
  match and what is around it.\<close>

fun expandReplacement :: "jsstr \<Rightarrow> jsstr \<Rightarrow> jsstr \<Rightarrow> jsstr \<Rightarrow> jsstr" where
  "expandReplacement before m after (c # d # r) =
     (if c \<noteq> 36 then c # expandReplacement before m after (d # r)
      else if d = 36 then 36 # expandReplacement before m after r
      else if d = 38 then m @ expandReplacement before m after r
      else if d = 96 then before @ expandReplacement before m after r
      else if d = 39 then after @ expandReplacement before m after r
      else c # expandReplacement before m after (d # r))"
| "expandReplacement before m after r = r"

definition replaceFirst :: "jsstr \<Rightarrow> jsstr \<Rightarrow> jsstr \<Rightarrow> jsstr" where
  "replaceFirst s p r = (case findText p s of
     None \<Rightarrow> s
   | Some i \<Rightarrow> let before = take i s; after = drop (i + length p) s
               in before @ expandReplacement before p after r @ after)"

function splitText :: "jsstr \<Rightarrow> jsstr \<Rightarrow> jsstr list" where
  "splitText p s =
     (if s = [] then [[]]
      else if p \<noteq> [] \<and> startsWith p s then [] # splitText p (drop (length p) s)
      else (case splitText p (tl s) of [] \<Rightarrow> [] | l # ls \<Rightarrow> (hd s # l) # ls))"
  by pat_completeness auto
termination
  by (relation "measure (\<lambda>(p, s). length s)") auto

declare splitText.simps [simp del]

definition splitBy :: "jsstr \<Rightarrow> jsstr \<Rightarrow> jsstr list" where
  "splitBy p s = (if p = [] then map (\<lambda>c. [c]) s else splitText p s)"

text \<open>\<open>sort(compare)\<close> is stable; NaN counts as 0.  When \<open>compare\<close> throws, so does the sort.\<close>

fun insertE :: "host \<Rightarrow> fval \<Rightarrow> fval list \<Rightarrow> exn + fval list" where
  "insertE H x [] = Inr [x]"
| "insertE H x (y # ys) = bind (compareVals H x y) (\<lambda>c.
     if dlt dzero c then bind (insertE H x ys) (\<lambda>zs. Inr (y # zs)) else Inr (x # y # ys))"

fun sortE :: "host \<Rightarrow> fval list \<Rightarrow> exn + fval list" where
  "sortE H [] = Inr []"
| "sortE H (x # xs) = bind (sortE H xs) (insertE H x)"

fun firstEqual :: "host \<Rightarrow> fval \<Rightarrow> fval list \<Rightarrow> nat \<Rightarrow> exn + nat option" where
  "firstEqual H x [] n = Inr None"
| "firstEqual H x (y # ys) n = bind (equalVals H x y) (\<lambda>b. if b then Inr (Some n) else firstEqual H x ys (Suc n))"

definition uniqueE :: "host \<Rightarrow> fval list \<Rightarrow> exn + fval list" where
  "uniqueE H xs = bind (mapM (\<lambda>(i, x). bind (firstEqual H x xs 0) (\<lambda>j. Inr (j = Some i, x))) (enumerate 0 xs))
     (\<lambda>ys. Inr (map snd (filter fst ys)))"

fun anyE :: "('a \<Rightarrow> exn + bool) \<Rightarrow> 'a list \<Rightarrow> exn + bool" where
  "anyE f [] = Inr False"
| "anyE f (x # xs) = bind (f x) (\<lambda>b. if b then Inr True else anyE f xs)"

definition num1 :: "(dbl \<Rightarrow> dbl) \<Rightarrow> fval \<Rightarrow> exn + fval" where
  "num1 f a = bind (asNumber a) (\<lambda>x. bind (checkFinite (f x)) (\<lambda>y. Inr (VNum y)))"

definition text1 :: "(jsstr \<Rightarrow> fval) \<Rightarrow> fval \<Rightarrow> exn + fval" where
  "text1 f a = bind (asText a) (\<lambda>s. Inr (f s))"

definition text2 :: "(jsstr \<Rightarrow> jsstr \<Rightarrow> fval) \<Rightarrow> fval \<Rightarrow> fval \<Rightarrow> exn + fval" where
  "text2 f a b = bind (asText a) (\<lambda>s. bind (asText b) (\<lambda>t. Inr (f s t)))"

definition runText :: "host \<Rightarrow> text_fn \<Rightarrow> fval list \<Rightarrow> exn + fval" where
  "runText H f args =
     (let a = arg 0 args; b = arg 1 args; c = arg 2 args in
      case f of
        FConcat \<Rightarrow> if list_ex isArray args then Inr (VList (concat (map asList args)))
                   else bind (mapM asText args) (\<lambda>ts. Inr (VStr (concat ts)))
      | FJoin \<Rightarrow> bind (mapM asText (asList a)) (\<lambda>ts. text1 (\<lambda>sep. VStr (joinText sep ts)) b)
      | FLength \<Rightarrow> (case a of VList xs \<Rightarrow> Inr (VNum (ofInt (int (length xs))))
                    | _ \<Rightarrow> text1 (\<lambda>s. VNum (ofInt (int (length s)))) a)
      | FLower \<Rightarrow> text1 (\<lambda>s. VStr (hLower H s)) a
      | FUpper \<Rightarrow> text1 (\<lambda>s. VStr (hUpper H s)) a
      | FTrim \<Rightarrow> text1 (\<lambda>s. VStr (trim s)) a
      | FContains \<Rightarrow> (case a of
            VList xs \<Rightarrow> bind (anyE (\<lambda>x. equalVals H x b) xs) (\<lambda>r. Inr (VBool r))
          | _ \<Rightarrow> text2 (\<lambda>s t. VBool (findText (hLower H t) (hLower H s) \<noteq> None)) a b)
      | FStartsWith \<Rightarrow> text2 (\<lambda>s t. VBool (startsWith t s)) a b
      | FEndsWith \<Rightarrow> text2 (\<lambda>s t. VBool (startsWith (rev t) (rev s))) a b
      | FReplace \<Rightarrow> bind (asText a) (\<lambda>s. text2 (\<lambda>p r. VStr (replaceFirst s p r)) b c)
      | FReplaceAll \<Rightarrow> bind (asText a) (\<lambda>s. text2 (\<lambda>p r. VStr (joinText r (splitBy p s))) b c)
      | FSlice \<Rightarrow>
          (let pos = (\<lambda>k. bind (asNumber b) (\<lambda>s. if length args \<le> 2 then Inr (k s None)
                       else bind (asNumber c) (\<lambda>e. Inr (k s (Some e)))))
           in case a of VList xs \<Rightarrow> pos (\<lambda>s e. VList (sliceBy xs s e))
              | _ \<Rightarrow> bind (asText a) (\<lambda>t. pos (\<lambda>s e. VStr (sliceBy t s e))))
      | FRepeat \<Rightarrow> bind (asText a) (\<lambda>s. bind (asNumber b) (\<lambda>n.
            Inr (VStr (concat (replicate (nat (toIntIn 0 1000 n)) s)))))
      | FFormat \<Rightarrow> text1 VStr a
      | FToNumber \<Rightarrow> Inr (case asNumber a of Inl e \<Rightarrow> VNull | Inr d \<Rightarrow> VNum d))"

definition runNum :: "host \<Rightarrow> env \<Rightarrow> num_fn \<Rightarrow> fval list \<Rightarrow> exn + fval" where
  "runNum H E f args =
     (let a = arg 0 args; xs = numbersOf args in
      case f of
        FAbs \<Rightarrow> num1 dabs a
      | FCeil \<Rightarrow> num1 dceil a
      | FFloor \<Rightarrow> num1 dfloor a
      | FSqrt \<Rightarrow> num1 (hSqrt H) a
      | FSign \<Rightarrow> num1 dsign a
      | FRound \<Rightarrow> bind (if length args \<le> 1 then Inr dzero else bind (asNumber (arg 1 args)) (\<lambda>p. Inr (dtrunc p))) (\<lambda>p.
          let k = hPow H (ofInt 10) p
          in bind (asNumber a) (\<lambda>x. bind (checkFinite (ddiv (dround (dmul x k)) k)) (\<lambda>y. Inr (VNum y))))
      | FPow \<Rightarrow> bind (asNumber a) (\<lambda>x. num1 (hPow H x) (arg 1 args))
      | FMin \<Rightarrow> extreme H False args
      | FMax \<Rightarrow> extreme H True args
      | FMedian \<Rightarrow>
          (let ys = sortBy dle xs; m = length ys div 2
           in Inr (if ys = [] then VNull
                else VNum (if odd (length ys) then ys ! m else ddiv (dadd (ys ! (m - 1)) (ys ! m)) (ofInt 2))))
      | FCount \<Rightarrow> Inr (VNum (ofInt (int (if args = [] then (case envRowCount E of None \<Rightarrow> 1 | Some n \<Rightarrow> n)
                    else length (filter (\<lambda>v. \<not> isEmpty v) (asList a))))))
      | FSum \<Rightarrow> Inr (VNum (foldl dadd dzero xs))
      | FMean \<Rightarrow> Inr (if xs = [] then VNull else VNum (ddiv (foldl dadd dzero xs) (ofInt (int (length xs))))))"

definition runList :: "host \<Rightarrow> list_fn \<Rightarrow> fval list \<Rightarrow> exn + fval" where
  "runList H f args =
     (let a = arg 0 args; xs = asList a in
      case f of
        FAt \<Rightarrow> bind (asNumber (arg 1 args)) (\<lambda>i. Inr (atPos xs (dtrunc i)))
      | FFirst \<Rightarrow> Inr (if xs = [] then VNull else hd xs)
      | FLast \<Rightarrow> Inr (if xs = [] then VNull else last xs)
      | FSort \<Rightarrow> bind (sortE H xs) (\<lambda>ys. Inr (VList ys))
      | FReverse \<Rightarrow> Inr (VList (rev xs))
      | FUnique \<Rightarrow> bind (uniqueE H xs) (\<lambda>ys. Inr (VList ys)))"

text \<open>\<open>Date.UTC(y, m, d)\<close> of the current day; years 0 to 99 mean 1900 to 1999.\<close>

definition todayOf :: "dbl \<Rightarrow> dbl" where
  "todayOf now = (case timeInt now of
     None \<Rightarrow> NaN
   | Some t \<Rightarrow> let y = utcYear t in
       timeClip (ofInt (daysOfCivil (if 0 \<le> y \<and> y \<le> 99 then 1900 + y else y) (utcMonth t + 1) (utcDate t) * msDay)))"

definition dateField :: "host \<Rightarrow> (int \<Rightarrow> int) \<Rightarrow> fval \<Rightarrow> exn + fval" where
  "dateField H f v = bind (asDate H v) (\<lambda>d. Inr (VNum (case timeInt d of None \<Rightarrow> NaN | Some t \<Rightarrow> ofInt (f t))))"

definition runDate :: "host \<Rightarrow> env \<Rightarrow> date_fn \<Rightarrow> fval list \<Rightarrow> exn + fval" where
  "runDate H E f args =
     (let a = arg 0 args; b = arg 1 args; c = arg 2 args in
      case f of
        FNow \<Rightarrow> Inr (VDate (envNow E))
      | FToday \<Rightarrow> Inr (VDate (todayOf (envNow E)))
      | FDate \<Rightarrow> bind (asDate H a) (\<lambda>d. Inr (VDate d))
      | FDateAdd \<Rightarrow> bind (asDate H a) (\<lambda>d. bind (asNumber b) (\<lambda>n. bind (unitOf H c) (\<lambda>u. Inr (VDate (addTo d n u)))))
      | FDateSubtract \<Rightarrow> bind (asDate H a) (\<lambda>d. bind (asNumber b) (\<lambda>n. bind (unitOf H c) (\<lambda>u. Inr (VDate (addTo d (dneg n) u)))))
      | FDateBetween \<Rightarrow> bind (asDate H a) (\<lambda>x. bind (asDate H b) (\<lambda>y. bind (unitOf H c) (\<lambda>u. Inr (VNum (betweenDates x y u)))))
      | FFormatDate \<Rightarrow> bind (asDate H a) (\<lambda>d. text1 (\<lambda>s. VStr (formatDate d s)) b)
      | FYear \<Rightarrow> dateField H utcYear a
      | FMonth \<Rightarrow> dateField H (\<lambda>t. utcMonth t + 1) a
      | FDay \<Rightarrow> dateField H utcDate a
      | FWeekday \<Rightarrow> bind (asDate H a) (\<lambda>d. Inr (VNum (case timeInt d of None \<Rightarrow> ofInt 7
            | Some t \<Rightarrow> ofInt (if utcDay t = 0 then 7 else utcDay t)))))"

text \<open>The functions whose arguments are all evaluated first.\<close>

definition runEager :: "host \<Rightarrow> env \<Rightarrow> fn \<Rightarrow> fval list \<Rightarrow> exn + fval" where
  "runEager H E f args =
     (case f of
        Logic FEmpty \<Rightarrow> Inr (VBool (isEmpty (arg 0 args)))
      | Logic FNot \<Rightarrow> Inr (VBool (\<not> asBool (arg 0 args)))
      | Textual g \<Rightarrow> runText H g args
      | Numeric g \<Rightarrow> runNum H E g args
      | Listed g \<Rightarrow> runList H g args
      | Dated g \<Rightarrow> runDate H E g args
      | _ \<Rightarrow> Inl TypeExn)"

section \<open>Aggregates computed by a query engine\<close>

definition isAggregate :: "fn \<Rightarrow> bool" where
  "isAggregate f \<longleftrightarrow> f \<in> Numeric ` {FSum, FMean, FMin, FMax, FMedian, FCount}"

definition isEngineAggregate :: "num_fn \<Rightarrow> bool" where
  "isEngineAggregate f \<longleftrightarrow> f \<in> {FSum, FMean, FMin, FMax, FCount}"

record agg_call =
  agFn :: num_fn
  agProp :: "jsstr option"

definition aggName :: "num_fn \<Rightarrow> jsstr" where
  "aggName f = (case f of FSum \<Rightarrow> js ''sum'' | FMean \<Rightarrow> js ''mean'' | FMin \<Rightarrow> js ''min'' | FMax \<Rightarrow> js ''max'' | _ \<Rightarrow> js ''count'')"

definition aggregateKey :: "agg_call \<Rightarrow> jsstr" where
  "aggregateKey c = aggName (agFn c) @ [58] @ (case agProp c of None \<Rightarrow> [] | Some p \<Rightarrow> p)"

definition simpleAggregate :: "fn \<Rightarrow> node list \<Rightarrow> agg_call option" where
  "simpleAggregate f args =
     (case f of
        Numeric g \<Rightarrow>
          if \<not> isEngineAggregate g then None
          else (case args of
                  [] \<Rightarrow> if g = FCount then Some \<lparr>agFn = g, agProp = None\<rparr> else None
                | [NProp p] \<Rightarrow> Some \<lparr>agFn = g, agProp = Some p\<rparr>
                | _ \<Rightarrow> None)
      | _ \<Rightarrow> None)"

text \<open>The value of a call that the presets give, if they do.\<close>

definition presetValue :: "env \<Rightarrow> fn \<Rightarrow> node list \<Rightarrow> fval option" where
  "presetValue E f args =
     (case envPresets E of
        None \<Rightarrow> None
      | Some ps \<Rightarrow>
          if \<not> isAggregate f then None
          else map_option (\<lambda>c. case map_of ps (aggregateKey c) of None \<Rightarrow> VNull | Some v \<Rightarrow> ofProp v)
                 (simpleAggregate f args))"

section \<open>Evaluation\<close>

definition isTitleName :: "jsstr \<Rightarrow> bool" where
  "isTitleName s \<longleftrightarrow> s = js ''Nom'' \<or> s = js ''Name'' \<or> s = js ''@title''"

definition propValue :: "env \<Rightarrow> jsstr \<Rightarrow> fval" where
  "propValue E s = (case map_of (envValues E) s of
     Some v \<Rightarrow> ofProp v
   | None \<Rightarrow> if isTitleName s then VStr (envTitle E) else VNull)"

definition mathLike :: "fval \<Rightarrow> bool" where
  "mathLike v \<longleftrightarrow> isNumeric v \<or> v = VNull \<or> v = VStr [] \<or> isBoolean v"

definition plainText :: "fval \<Rightarrow> bool" where
  "plainText v \<longleftrightarrow> (case v of VStr s \<Rightarrow> \<not> isDateLike v | _ \<Rightarrow> False)"

definition arith :: "(dbl \<Rightarrow> dbl \<Rightarrow> dbl) \<Rightarrow> fval \<Rightarrow> fval \<Rightarrow> exn + fval" where
  "arith f a b = bind (asNumber a) (\<lambda>x. bind (asNumber b) (\<lambda>y. bind (checkFinite (f x y)) (\<lambda>z. Inr (VNum z))))"

definition addVals :: "fval \<Rightarrow> fval \<Rightarrow> exn + fval" where
  "addVals a b =
     (if isArray a \<or> isArray b then Inr (VList (asList a @ asList b))
      else if mathLike a \<and> mathLike b then arith dadd a b
      else if plainText a \<or> plainText b then text2 (\<lambda>s t. VStr (s @ t)) a b
      else arith dadd a b)"

definition binVals :: "host \<Rightarrow> sym \<Rightarrow> fval \<Rightarrow> fval \<Rightarrow> exn + fval" where
  "binVals H x a b =
     (let cmp = (\<lambda>test. bind (compareVals H a b) (\<lambda>c. Inr (VBool (test c)))) in
      case x of
        SAdd \<Rightarrow> addVals a b
      | SSub \<Rightarrow> if isDateLike a \<and> isDateLike b
                then bind (asDate H a) (\<lambda>s. bind (asDate H b) (\<lambda>t. Inr (VNum (dsub s t))))
                else arith dsub a b
      | SMul \<Rightarrow> arith dmul a b
      | SDiv \<Rightarrow> arith ddiv a b
      | SMod \<Rightarrow> arith dmod a b
      | SPow \<Rightarrow> arith (hPow H) a b
      | SEq \<Rightarrow> bind (equalVals H a b) (\<lambda>r. Inr (VBool r))
      | SNeq \<Rightarrow> bind (equalVals H a b) (\<lambda>r. Inr (VBool (\<not> r)))
      | SGt \<Rightarrow> cmp (dlt dzero)
      | SLt \<Rightarrow> cmp (\<lambda>c. dlt c dzero)
      | SGe \<Rightarrow> cmp (dle dzero)
      | SLe \<Rightarrow> cmp (\<lambda>c. dle c dzero)
      | _ \<Rightarrow> throw InvalidFormula)"

fun evalNode :: "host \<Rightarrow> env \<Rightarrow> node \<Rightarrow> exn + fval"
  and evalNodes :: "host \<Rightarrow> env \<Rightarrow> node list \<Rightarrow> exn + fval list"
  and evalIf :: "host \<Rightarrow> env \<Rightarrow> node list \<Rightarrow> exn + fval"
  and evalIfs :: "host \<Rightarrow> env \<Rightarrow> node list \<Rightarrow> exn + fval" where
  "evalNode H E (NLit v) = Inr v"
| "evalNode H E (NListLit xs) = bind (evalNodes H E xs) (\<lambda>vs. Inr (VList vs))"
| "evalNode H E (NProp s) = Inr (propValue E s)"
| "evalNode H E (NTern c a b) = bind (evalNode H E c) (\<lambda>v. if asBool v then evalNode H E a else evalNode H E b)"
| "evalNode H E (NUn x a) = bind (evalNode H E a) (\<lambda>v.
     if x = SNot then Inr (VBool (\<not> asBool v))
     else bind (asNumber v) (\<lambda>d. Inr (VNum (if x = SSub then dneg d else d))))"
| "evalNode H E (NCall f args) =
     (case presetValue E f args of
        Some v \<Rightarrow> Inr v
      | None \<Rightarrow>
          if f = Logic FIf then evalIf H E args
          else if f = Logic FIfs then evalIfs H E args
          else if f = Inherited then Inl TypeExn
          else bind (evalNodes H E args) (runEager H E f))"
| "evalNode H E (NBin x a b) =
     (if x = SAnd then bind (evalNode H E a) (\<lambda>v. if asBool v then bind (evalNode H E b) (\<lambda>w. Inr (VBool (asBool w)))
                                                    else Inr (VBool False))
      else if x = SOr then bind (evalNode H E a) (\<lambda>v. if asBool v then Inr (VBool True)
                                                    else bind (evalNode H E b) (\<lambda>w. Inr (VBool (asBool w))))
      else bind (evalNode H E a) (\<lambda>v. bind (evalNode H E b) (binVals H x v)))"
| "evalNodes H E [] = Inr []"
| "evalNodes H E (a # as) = bind (evalNode H E a) (\<lambda>v. bind (evalNodes H E as) (\<lambda>vs. Inr (v # vs)))"
| "evalIf H E (c # a # b # _) = bind (evalNode H E c) (\<lambda>v. if asBool v then evalNode H E a else evalNode H E b)"
| "evalIf H E _ = Inl TypeExn"
| "evalIfs H E [] = Inr VNull"
| "evalIfs H E [a] = evalNode H E a"
| "evalIfs H E (c # a # as) = bind (evalNode H E c) (\<lambda>v. if asBool v then evalNode H E a else evalIfs H E as)"

definition outputVal :: "fval \<Rightarrow> exn + pval" where
  "outputVal v =
     (case v of
        VDate d \<Rightarrow> bind (dateText d) (\<lambda>s. Inr (PStr s))
      | VList xs \<Rightarrow> bind (asTexts xs) (\<lambda>ts. Inr (PList ts))
      | VNum d \<Rightarrow> Inr (PNum (if isInteger d then d else roundDigits d))
      | VStr s \<Rightarrow> Inr (PStr s)
      | VBool b \<Rightarrow> Inr (PBool b)
      | VNull \<Rightarrow> Inr PNull)"

text \<open>The result of an evaluation; \<open>Crash\<close>: an exception that is neither a \<open>FormulaError\<close> nor a
  \<open>RangeError\<close> goes on to the caller.\<close>

datatype fresult = Value pval | Failure ferror | TooDeep | Crash

definition runFormula :: "host \<Rightarrow> node \<Rightarrow> env \<Rightarrow> fresult" where
  "runFormula H ast E =
     (case bind (evalNode H E ast) outputVal of
        Inr v \<Rightarrow> Value v
      | Inl (FormulaExn e) \<Rightarrow> Failure e
      | Inl RangeExn \<Rightarrow> TooDeep
      | Inl TypeExn \<Rightarrow> Crash)"

end
