(* ===== verification/FormulaCompile.thy ===== *)
theory FormulaCompile
  imports FormulaEval
begin

text \<open>
  Compiled formulas (\<open>plugin-api/src/formula.ts\<close>): what a formula reads, the aggregates a query
  engine can compute for it, its translation to a declarative filter, and \<open>compileFormula\<close>.  The
  filters are those of \<open>plugin-api/src/query.ts\<close>.
\<close>

section \<open>Filters\<close>

datatype doc_field = DPath | DTitle | DFolder | DExt | DCreated | DModified

datatype qfield = PropField jsstr | DocField doc_field | FormulaField jsstr

datatype filter_op = OpEq | OpNeq | OpLt | OpLte | OpGt | OpGte | OpContains | OpStartsWith | OpIn | OpEmpty | OpNotEmpty

datatype qfilter = QAnd "qfilter list" | QOr "qfilter list" | QNot qfilter | QTest qfield filter_op "pval option"

section \<open>What a formula reads\<close>

fun collect :: "node \<Rightarrow> jsstr list \<times> fn list \<Rightarrow> jsstr list \<times> fn list"
  and collectAll :: "node list \<Rightarrow> jsstr list \<times> fn list \<Rightarrow> jsstr list \<times> fn list" where
  "collect (NLit v) acc = acc"
| "collect (NProp s) acc = (setAdd s (fst acc), snd acc)"
| "collect (NUn x a) acc = collect a acc"
| "collect (NBin x a b) acc = collect b (collect a acc)"
| "collect (NTern c a b) acc = collect b (collect a (collect c acc))"
| "collect (NCall f args) acc = collectAll args (fst acc, setAdd f (snd acc))"
| "collect (NListLit xs) acc = collectAll xs acc"
| "collectAll [] acc = acc"
| "collectAll (a # as) acc = collectAll as (collect a acc)"

section \<open>Aggregates for a query engine\<close>

text \<open>\<open>None\<close> once a property or an aggregate that is not simple has been met (\<open>ok\<close> is false).\<close>

fun planWalk :: "node \<Rightarrow> (jsstr \<times> agg_call) list \<Rightarrow> (jsstr \<times> agg_call) list option"
  and planAll :: "node list \<Rightarrow> (jsstr \<times> agg_call) list \<Rightarrow> (jsstr \<times> agg_call) list option" where
  "planWalk (NLit v) out = Some out"
| "planWalk (NProp s) out = None"
| "planWalk (NUn x a) out = planWalk a out"
| "planWalk (NBin x a b) out = Option.bind (planWalk a out) (planWalk b)"
| "planWalk (NTern c a b) out = Option.bind (Option.bind (planWalk c out) (planWalk a)) (planWalk b)"
| "planWalk (NCall f args) out =
     (if isAggregate f
      then (case simpleAggregate f args of
              None \<Rightarrow> None
            | Some c \<Rightarrow> Some (AList.update (aggregateKey c) c out))
      else planAll args out)"
| "planWalk (NListLit xs) out = planAll xs out"
| "planAll [] out = Some out"
| "planAll (a # as) out = Option.bind (planWalk a out) (planAll as)"

definition aggregatePlan :: "node \<Rightarrow> agg_call list option" where
  "aggregatePlan ast = (case planWalk ast [] of
     None \<Rightarrow> None
   | Some out \<Rightarrow> if out = [] then None else Some (map snd out))"

section \<open>A formula as a filter\<close>

definition fieldOfProp :: "jsstr \<Rightarrow> qfield" where
  "fieldOfProp s = (if isTitleName s then DocField DTitle else PropField s)"

definition flipOp :: "sym \<Rightarrow> sym" where
  "flipOp x = (case x of SLt \<Rightarrow> SGt | SGt \<Rightarrow> SLt | SLe \<Rightarrow> SGe | SGe \<Rightarrow> SLe | _ \<Rightarrow> x)"

definition filterOp :: "sym \<Rightarrow> filter_op option" where
  "filterOp x = (case x of SEq \<Rightarrow> Some OpEq | SNeq \<Rightarrow> Some OpNeq | SLt \<Rightarrow> Some OpLt | SLe \<Rightarrow> Some OpLte
     | SGt \<Rightarrow> Some OpGt | SGe \<Rightarrow> Some OpGte | _ \<Rightarrow> None)"

text \<open>The comparison of a property with a literal; an empty value counts as 0 in a comparison of
  numbers.\<close>

definition zeroPasses :: "sym \<Rightarrow> dbl \<Rightarrow> bool" where
  "zeroPasses x d = (if x = SLt then dlt dzero d else if x = SLe then dle dzero d
     else if x = SGt then dlt d dzero else dle d dzero)"

definition testFilter :: "jsstr \<Rightarrow> sym \<Rightarrow> filter_op \<Rightarrow> fval \<Rightarrow> qfilter option" where
  "testFilter s x fop lit =
     (let field = fieldOfProp s; empty = QTest field OpEmpty None
      in case lit of
           VBool b \<Rightarrow>
             if x = SEq then Some (QTest field OpEq (Some (PBool b)))
             else if x = SNeq then Some (QOr [empty, QTest field OpNeq (Some (PBool b))])
             else None
         | VNum d \<Rightarrow>
             if x = SEq then Some (QTest field OpEq (Some (PNum d)))
             else if x = SNeq then Some (QOr [empty, QTest field OpNeq (Some (PNum d))])
             else let cmp = QTest field fop (Some (PNum d))
                  in Some (if zeroPasses x d then QOr [empty, cmp] else cmp)
         | _ \<Rightarrow> None)"

definition compareFilter :: "sym \<Rightarrow> node \<Rightarrow> node \<Rightarrow> qfilter option" where
  "compareFilter x a b =
     (if filterOp x = None then None
      else case (a, b) of
             (NProp s, NLit v) \<Rightarrow> testFilter s x (the (filterOp x)) v
           | (NLit v, NProp s) \<Rightarrow> testFilter s (flipOp x) (the (filterOp (flipOp x))) v
           | _ \<Rightarrow> None)"

fun toFilterNode :: "node \<Rightarrow> qfilter option" where
  "toFilterNode (NBin x a b) =
     (if x = SAnd \<or> x = SOr
      then (case (toFilterNode a, toFilterNode b) of
              (Some f, Some g) \<Rightarrow> Some (if x = SAnd then QAnd [f, g] else QOr [f, g])
            | _ \<Rightarrow> None)
      else compareFilter x a b)"
| "toFilterNode (NUn x a) = (if x = SNot then map_option QNot (toFilterNode a) else None)"
| "toFilterNode (NCall f [a]) =
     (if f = Logic FNot then map_option QNot (toFilterNode a)
      else if f = Logic FEmpty
      then (case a of NProp s \<Rightarrow> Some (QTest (fieldOfProp s) OpEmpty None) | _ \<Rightarrow> None)
      else None)"
| "toFilterNode _ = None"

section \<open>Compilation\<close>

record formula =
  fmSource :: jsstr
  fmAst :: node
  fmProps :: "jsstr list"
  fmAggregates :: bool
  fmCalls :: "agg_call list option"

text \<open>\<open>None\<close> would be a parser that does not return.\<close>

definition compileFormula :: "host \<Rightarrow> jsstr \<Rightarrow> (ferror + formula) option" where
  "compileFormula H src =
     (if maxFormula < length src then Some (Inl FormulaTooLong)
      else if trim src = [] then Some (Inl FormulaBlank)
      else case tokenize H 0 src of
             Inl e \<Rightarrow> Some (Inl e)
           | Inr ts \<Rightarrow>
               map_option (map_sum id (\<lambda>ast. let found = collect ast ([], []) in
                 \<lparr>fmSource = src, fmAst = ast, fmProps = fst found,
                  fmAggregates = list_ex isAggregate (snd found), fmCalls = aggregatePlan ast\<rparr>))
                 (parseTokens H ts))"

definition evaluate :: "host \<Rightarrow> formula \<Rightarrow> jsstr \<Rightarrow> (jsstr \<times> pval) list \<Rightarrow> nat option \<Rightarrow> dbl \<Rightarrow> fresult" where
  "evaluate H f title values n now = runFormula H (fmAst f)
     \<lparr>envTitle = title, envValues = values, envRowCount = n, envNow = now, envPresets = None\<rparr>"

definition evaluateAggregates :: "host \<Rightarrow> formula \<Rightarrow> (jsstr \<times> pval) list \<Rightarrow> dbl \<Rightarrow> fresult" where
  "evaluateAggregates H f ps now = runFormula H (fmAst f)
     \<lparr>envTitle = [], envValues = [], envRowCount = None, envNow = now, envPresets = Some ps\<rparr>"

definition toFilter :: "formula \<Rightarrow> qfilter option" where
  "toFilter f = toFilterNode (fmAst f)"

section \<open>Compilation always returns a well-formed formula\<close>

lemma compileFormula_Inr:
  assumes "compileFormula H src = Some (Inr f)"
  obtains ts where "tokenize H 0 src = Inr ts" "parseTokens H ts = Some (Inr (fmAst f))"
    "fmSource f = src" "fmProps f = fst (collect (fmAst f) ([], []))"
    "fmAggregates f = list_ex isAggregate (snd (collect (fmAst f) ([], [])))"
    "fmCalls f = aggregatePlan (fmAst f)" "length src \<le> maxFormula" "trim src \<noteq> []"
proof -
  from assms obtain ts where l: "\<not> maxFormula < length src" "trim src \<noteq> []" and ts: "tokenize H 0 src = Inr ts"
    by (auto simp: compileFormula_def split: if_splits sum.splits)
  with assms obtain r where r: "parseTokens H ts = Some r"
    by (auto simp: compileFormula_def)
  then obtain a where "r = Inr a" using assms l ts by (cases r) (auto simp: compileFormula_def)
  then show thesis using that [of ts] assms l ts r by (auto simp: compileFormula_def Let_def)
qed

text \<open>C24: compiling a formula always returns: an error, or a formula whose source is within the
  limit and whose tree is well-formed, that is, literals are doubles, texts and booleans, operators
  are at their place, and every function has a number of arguments it accepts.\<close>

theorem compileFormula_total:
  "\<exists>r. compileFormula H src = Some r \<and>
     (\<forall>f. r = Inr f \<longrightarrow> wfNode (fmAst f) \<and> fmSource f = src \<and> length src \<le> maxFormula \<and> trim src \<noteq> [])"
proof (cases "maxFormula < length src \<or> trim src = []")
  case False
  show ?thesis
  proof (cases "tokenize H 0 src")
    case (Inr ts)
    obtain r where "parseTokens H ts = Some r" "\<forall>a. r = Inr a \<longrightarrow> wfNode a"
      using parseTokens_ok by blast
    then show ?thesis using False Inr by (cases r) (auto simp: compileFormula_def Let_def)
  qed (use False in \<open>auto simp: compileFormula_def\<close>)
qed (auto simp: compileFormula_def)

section \<open>A formula depends on the properties it lists\<close>

lemma collect_mono:
  "set (fst acc) \<subseteq> set (fst (collect n acc)) \<and> set (snd acc) \<subseteq> set (snd (collect n acc))"
  "set (fst acc) \<subseteq> set (fst (collectAll ns acc)) \<and> set (snd acc) \<subseteq> set (snd (collectAll ns acc))"
  by (induction n acc and ns acc rule: collect_collectAll.induct) (auto simp: subset_iff)

definition agreeOn :: "jsstr list \<Rightarrow> env \<Rightarrow> env \<Rightarrow> bool" where
  "agreeOn ps E E' \<longleftrightarrow> envTitle E = envTitle E' \<and> envRowCount E = envRowCount E' \<and> envNow E = envNow E'
     \<and> envPresets E = None \<and> envPresets E' = None
     \<and> (\<forall>p \<in> set ps. map_of (envValues E) p = map_of (envValues E') p)"

lemma agreeOn_subset: "agreeOn ps E E' \<Longrightarrow> set qs \<subseteq> set ps \<Longrightarrow> agreeOn qs E E'"
  by (auto simp: agreeOn_def)

lemma agreeOn_collect: "agreeOn (fst (collect n acc)) E E' \<Longrightarrow> agreeOn (fst acc) E E'"
  "agreeOn (fst (collectAll ns acc)) E E' \<Longrightarrow> agreeOn (fst acc) E E'"
  using collect_mono agreeOn_subset by blast+

lemma runEager_agree: "agreeOn ps E E' \<Longrightarrow> runEager H E f vs = runEager H E' f vs"
  by (auto simp: runEager_def runNum_def runDate_def agreeOn_def Let_def
      split: fn.splits logic_fn.splits num_fn.splits date_fn.splits)

text \<open>Lists of arguments are evaluated like their members.\<close>

lemma evalIfs_cong:
  "\<forall>a \<in> set as. evalNode H E a = evalNode H E' a \<Longrightarrow> evalIfs H E as = evalIfs H E' as"
proof (induction as rule: induct_list012)
  case (3 c a as)
  then have "evalIfs H E as = evalIfs H E' as" by simp
  then show ?case using 3(3) by (simp add: bind_def cong: sum.case_cong if_cong)
qed simp_all

lemma evalArgs_cong:
  assumes "\<forall>a \<in> set as. evalNode H E a = evalNode H E' a"
  shows "evalNodes H E as = evalNodes H E' as" "evalIf H E as = evalIf H E' as" "evalIfs H E as = evalIfs H E' as"
proof -
  show "evalNodes H E as = evalNodes H E' as" using assms by (induction as) auto
  show "evalIf H E as = evalIf H E' as"
    using assms by (cases as; cases "tl as"; cases "tl (tl as)"; simp add: bind_def cong: sum.case_cong if_cong)
qed (rule evalIfs_cong [OF assms])

lemma evalCall_cong:
  assumes "\<forall>a \<in> set as. evalNode H E a = evalNode H E' a" "presetValue E f as = presetValue E' f as"
    "\<And>vs. runEager H E f vs = runEager H E' f vs"
  shows "evalNode H E (NCall f as) = evalNode H E' (NCall f as)"
  using assms evalArgs_cong [OF assms(1)]
  by (simp add: bind_def split: option.splits sum.splits)

lemma eval_agree_all:
  "agreeOn (fst (collect n acc)) E E' \<Longrightarrow> evalNode H E n = evalNode H E' n"
  "agreeOn (fst (collectAll ns acc)) E E' \<Longrightarrow> \<forall>a \<in> set ns. evalNode H E a = evalNode H E' a"
proof (induction n acc and ns acc rule: collect_collectAll.induct)
  case (2 s acc)
  then show ?case by (cases "map_of (envValues E') s") (simp_all add: agreeOn_def propValue_def)
next
  case (4 x a b acc)
  then show ?case using agreeOn_collect(1) [of b "collect a acc"] by (simp cong: if_cong)
next
  case (5 c a b acc)
  then show ?case using agreeOn_collect(1) [of b "collect a (collect c acc)"]
      agreeOn_collect(1) [of a "collect c acc"] by (simp cong: if_cong)
next
  case (6 f args acc)
  then have g: "agreeOn (fst (collectAll args (fst acc, setAdd f (snd acc)))) E E'" by simp
  then have "presetValue E f args = presetValue E' f args" by (simp add: agreeOn_def presetValue_def)
  then show ?case using 6(1) [OF g] runEager_agree [OF g] by (intro evalCall_cong) auto
next
  case (7 xs acc)
  then show ?case using evalArgs_cong(1) [of xs H E E'] by simp
next
  case (9 a as acc)
  then show ?case using agreeOn_collect(2) [of as "collect a acc"] by auto
qed simp_all

text \<open>C25: the value of a formula on a row depends only on the title, the number of rows and the
  properties the formula lists in \<open>props\<close>.\<close>

theorem evaluate_depends_on_props:
  assumes "compileFormula H src = Some (Inr f)"
    and "\<forall>p \<in> set (fmProps f). map_of values p = map_of values' p"
  shows "evaluate H f title values n now = evaluate H f title values' n now"
proof -
  have "agreeOn (fst (collect (fmAst f) ([], [])))
      \<lparr>envTitle = title, envValues = values, envRowCount = n, envNow = now, envPresets = None\<rparr>
      \<lparr>envTitle = title, envValues = values', envRowCount = n, envNow = now, envPresets = None\<rparr>"
    using assms by (auto simp: agreeOn_def elim!: compileFormula_Inr)
  from eval_agree_all(1) [OF this] show ?thesis by (simp add: evaluate_def runFormula_def)
qed

text \<open>An engine that knows ASCII only, for examples.\<close>

definition asciiLower :: "jsstr \<Rightarrow> jsstr" where
  "asciiLower s = map (\<lambda>c. if 65 \<le> c \<and> c \<le> 90 then c + 32 else c) s"

definition asciiHost :: host where
  "asciiHost = \<lparr>hLetter = \<lambda>n. 65 \<le> n \<and> n \<le> 90 \<or> 97 \<le> n \<and> n \<le> 122, hNumeral = \<lambda>n. 48 \<le> n \<and> n \<le> 57,
     hLower = asciiLower, hUpper = map (\<lambda>c. if 97 \<le> c \<and> c \<le> 122 then c - 32 else c),
     hCollate = \<lambda>a b. if a < b then - 1 else if b < a then 1 else 0, hNfd = \<lambda>s. s,
     hPow = \<lambda>x y. NaN, hSqrt = \<lambda>x. NaN, hDateParse = \<lambda>s. NaN\<rparr>"

definition compiledAst :: "host \<Rightarrow> jsstr \<Rightarrow> node option" where
  "compiledAst H src = (case compileFormula H src of Some (Inr f) \<Rightarrow> Some (fmAst f) | _ \<Rightarrow> None)"

text \<open>Evaluation of the parser on given tokens.\<close>

lemma methods_step:
  assumes "0 < n"
  shows "mTernary (methods H n) d ts = ternary H (methods H (n - 1)) d ts"
    "mBinary (methods H n) l d ts = binary H (methods H (n - 1)) l d ts"
    "mLoop (methods H n) l d a ts = binaryLoop H (methods H (n - 1)) l d a ts"
    "mUnary (methods H n) d ts = unary H (methods H (n - 1)) d ts"
    "mPow (methods H n) d ts = powExp H (methods H (n - 1)) d ts"
    "mPostfix (methods H n) d ts = postfix H (methods H (n - 1)) d ts"
    "mDots (methods H n) d a ts = dots H (methods H (n - 1)) d a ts"
    "mArgs (methods H n) d ts = callArgs H (methods H (n - 1)) d ts"
    "mItems (methods H n) d ts = items H (methods H (n - 1)) d ts"
    "mPrimary (methods H n) d ts = primary H (methods H (n - 1)) d ts"
  using assms by (cases n; simp add: Let_def)+

lemma pbind_eval:
  "pbind (pret a ts) k = k a ts" "pbind (pfail e) k = pfail e" "plift (Inr a) f = f a" "plift (Inl e) f = pfail e"
  by (simp_all add: pbind_def pret_def pfail_def plift_def)

lemma case_parsed: "(case pret a ts of None \<Rightarrow> x | Some y \<Rightarrow> f y) = f (Inr (a, ts))"
  "(case pfail e of None \<Rightarrow> x | Some y \<Rightarrow> f y) = f (Inl e)"
  by (simp_all add: pret_def pfail_def)

lemma pbind_weak_cong: "r = r' \<Longrightarrow> pbind r k = pbind r' k"
  by simp

lemma plift_weak_cong: "r = r' \<Longrightarrow> plift r k = plift r' k"
  by simp

lemmas parser_eval = case_parsed methods_step pbind_eval ternary_def binary_def binaryLoop_def unary_def powExp_def
  postfix_def dots_def callArgs_def items_def namePrimary_def primary_def levelOps_def isOp_def peek_def
  expect_def maxDepth_def

lemma tok1: "tokenize asciiHost 0 (js ''prop(\"a\") < 5'') = Inr [(TId (js ''prop''), 0), (TOp SOpen, 4), (TStr (js ''a''), 5), (TOp SClose, 8), (TOp SLt, 10), (TNum (js ''5''), 12), (TEnd, 13)]"
  by code_simp

lemma asciiHost_lower [simp]: "hLower asciiHost = asciiLower"
  by (simp add: asciiHost_def)

text \<open>Two formulas used as examples.\<close>

definition lessFive :: jsstr where "lessFive = js ''prop(\"a\") < 5''"
definition protoCall :: jsstr where "protoCall = js ''constructor()''"

lemma compile_lessFive:
  "\<exists>f. compileFormula asciiHost lessFive = Some (Inr f) \<and> fmProps f = [js ''a'']
     \<and> fmAst f = NBin SLt (NProp (js ''a'')) (NLit (VNum (numberOf (js ''5''))))"
proof -
  have "tokenize asciiHost 0 lessFive = Inr [(TId (js ''prop''), 0), (TOp SOpen, 4), (TStr (js ''a''), 5),
      (TOp SClose, 8), (TOp SLt, 10), (TNum (js ''5''), 12), (TEnd, 13)]"
    unfolding lessFive_def by code_simp
  moreover have "parseTokens asciiHost [(TId (js ''prop''), 0), (TOp SOpen, 4), (TStr (js ''a''), 5),
      (TOp SClose, 8), (TOp SLt, 10), (TNum (js ''5''), 12), (TEnd, 13)]
    = Some (Inr (NBin SLt (NProp (js ''a'')) (NLit (VNum (numberOf (js ''5''))))))"
    by (simp add: parseTokens_def parseFuel_def parser_eval asciiLower_def wordOp_def mkCall_def js_def
        cong: pbind_weak_cong plift_weak_cong)
  moreover have "\<not> maxFormula < length lessFive" "trim lessFive \<noteq> []"
    unfolding lessFive_def by code_simp+
  ultimately show ?thesis by (simp add: compileFormula_def Let_def setAdd_def)
qed

lemma compile_protoCall:
  "\<exists>f. compileFormula asciiHost protoCall = Some (Inr f) \<and> fmAst f = NCall Inherited []"
proof -
  have "tokenize asciiHost 0 protoCall = Inr [(TId (js ''constructor''), 0), (TOp SOpen, 11),
      (TOp SClose, 12), (TEnd, 13)]"
    unfolding protoCall_def by code_simp
  moreover have "parseTokens asciiHost [(TId (js ''constructor''), 0), (TOp SOpen, 11), (TOp SClose, 12),
      (TEnd, 13)] = Some (Inr (NCall Inherited []))"
    by (simp add: parseTokens_def parseFuel_def parser_eval asciiLower_def wordOp_def mkCall_def js_def
        fnEntry_def FUNCTIONS_def inheritedName_def cong: pbind_weak_cong plift_weak_cong)
  moreover have "\<not> maxFormula < length protoCall" "trim protoCall \<noteq> []"
    unfolding protoCall_def by code_simp+
  ultimately show ?thesis by (simp add: compileFormula_def Let_def)
qed

theorem compileFormula_total_witness:
  "\<exists>f. compileFormula asciiHost lessFive = Some (Inr f) \<and> wfNode (fmAst f)"
  using compileFormula_total [of asciiHost lessFive] compile_lessFive by auto

theorem evaluate_depends_on_props_witness:
  "\<exists>f. compileFormula asciiHost lessFive = Some (Inr f) \<and>
     evaluate asciiHost f [] [(js ''b'', PBool True)] None dzero = evaluate asciiHost f [] [(js ''c'', PNull)] None dzero"
proof -
  obtain f where f: "compileFormula asciiHost lessFive = Some (Inr f)" "fmProps f = [js ''a'']"
    using compile_lessFive by blast
  then show ?thesis
    using evaluate_depends_on_props [OF f(1), of "[(js ''b'', PBool True)]" "[(js ''c'', PNull)]"]
    by (simp add: js_def)
qed

section \<open>Which formulas crash\<close>

definition noCrash :: "exn + 'a \<Rightarrow> bool" where
  "noCrash r \<longleftrightarrow> r \<noteq> Inl TypeExn"

named_theorems safe_intros \<open>results that are not a TypeError\<close>

lemma noCrash_Inr [safe_intros, simp]: "noCrash (Inr a)"
  by (simp add: noCrash_def)

lemma noCrash_throw [safe_intros, simp]: "noCrash (throw e)"
  by (simp add: noCrash_def throw_def)

lemma noCrash_Range [safe_intros, simp]: "noCrash (Inl RangeExn)"
  by (simp add: noCrash_def)

lemma noCrash_bind [safe_intros]: "noCrash r \<Longrightarrow> (\<And>a. r = Inr a \<Longrightarrow> noCrash (k a)) \<Longrightarrow> noCrash (bind r k)"
  by (auto simp: noCrash_def bind_def split: sum.splits)

lemma noCrash_mapM: "(\<And>x. x \<in> set xs \<Longrightarrow> noCrash (f x)) \<Longrightarrow> noCrash (mapM f xs)"
  by (induction xs) (auto intro!: safe_intros)

lemma noCrash_dateText [safe_intros]: "noCrash (dateText d)"
  by (simp add: dateText_def split: option.splits)

lemma noCrash_asText_all: "noCrash (asText v)" "noCrash (asTexts vs)"
  by (induction v and vs rule: asText_asTexts.induct) (auto intro!: safe_intros)

lemmas noCrash_asText [safe_intros] = noCrash_asText_all

lemma noCrash_asNumber [safe_intros]: "noCrash (asNumber v)"
  by (auto simp: asNumber_def split: fval.splits intro!: safe_intros)

lemma noCrash_asDate [safe_intros]: "noCrash (asDate H v)"
  by (auto simp: asDate_def Let_def split: fval.splits intro!: safe_intros)

lemma noCrash_compareVals [safe_intros]: "noCrash (compareVals H a b)"
  by (auto simp: compareVals_def intro!: safe_intros)

lemma noCrash_equalVals [safe_intros]: "noCrash (equalVals H a b)"
  by (auto simp: equalVals_def intro!: safe_intros)

lemma noCrash_checkFinite [safe_intros]: "noCrash (checkFinite d)"
  by (simp add: checkFinite_def)

lemma noCrash_unitOf [safe_intros]: "noCrash (unitOf H v)"
  by (auto simp: unitOf_def Let_def split: option.splits intro!: safe_intros)

lemma noCrash_extreme [safe_intros]: "noCrash (extreme H mx args)"
  by (auto simp: extreme_def Let_def intro!: safe_intros noCrash_mapM)

lemma noCrash_sortE [safe_intros]: "noCrash (sortE H xs)"
proof -
  have "noCrash (insertE H x ys)" for x ys
    by (induction ys) (auto intro!: safe_intros)
  then show ?thesis by (induction xs) (auto intro!: safe_intros)
qed

lemma noCrash_uniqueE [safe_intros]: "noCrash (uniqueE H xs)"
proof -
  have "noCrash (firstEqual H x ys n)" for x ys n
    by (induction ys arbitrary: n) (auto intro!: safe_intros)
  then show ?thesis by (auto simp: uniqueE_def intro!: safe_intros noCrash_mapM)
qed

lemma noCrash_anyE: "(\<And>x. noCrash (f x)) \<Longrightarrow> noCrash (anyE f xs)"
  by (induction xs) (auto intro!: safe_intros)

lemma noCrash_texts [safe_intros]: "noCrash (num1 f a)" "noCrash (text1 g a)" "noCrash (text2 h a b)"
  by (auto simp: num1_def text1_def text2_def intro!: safe_intros)

lemma noCrash_runText: "noCrash (runText H f args)"
  by (auto simp: runText_def Let_def intro!: safe_intros noCrash_mapM noCrash_anyE split: text_fn.splits fval.splits)

lemma noCrash_runNum: "noCrash (runNum H E f args)"
  by (cases f) (auto simp: runNum_def Let_def intro!: safe_intros)

lemma noCrash_runList: "noCrash (runList H f args)"
  by (cases f) (auto simp: runList_def Let_def intro!: safe_intros)

lemma noCrash_runDate: "noCrash (runDate H E f args)"
  by (cases f) (auto simp: runDate_def dateField_def Let_def intro!: safe_intros)

lemma noCrash_runEager:
  "f \<noteq> Inherited \<Longrightarrow> f \<noteq> Logic FIf \<Longrightarrow> f \<noteq> Logic FIfs \<Longrightarrow> noCrash (runEager H E f args)"
  by (auto simp: runEager_def noCrash_runText noCrash_runNum noCrash_runList noCrash_runDate
      split: fn.splits logic_fn.splits)

lemma noCrash_binVals [safe_intros]: "noCrash (binVals H x a b)"
  by (cases x) (auto simp: binVals_def addVals_def arith_def Let_def intro!: safe_intros)

lemma noCrash_args:
  assumes "\<forall>a \<in> set as. noCrash (evalNode H E a)"
  shows "noCrash (evalNodes H E as)" "noCrash (evalIfs H E as)" "3 \<le> length as \<Longrightarrow> noCrash (evalIf H E as)"
proof -
  show "noCrash (evalNodes H E as)" using assms by (induction as) (auto intro!: safe_intros)
  show "noCrash (evalIfs H E as)"
    using assms by (induction as rule: induct_list012) (auto intro!: safe_intros)
  show "noCrash (evalIf H E as)" if "3 \<le> length as"
    using assms that by (cases as; cases "tl as"; cases "tl (tl as)"; auto intro!: safe_intros)
qed

fun callsInherited :: "node \<Rightarrow> bool" where
  "callsInherited (NCall f args) = (f = Inherited \<or> (\<exists>a \<in> set args. callsInherited a))"
| "callsInherited (NUn x a) = callsInherited a"
| "callsInherited (NBin x a b) = (callsInherited a \<or> callsInherited b)"
| "callsInherited (NTern c a b) = (callsInherited c \<or> callsInherited a \<or> callsInherited b)"
| "callsInherited (NListLit xs) = (\<exists>a \<in> set xs. callsInherited a)"
| "callsInherited _ = False"

lemma arityOk_if: "arityOk (Logic FIf) n \<Longrightarrow> n = 3"
  by (simp add: arityOk_def FUNCTIONS_def)

lemma noCrash_evalNode: "wfNode n \<Longrightarrow> \<not> callsInherited n \<Longrightarrow> noCrash (evalNode H E n)"
proof (induction n)
  case (NCall f args)
  then have a: "\<forall>a \<in> set args. noCrash (evalNode H E a)" by simp
  have "f = Logic FIf \<Longrightarrow> 3 \<le> length args" using NCall.prems(1) arityOk_if by fastforce
  then show ?case using noCrash_args [OF a] NCall.prems(2)
    by (auto intro!: safe_intros noCrash_runEager split: option.splits)
next
  case (NListLit xs)
  then have "noCrash (evalNodes H E xs)" by (intro noCrash_args) simp
  then show ?case by (auto intro!: safe_intros)
qed (auto intro!: safe_intros)

lemma noCrash_outputVal: "noCrash (outputVal v)"
  by (auto simp: outputVal_def intro!: safe_intros split: fval.splits)

lemma runFormula_Crash:
  assumes "wfNode n" "runFormula H n E = Crash"
  shows "callsInherited n"
proof (rule ccontr)
  assume "\<not> callsInherited n"
  then have "noCrash (bind (evalNode H E n) outputVal)"
    using assms(1) by (auto intro!: safe_intros noCrash_evalNode noCrash_outputVal)
  then show False using assms(2)
    by (auto simp: runFormula_def noCrash_def split: sum.splits exn.splits)
qed

text \<open>C26: evaluating a compiled formula on a row, or on aggregates, gives a value or an error
  message; only a formula that calls \<open>constructor\<close> or \<open>__proto__\<close>, names that the table of
  functions inherits, can throw to its caller, and \<open>constructor()\<close> compiles and does so on every
  row.\<close>

theorem evaluate_throws_only_inherited:
  "compileFormula H src = Some (Inr f) \<Longrightarrow>
     ((\<exists>title values n now. evaluate H f title values n now = Crash)
      \<or> (\<exists>ps now. evaluateAggregates H f ps now = Crash) \<longrightarrow> callsInherited (fmAst f))
   \<and> (\<exists>g. compileFormula asciiHost protoCall = Some (Inr g)
        \<and> (\<forall>title values n now. evaluate asciiHost g title values n now = Crash))"
proof (intro conjI impI)
  assume f: "compileFormula H src = Some (Inr f)"
  then have "wfNode (fmAst f)" using compileFormula_total [of H src] by auto
  then show "callsInherited (fmAst f)"
    if "(\<exists>title values n now. evaluate H f title values n now = Crash)
      \<or> (\<exists>ps now. evaluateAggregates H f ps now = Crash)"
    using that runFormula_Crash unfolding evaluate_def evaluateAggregates_def by blast
  obtain g where g: "compileFormula asciiHost protoCall = Some (Inr g)" "fmAst g = NCall Inherited []"
    using compile_protoCall by blast
  then show "\<exists>g. compileFormula asciiHost protoCall = Some (Inr g)
        \<and> (\<forall>title values n now. evaluate asciiHost g title values n now = Crash)"
    by (auto simp: evaluate_def runFormula_def presetValue_def bind_def)
qed

theorem evaluate_throws_only_inherited_witness:
  "\<exists>f. compileFormula asciiHost lessFive = Some (Inr f) \<and> evaluate asciiHost f [] [] None dzero \<noteq> Crash"
proof -
  obtain f where "compileFormula asciiHost lessFive = Some (Inr f)"
    "fmAst f = NBin SLt (NProp (js ''a'')) (NLit (VNum (numberOf (js ''5''))))"
    using compile_lessFive by blast
  then show ?thesis using evaluate_throws_only_inherited [of asciiHost lessFive f] by auto
qed

section \<open>Formulas on aggregates\<close>

text \<open>The presets give the same values to the planned calls.\<close>

definition samePresets :: "(jsstr \<times> agg_call) list \<Rightarrow> env \<Rightarrow> env \<Rightarrow> bool" where
  "samePresets out E E' \<longleftrightarrow> (\<exists>ps qs. E' = E\<lparr>envPresets := Some qs\<rparr> \<and> envPresets E = Some ps
     \<and> (\<forall>k \<in> fst ` set out. map_of ps k = map_of qs k))"

lemma keys_update: "fst ` set (AList.update k v al) = insert k (fst ` set al)"
  by (induction al) auto

lemma plan_mono:
  "planWalk n out = Some out' \<Longrightarrow> fst ` set out \<subseteq> fst ` set out'"
  "planAll ns out = Some out' \<Longrightarrow> fst ` set out \<subseteq> fst ` set out'"
proof (induction n out and ns out arbitrary: out' and out' rule: planWalk_planAll.induct)
  case (4 x a b out)
  then obtain o1 where o: "planWalk a out = Some o1" "planWalk b o1 = Some out'" by (auto split: bind_splits)
  show ?case using 4(1) [OF o(1)] 4(2) [OF o] by (rule subset_trans)
next
  case (5 c a b out)
  then obtain o1 o2 where o: "planWalk c out = Some o1" "planWalk a o1 = Some o2" "planWalk b o2 = Some out'"
    by (auto split: bind_splits)
  then have oc: "Option.bind (planWalk c out) (planWalk a) = Some o2" by simp
  show ?case using subset_trans [OF 5(1) [OF o(1)] subset_trans [OF 5(2) [OF o(1,2)] 5(3) [OF oc o(3)]]] .
next
  case (9 a as out)
  then obtain o1 where o: "planWalk a out = Some o1" "planAll as o1 = Some out'" by (auto split: bind_splits)
  show ?case using 9(1) [OF o(1)] 9(2) [OF o] by (rule subset_trans)
next
  case (6 f args out)
  show ?case
  proof (cases "isAggregate f")
    case True
    then obtain c where "out' = AList.update (aggregateKey c) c out" using 6 by (auto split: option.splits)
    then show ?thesis by (simp add: keys_update subset_insertI)
  next
    case False
    then have "planAll args out = Some out'" using 6(2) by simp
    then show ?thesis using 6(1) [OF False] by blast
  qed
qed simp_all

lemma samePresets_mono: "samePresets out' E E' \<Longrightarrow> fst ` set out \<subseteq> fst ` set out' \<Longrightarrow> samePresets out E E'"
  unfolding samePresets_def by blast

lemma runEager_presets: "samePresets out E E' \<Longrightarrow> runEager H E f vs = runEager H E' f vs"
  by (auto simp: runEager_def runNum_def runDate_def samePresets_def Let_def
      split: fn.splits logic_fn.splits num_fn.splits date_fn.splits)

lemma eval_same_presets:
  "planWalk n out = Some out' \<Longrightarrow> samePresets out' E E' \<Longrightarrow> evalNode H E n = evalNode H E' n"
  "planAll ns out = Some out' \<Longrightarrow> samePresets out' E E' \<Longrightarrow> \<forall>a \<in> set ns. evalNode H E a = evalNode H E' a"
proof (induction n out and ns out arbitrary: out' and out' rule: planWalk_planAll.induct)
  case (4 x a b out)
  then obtain o1 where o1: "planWalk a out = Some o1" "planWalk b o1 = Some out'" by (auto split: bind_splits)
  have "samePresets o1 E E'" by (rule samePresets_mono [OF 4(4) plan_mono(1) [OF o1(2)]])
  then have "evalNode H E a = evalNode H E' a" "evalNode H E b = evalNode H E' b"
    using 4 o1 by blast+
  then show ?case by (simp cong: if_cong)
next
  case (5 c a b out)
  then obtain o1 o2 where o: "planWalk c out = Some o1" "planWalk a o1 = Some o2" "planWalk b o2 = Some out'"
    by (auto split: bind_splits)
  have oc: "Option.bind (planWalk c out) (planWalk a) = Some o2" using o by simp
  have o2: "samePresets o2 E E'" by (rule samePresets_mono [OF 5(5) plan_mono(1) [OF o(3)]])
  then have o1: "samePresets o1 E E'" by (rule samePresets_mono [OF _ plan_mono(1) [OF o(2)]])
  then have "evalNode H E c = evalNode H E' c" "evalNode H E a = evalNode H E' a" "evalNode H E b = evalNode H E' b"
    using 5(1) [OF o(1)] 5(2) [OF o(1,2)] 5(3) [OF oc o(3) 5(5)] o2 o1 by blast+
  then show ?case by (simp cong: if_cong)
next
  case (6 f args out)
  show ?case
  proof (cases "isAggregate f")
    case True
    then obtain c where c: "simpleAggregate f args = Some c" "out' = AList.update (aggregateKey c) c out"
      using 6 by (auto split: option.splits)
    then have "presetValue E f args = presetValue E' f args" "presetValue E f args \<noteq> None"
      using True 6 by (auto simp: presetValue_def samePresets_def keys_update)
    then show ?thesis by auto
  next
    case False
    then have "presetValue E f args = None" "presetValue E' f args = None"
      using 6 by (auto simp: presetValue_def split: option.splits)
    moreover have "\<forall>a \<in> set args. evalNode H E a = evalNode H E' a" using 6 False by auto
    ultimately show ?thesis using runEager_presets [OF 6(3)] by (intro evalCall_cong) simp_all
  qed
next
  case (7 xs out)
  then show ?case using evalArgs_cong(1) [of xs H E E'] by simp
next
  case (9 a as out)
  then obtain o1 where o1: "planWalk a out = Some o1" "planAll as o1 = Some out'" by (auto split: bind_splits)
  have "samePresets o1 E E'" by (rule samePresets_mono [OF 9(4) plan_mono(2) [OF o1(2)]])
  then have "evalNode H E a = evalNode H E' a" using 9(1) o1(1) by blast
  moreover have "\<forall>a \<in> set as. evalNode H E a = evalNode H E' a" using 9(2) [OF o1(1)] o1 9(4) by blast
  ultimately show ?case by simp
qed simp_all

text \<open>Every planned call is filed under its key.\<close>

definition keyed :: "(jsstr \<times> agg_call) list \<Rightarrow> bool" where
  "keyed out \<longleftrightarrow> (\<forall>(k, c) \<in> set out. k = aggregateKey c)"

lemma keyed_update: "keyed out \<Longrightarrow> keyed (AList.update (aggregateKey c) c out)"
  unfolding keyed_def by (induction out) auto

lemma plan_keyed:
  "planWalk n out = Some out' \<Longrightarrow> keyed out \<Longrightarrow> keyed out'"
  "planAll ns out = Some out' \<Longrightarrow> keyed out \<Longrightarrow> keyed out'"
proof (induction n out and ns out arbitrary: out' and out' rule: planWalk_planAll.induct)
  case (4 x a b out)
  then obtain o1 where o: "planWalk a out = Some o1" "planWalk b o1 = Some out'" by (auto split: bind_splits)
  show ?case by (rule 4(2) [OF o 4(1) [OF o(1) 4(4)]])
next
  case (5 c a b out)
  then obtain o1 o2 where o: "planWalk c out = Some o1" "planWalk a o1 = Some o2" "planWalk b o2 = Some out'"
    by (auto split: bind_splits)
  then have oc: "Option.bind (planWalk c out) (planWalk a) = Some o2" by simp
  show ?case by (rule 5(3) [OF oc o(3) 5(2) [OF o(1,2) 5(1) [OF o(1) 5(5)]]])
next
  case (9 a as out)
  then obtain o1 where o: "planWalk a out = Some o1" "planAll as o1 = Some out'" by (auto split: bind_splits)
  show ?case by (rule 9(2) [OF o 9(1) [OF o(1) 9(4)]])
next
  case (6 f args out)
  show ?case
  proof (cases "isAggregate f")
    case True
    then obtain c where "out' = AList.update (aggregateKey c) c out" using 6 by (auto split: option.splits)
    then show ?thesis using 6(3) by (simp add: keyed_update)
  next
    case False
    then have "planAll args out = Some out'" using 6(2) by simp
    then show ?thesis using 6(1) [OF False] 6(3) by blast
  qed
qed simp_all

text \<open>When a formula lists the aggregates it needs, its value on aggregates depends only on the
  values given for those; it reads no property of a row.\<close>

theorem aggregates_depend_on_calls:
  assumes "compileFormula H src = Some (Inr f)" "fmCalls f = Some cs"
    and "\<forall>c \<in> set cs. map_of ps (aggregateKey c) = map_of qs (aggregateKey c)"
  shows "evaluateAggregates H f ps now = evaluateAggregates H f qs now"
proof -
  define E where "E = \<lparr>envTitle = [], envValues = [], envRowCount = None, envNow = now, envPresets = Some ps\<rparr>"
  have "aggregatePlan (fmAst f) = Some cs" using assms(1,2) by (auto elim: compileFormula_Inr)
  then obtain out where out: "planWalk (fmAst f) [] = Some out" "cs = map snd out"
    by (auto simp: aggregatePlan_def split: option.splits if_splits)
  have "keyed out" by (rule plan_keyed(1) [OF out(1)]) (simp add: keyed_def)
  then have "\<forall>k \<in> fst ` set out. map_of ps k = map_of qs k"
    using assms(3) out(2) by (force simp: keyed_def)
  then have "samePresets out E (E\<lparr>envPresets := Some qs\<rparr>)" by (auto simp: samePresets_def E_def)
  from eval_same_presets(1) [OF out(1) this]
  show ?thesis by (simp add: evaluateAggregates_def runFormula_def E_def)
qed

definition countCall :: jsstr where "countCall = js ''count()''"

lemma compile_countCall:
  "\<exists>f. compileFormula asciiHost countCall = Some (Inr f) \<and> fmCalls f = Some [\<lparr>agFn = FCount, agProp = None\<rparr>]"
proof -
  have "tokenize asciiHost 0 countCall = Inr [(TId (js ''count''), 0), (TOp SOpen, 5), (TOp SClose, 6), (TEnd, 7)]"
    unfolding countCall_def by code_simp
  moreover have "parseTokens asciiHost [(TId (js ''count''), 0), (TOp SOpen, 5), (TOp SClose, 6), (TEnd, 7)]
      = Some (Inr (NCall (Numeric FCount) []))"
    by (simp add: parseTokens_def parseFuel_def parser_eval asciiLower_def wordOp_def mkCall_def js_def
        fnEntry_def FUNCTIONS_def cong: pbind_weak_cong plift_weak_cong)
  moreover have "\<not> maxFormula < length countCall" "trim countCall \<noteq> []"
    unfolding countCall_def by code_simp+
  ultimately show ?thesis
    by (simp add: compileFormula_def Let_def aggregatePlan_def isAggregate_def simpleAggregate_def isEngineAggregate_def)
qed

theorem aggregates_depend_on_calls_witness:
  "\<exists>f. compileFormula asciiHost countCall = Some (Inr f) \<and>
     evaluateAggregates asciiHost f [(js ''count:'', PNum (ofInt 3))] dzero
     = evaluateAggregates asciiHost f [(js ''sum:a'', PNull), (js ''count:'', PNum (ofInt 3))] dzero"
proof -
  obtain f where f: "compileFormula asciiHost countCall = Some (Inr f)"
    "fmCalls f = Some [\<lparr>agFn = FCount, agProp = None\<rparr>]"
    using compile_countCall by blast
  then show ?thesis
    using aggregates_depend_on_calls [OF f, of "[(js ''count:'', PNum (ofInt 3))]"
        "[(js ''sum:a'', PNull), (js ''count:'', PNum (ofInt 3))]" dzero]
    by (simp add: aggregateKey_def aggName_def js_def)
qed

end
