(* ===== verification/Query.thy ===== *)
theory Query
  imports FormulaCompile "HOL-Library.Product_Lexorder"
begin

text \<open>
  The evaluation of declarative queries on documents in memory (\<open>plugin-api/src/queryEval.ts\<close>) and
  the data of a query (\<open>plugin-api/src/query.ts\<close>): fields, filters, sorting, groups, aggregates, and
  the lot in which a row of a base is stored.
\<close>

section \<open>The data of a query\<close>

record qsort =
  qsField :: qfield
  qsDesc :: bool

record pages =
  pgFolder :: "jsstr option"
  pgExt :: "jsstr list option"
  pgWhere :: "qfilter option"

datatype qsource = Notes "jsstr option" "jsstr list option" | Base jsstr "pages option" | UnknownSource

datatype agg_op = AgCount | AgSum | AgMean | AgMin | AgMax

record qaggregate =
  qaOp :: agg_op
  qaField :: "qfield option"

record query_core =
  qFrom :: qsource
  qWhere :: "qfilter option"
  qText :: "jsstr option"
  qSort :: "qsort list option"
  qSelect :: "jsstr list option"
  qGroupBy :: "qfield option"
  qAggregate :: "qaggregate list option"

text \<open>The document as a query sees it.\<close>

record eval_doc =
  edId :: jsstr
  edPath :: jsstr
  edTitle :: jsstr
  edProps :: "(jsstr \<times> pval) list"
  edCreated :: "jsstr option"
  edModified :: "jsstr option"

datatype query_error = InvalidQuery | TooComplex | InvalidCursor | Unavailable

definition maxFormulas :: nat where "maxFormulas = 8"
definition maxAggregates :: nat where "maxAggregates = 32"

section \<open>Text\<close>

text \<open>Lower case without accents.\<close>

definition foldText :: "host \<Rightarrow> jsstr \<Rightarrow> jsstr" where
  "foldText H s = hLower H (filter (\<lambda>c. \<not> (0x300 \<le> c \<and> c \<le> 0x36F)) (hNfd H s))"

definition isEmptyValue :: "pval option \<Rightarrow> bool" where
  "isEmptyValue v \<longleftrightarrow> v = None \<or> v = Some PNull \<or> v = Some (PStr []) \<or> v = Some (PList [])"

text \<open>The part before the last occurrence of \<open>c\<close>, and the part after it; \<open>None\<close> when there is none.\<close>

definition splitLast :: "cu \<Rightarrow> jsstr \<Rightarrow> (jsstr \<times> jsstr) option" where
  "splitLast c s = (if c \<in> set s
     then Some (rev (tl (dropWhile (\<lambda>d. d \<noteq> c) (rev s))), rev (takeWhile (\<lambda>d. d \<noteq> c) (rev s))) else None)"

definition folderOf :: "jsstr \<Rightarrow> jsstr" where
  "folderOf p = (case splitLast 47 p of None \<Rightarrow> [] | Some (a, b) \<Rightarrow> a)"

definition extOf :: "host \<Rightarrow> jsstr \<Rightarrow> jsstr" where
  "extOf H p =
     (let name = (case splitLast 47 p of None \<Rightarrow> p | Some (a, b) \<Rightarrow> b)
      in case splitLast 46 name of
           None \<Rightarrow> []
         | Some (a, b) \<Rightarrow> if a = [] then [] else hLower H b)"

section \<open>Formulas in a query\<close>

fun filterFields :: "qfilter \<Rightarrow> qfield list" where
  "filterFields (QAnd fs) = concat (map filterFields fs)"
| "filterFields (QOr fs) = concat (map filterFields fs)"
| "filterFields (QNot f) = filterFields f"
| "filterFields (QTest fd op v) = [fd]"

definition optFields :: "qfilter option \<Rightarrow> qfield list" where
  "optFields w = (case w of None \<Rightarrow> [] | Some f \<Rightarrow> filterFields f)"

definition optList :: "'a list option \<Rightarrow> 'a list" where
  "optList x = (case x of None \<Rightarrow> [] | Some l \<Rightarrow> l)"

definition eachField :: "query_core \<Rightarrow> qfield list" where
  "eachField q =
     optFields (qWhere q)
     @ (case qFrom q of Base b (Some p) \<Rightarrow> optFields (pgWhere p) | _ \<Rightarrow> [])
     @ map qsField (optList (qSort q))
     @ (case qGroupBy q of None \<Rightarrow> [] | Some f \<Rightarrow> [f])
     @ concat (map (\<lambda>a. case qaField a of None \<Rightarrow> [] | Some f \<Rightarrow> [f]) (optList (qAggregate q)))"

definition isFormulaField :: "qfield \<Rightarrow> bool" where
  "isFormulaField f = (case f of FormulaField s \<Rightarrow> True | _ \<Rightarrow> False)"

fun filterUsesFormula :: "qfilter \<Rightarrow> bool" where
  "filterUsesFormula (QAnd fs) = list_ex filterUsesFormula fs"
| "filterUsesFormula (QOr fs) = list_ex filterUsesFormula fs"
| "filterUsesFormula (QNot f) = filterUsesFormula f"
| "filterUsesFormula (QTest fd op v) = isFormulaField fd"

definition queryUsesFormula :: "query_core \<Rightarrow> bool" where
  "queryUsesFormula q = list_ex isFormulaField (eachField q)"

definition joinFilters :: "qfilter list \<Rightarrow> qfilter option" where
  "joinFilters xs = (case xs of [] \<Rightarrow> None | [f] \<Rightarrow> Some f | _ \<Rightarrow> Some (QAnd xs))"

text \<open>The part of a filter without formulas, and the rest.\<close>

definition splitFormulaFilter :: "qfilter option \<Rightarrow> qfilter option \<times> qfilter option" where
  "splitFormulaFilter w =
     (case w of
        None \<Rightarrow> (None, None)
      | Some f \<Rightarrow>
          if \<not> filterUsesFormula f then (Some f, None)
          else (case f of
                  QAnd fs \<Rightarrow> (joinFilters (filter (\<lambda>g. \<not> filterUsesFormula g) fs), joinFilters (filter filterUsesFormula fs))
                | _ \<Rightarrow> (None, Some f)))"

text \<open>The compiled formulas of a query, by source.\<close>

type_synonym reader = "(jsstr \<times> formula) list"

fun addFormulas :: "host \<Rightarrow> qfield list \<Rightarrow> reader \<Rightarrow> query_error + reader" where
  "addFormulas H [] R = Inr R"
| "addFormulas H (FormulaField src # fs) R =
     (if trim src = [] then Inl InvalidQuery
      else if maxFormula < length src then Inl TooComplex
      else if map_of R src \<noteq> None then addFormulas H fs R
      else if maxFormulas \<le> length R then Inl TooComplex
      else case compileFormula H src of
             Some (Inr f) \<Rightarrow> addFormulas H fs (AList.update src f R)
           | _ \<Rightarrow> Inl InvalidQuery)"
| "addFormulas H (_ # fs) R = addFormulas H fs R"

definition newReader :: "host \<Rightarrow> query_core \<Rightarrow> query_error + reader" where
  "newReader H q = addFormulas H (eachField q) []"

text \<open>The value of a field; a formula that fails counts as empty.  A formula that throws (\<open>Crash\<close>:
  it calls a name inherited by the table of functions) stops the whole query in the code; here it is
  read as empty.\<close>

definition fieldValue :: "host \<Rightarrow> dbl \<Rightarrow> reader \<Rightarrow> eval_doc \<Rightarrow> qfield \<Rightarrow> pval option" where
  "fieldValue H now R doc fd =
     (case fd of
        PropField p \<Rightarrow> map_of (edProps doc) p
      | FormulaField src \<Rightarrow>
          (case map_of R src of
             None \<Rightarrow> None
           | Some f \<Rightarrow> (case evaluate H f (edTitle doc) (edProps doc) None now of Value v \<Rightarrow> Some v | _ \<Rightarrow> Some PNull))
      | DocField d \<Rightarrow>
          (case d of
             DPath \<Rightarrow> Some (PStr (edPath doc))
           | DTitle \<Rightarrow> Some (PStr (edTitle doc))
           | DFolder \<Rightarrow> Some (PStr (folderOf (edPath doc)))
           | DExt \<Rightarrow> Some (PStr (extOf H (edPath doc)))
           | DCreated \<Rightarrow> map_option PStr (edCreated doc)
           | DModified \<Rightarrow> map_option PStr (edModified doc)))"

section \<open>Filters\<close>

definition propText :: "pval \<Rightarrow> jsstr" where
  "propText v = (case v of PNum d \<Rightarrow> numText d | PStr s \<Rightarrow> s | PBool b \<Rightarrow> (if b then js ''true'' else js ''false'')
     | PNull \<Rightarrow> js ''null'' | PList xs \<Rightarrow> joinText (js '','') xs)"

definition signText :: "jsstr \<Rightarrow> jsstr \<Rightarrow> dbl" where
  "signText a b = (if a < b then Finite True 1 else if b < a then Finite False 1 else dzero)"

definition boolNum :: "bool \<Rightarrow> dbl" where
  "boolNum b = (if b then Finite False 1 else dzero)"

definition compareScalar :: "host \<Rightarrow> pval \<Rightarrow> pval \<Rightarrow> dbl" where
  "compareScalar H a b =
     (case (a, b) of
        (PNum x, PNum y) \<Rightarrow> dsub x y
      | (PBool x, PBool y) \<Rightarrow> dsub (boolNum x) (boolNum y)
      | _ \<Rightarrow> signText (foldText H (propText a)) (foldText H (propText b)))"

definition scalarEquals :: "host \<Rightarrow> pval \<Rightarrow> pval \<Rightarrow> bool" where
  "scalarEquals H a b = deq (compareScalar H a b) dzero"

text \<open>\<open>Array.isArray(want) && want.some(...)\<close>.\<close>

definition wantSome :: "pval \<Rightarrow> (pval \<Rightarrow> bool) \<Rightarrow> bool" where
  "wantSome want P = (case want of PList ws \<Rightarrow> list_ex (\<lambda>w. P (PStr w)) ws | _ \<Rightarrow> False)"

definition testList :: "host \<Rightarrow> filter_op \<Rightarrow> jsstr list \<Rightarrow> pval \<Rightarrow> bool" where
  "testList H op xs want =
     (case op of
        OpEq \<Rightarrow> list_ex (\<lambda>x. scalarEquals H (PStr x) want) xs
      | OpContains \<Rightarrow> list_ex (\<lambda>x. scalarEquals H (PStr x) want) xs
      | OpNeq \<Rightarrow> \<not> list_ex (\<lambda>x. scalarEquals H (PStr x) want) xs
      | OpIn \<Rightarrow> list_ex (\<lambda>x. wantSome want (scalarEquals H (PStr x))) xs
      | _ \<Rightarrow> False)"

definition testScalar :: "host \<Rightarrow> filter_op \<Rightarrow> pval \<Rightarrow> pval \<Rightarrow> bool" where
  "testScalar H op a want =
     (let c = compareScalar H a want; fa = foldText H (propText a); fw = foldText H (propText want) in
      case op of
        OpEq \<Rightarrow> scalarEquals H a want
      | OpNeq \<Rightarrow> \<not> scalarEquals H a want
      | OpLt \<Rightarrow> dlt c dzero
      | OpLte \<Rightarrow> dle c dzero
      | OpGt \<Rightarrow> dlt dzero c
      | OpGte \<Rightarrow> dle dzero c
      | OpContains \<Rightarrow> findText fw fa \<noteq> None
      | OpStartsWith \<Rightarrow> startsWith fw fa
      | OpIn \<Rightarrow> wantSome want (scalarEquals H a)
      | _ \<Rightarrow> False)"

definition testValue :: "host \<Rightarrow> filter_op \<Rightarrow> pval option \<Rightarrow> pval option \<Rightarrow> bool" where
  "testValue H op v want =
     (if op = OpEmpty then isEmptyValue v
      else if op = OpNotEmpty then \<not> isEmptyValue v
      else if isEmptyValue v then False
      else case (v, want) of
             (Some (PList xs), Some w) \<Rightarrow> w \<noteq> PNull \<and> testList H op xs w
           | (Some a, Some w) \<Rightarrow> w \<noteq> PNull \<and> testScalar H op a w
           | _ \<Rightarrow> False)"

fun matchesDoc :: "host \<Rightarrow> dbl \<Rightarrow> reader \<Rightarrow> eval_doc \<Rightarrow> qfilter \<Rightarrow> bool" where
  "matchesDoc H now R doc (QAnd fs) = list_all (matchesDoc H now R doc) fs"
| "matchesDoc H now R doc (QOr fs) = list_ex (matchesDoc H now R doc) fs"
| "matchesDoc H now R doc (QNot f) = (\<not> matchesDoc H now R doc f)"
| "matchesDoc H now R doc (QTest fd op want) = testValue H op (fieldValue H now R doc fd) want"

section \<open>Sorting\<close>

text \<open>The key of a value: \<open>None\<close> when empty; the first element of a list.\<close>

definition sortKey :: "pval option \<Rightarrow> pval option" where
  "sortKey v = (if isEmptyValue v then None
     else case v of Some (PList xs) \<Rightarrow> Some (PStr (hd xs)) | _ \<Rightarrow> v)"

definition compareKeys :: "host \<Rightarrow> pval \<Rightarrow> pval \<Rightarrow> dbl" where
  "compareKeys H a b =
     (case (a, b) of
        (PNum x, PNum y) \<Rightarrow> dsub x y
      | (PBool x, PBool y) \<Rightarrow> dsub (boolNum x) (boolNum y)
      | _ \<Rightarrow> signText (foldText H (propText a)) (foldText H (propText b)))"

text \<open>The comparison of two documents: empty values last in both directions, then by id.\<close>

fun compareDocs :: "host \<Rightarrow> (bool \<times> pval option \<times> pval option) list \<Rightarrow> dbl \<Rightarrow> dbl" where
  "compareDocs H [] byId = byId"
| "compareDocs H ((desc, ka, kb) # ks) byId =
     (case (ka, kb) of
        (None, Some b) \<Rightarrow> Finite False 1
      | (Some a, None) \<Rightarrow> Finite True 1
      | (None, None) \<Rightarrow> compareDocs H ks byId
      | (Some a, Some b) \<Rightarrow>
          let c = compareKeys H a b
          in if deq c dzero then compareDocs H ks byId else if desc then dneg c else c)"

definition docKeys :: "host \<Rightarrow> dbl \<Rightarrow> reader \<Rightarrow> qsort list \<Rightarrow> eval_doc \<Rightarrow> pval option list" where
  "docKeys H now R ss d = map (\<lambda>s. sortKey (fieldValue H now R d (qsField s))) ss"

definition docOrder :: "host \<Rightarrow> dbl \<Rightarrow> reader \<Rightarrow> qsort list \<Rightarrow> eval_doc \<Rightarrow> eval_doc \<Rightarrow> dbl" where
  "docOrder H now R ss a b =
     compareDocs H (zip (map qsDesc ss) (zip (docKeys H now R ss a) (docKeys H now R ss b))) (signText (edId a) (edId b))"

text \<open>\<open>docs.sort(cmp)\<close>: stable; \<open>a\<close> stays before \<open>b\<close> unless the comparison is positive.\<close>

definition sortDocs :: "host \<Rightarrow> dbl \<Rightarrow> reader \<Rightarrow> qsort list \<Rightarrow> eval_doc list \<Rightarrow> eval_doc list" where
  "sortDocs H now R ss docs = sortBy (\<lambda>a b. \<not> dlt dzero (docOrder H now R ss a b)) docs"

section \<open>Groups and aggregates\<close>

text \<open>What \<open>JSON.stringify\<close> keeps of a key: a number that is not finite is written \<open>null\<close>, and a
  negative zero \<open>0\<close>.\<close>

definition groupId :: "pval \<Rightarrow> pval" where
  "groupId v = (case v of PNum d \<Rightarrow> if \<not> isFinite d then PNull else if deq d dzero then PNum dzero else v | _ \<Rightarrow> v)"

definition groupKeys :: "pval option \<Rightarrow> pval list" where
  "groupKeys v = (if isEmptyValue v then [PNull]
     else case v of Some (PList xs) \<Rightarrow> map PStr xs | Some x \<Rightarrow> [x] | None \<Rightarrow> [])"

definition countKey :: "pval \<Rightarrow> (pval \<times> pval \<times> nat) list \<Rightarrow> (pval \<times> pval \<times> nat) list" where
  "countKey k m = (case map_of m (groupId k) of
     None \<Rightarrow> AList.update (groupId k) (k, 1) m
   | Some (k0, n) \<Rightarrow> AList.update (groupId k) (k0, n + 1) m)"

text \<open>Most numerous first, the empty value last.\<close>

definition groupOrder :: "host \<Rightarrow> pval \<times> nat \<Rightarrow> pval \<times> nat \<Rightarrow> dbl" where
  "groupOrder H a b =
     (if snd a \<noteq> snd b then (if snd b < snd a then Finite True 1 else Finite False 1)
      else if (fst a = PNull) \<noteq> (fst b = PNull) then (if fst a = PNull then Finite False 1 else Finite True 1)
      else if fst a = PNull then dzero
      else compareScalar H (fst a) (fst b))"

definition groupDocs :: "host \<Rightarrow> dbl \<Rightarrow> reader \<Rightarrow> eval_doc list \<Rightarrow> qfield \<Rightarrow> (pval \<times> nat) list" where
  "groupDocs H now R docs fd =
     sortBy (\<lambda>a b. \<not> dlt dzero (groupOrder H a b))
       (map snd (fold countKey (concat (map (\<lambda>d. groupKeys (fieldValue H now R d fd)) docs)) []))"

definition checkAggregates :: "qaggregate list option \<Rightarrow> nat \<Rightarrow> query_error + unit" where
  "checkAggregates list mx =
     (case list of
        None \<Rightarrow> Inr ()
      | Some as \<Rightarrow>
          if mx < length as then Inl TooComplex
          else if list_ex (\<lambda>a. qaOp a \<noteq> AgCount \<and> qaField a = None) as then Inl InvalidQuery else Inr ())"

definition numberValues :: "pval option list \<Rightarrow> dbl list" where
  "numberValues vs = concat (map (\<lambda>v. case v of Some (PNum d) \<Rightarrow> if isFinite d then [d] else [] | _ \<Rightarrow> []) vs)"

definition textValues :: "pval option list \<Rightarrow> jsstr list" where
  "textValues vs = concat (map (\<lambda>v. case v of Some (PStr s) \<Rightarrow> if s = [] then [] else [s] | _ \<Rightarrow> []) vs)"

definition aggregateDocs :: "host \<Rightarrow> dbl \<Rightarrow> reader \<Rightarrow> eval_doc list \<Rightarrow> qaggregate \<Rightarrow> pval" where
  "aggregateDocs H now R docs a =
     (let vals = (case qaField a of None \<Rightarrow> [] | Some fd \<Rightarrow> map (\<lambda>d. fieldValue H now R d fd) docs);
          nums = numberValues vals; texts = textValues vals in
      case qaOp a of
        AgCount \<Rightarrow> PNum (ofInt (int (if qaField a = None then length docs
                     else length (filter (\<lambda>v. \<not> isEmptyValue v) vals))))
      | AgSum \<Rightarrow> PNum (foldl dadd dzero nums)
      | AgMean \<Rightarrow> if nums = [] then PNull else PNum (ddiv (foldl dadd dzero nums) (ofInt (int (length nums))))
      | AgMin \<Rightarrow> if nums \<noteq> [] then PNum (reduce1 (\<lambda>x y. if dlt y x then y else x) nums)
                 else if texts = [] then PNull else PStr (reduce1 (\<lambda>x y. if y < x then y else x) texts)
      | AgMax \<Rightarrow> if nums \<noteq> [] then PNum (reduce1 (\<lambda>x y. if dlt x y then y else x) nums)
                 else if texts = [] then PNull else PStr (reduce1 (\<lambda>x y. if x < y then y else x) texts))"

section \<open>Lots of rows\<close>

text \<open>FNV-1a on 32 bits.\<close>

definition fnvStep :: "32 word \<Rightarrow> cu \<Rightarrow> 32 word" where
  "fnvStep h c = xor h (ucast c) * 0x01000193"

definition baseLotOf :: "jsstr \<Rightarrow> nat \<Rightarrow> nat" where
  "baseLotOf rowId lots = unat (foldl fnvStep 0x811c9dc5 rowId) mod max 1 lots"

section \<open>A formula and its filter agree\<close>




lemma signs_dzero [simp]: "dlt dzero (Finite s 0) = False" "dlt (Finite s 0) dzero = False" "deq (Finite s 0) dzero"
  by (simp_all add: signed_def)

lemma deq_dzero [simp]: "deq (Finite False 0) d \<longleftrightarrow> deq d dzero"
  by (cases d) (auto simp: signed_def)









text \<open>A comparison of a property with a literal, and the same with the sides exchanged.\<close>

definition cmpVals :: "host \<Rightarrow> sym \<Rightarrow> fval \<Rightarrow> fval \<Rightarrow> exn + fval" where
  "cmpVals H x a b = binVals H x a b"

lemma isDateLike_simps [simp]:
  "\<not> isDateLike VNull" "\<not> isDateLike (VStr [])" "\<not> isDateLike (VNum d)" "\<not> isDateLike (VBool b)"
  by (simp_all add: isDateLike_def matchesDateRe_def trim_def digitsAt_def)












text \<open>A note whose property \<open>a\<close> is the number 7.\<close>

definition noteSeven :: eval_doc where
  "noteSeven = \<lparr>edId = js ''n'', edPath = js ''n.md'', edTitle = js ''n'', edProps = [(js ''a'', PNum (ofInt 7))],
     edCreated = None, edModified = None\<rparr>"


section \<open>Splitting a filter\<close>

lemma matches_joinFilters:
  "(case joinFilters fs of None \<Rightarrow> True | Some f \<Rightarrow> matchesDoc H now R doc f) = list_all (matchesDoc H now R doc) fs"
  by (auto simp: joinFilters_def split: list.splits)

lemma joinFilters_plain:
  "list_all (\<lambda>g. \<not> filterUsesFormula g) fs \<Longrightarrow> joinFilters fs = Some f \<Longrightarrow> \<not> filterUsesFormula f"
  by (auto simp: joinFilters_def list_all_iff list_ex_iff split: list.splits)

text \<open>A filter is the conjunction of its plain part, which has no formula, and its formula
  part.\<close>

theorem splitFormulaFilter_splits:
  assumes "splitFormulaFilter (Some w) = (p, g)"
  shows "(matchesDoc H now R doc w \<longleftrightarrow>
       (case p of None \<Rightarrow> True | Some f \<Rightarrow> matchesDoc H now R doc f)
       \<and> (case g of None \<Rightarrow> True | Some f \<Rightarrow> matchesDoc H now R doc f))
    \<and> (\<forall>f. p = Some f \<longrightarrow> \<not> filterUsesFormula f)"
proof -
  consider "\<not> filterUsesFormula w" "p = Some w" "g = None"
    | fs where "w = QAnd fs" "p = joinFilters (filter (\<lambda>h. \<not> filterUsesFormula h) fs)"
        "g = joinFilters (filter filterUsesFormula fs)"
    | "p = None" "g = Some w"
    using assms by (auto simp: splitFormulaFilter_def split: if_splits qfilter.splits)
  then show ?thesis
  proof cases
    case 2
    then show ?thesis
      by (auto simp: matches_joinFilters list_all_iff dest: joinFilters_plain [rotated])
  qed simp_all
qed

theorem splitFormulaFilter_splits_witness:
  "let w = QAnd [QTest (PropField []) OpEmpty None, QTest (FormulaField countCall) OpEmpty None] in
   matchesDoc asciiHost dzero [] noteSeven w \<longleftrightarrow>
     matchesDoc asciiHost dzero [] noteSeven (QTest (PropField []) OpEmpty None)
     \<and> matchesDoc asciiHost dzero [] noteSeven (QTest (FormulaField countCall) OpEmpty None)"
  using splitFormulaFilter_splits [of "QAnd [QTest (PropField []) OpEmpty None, QTest (FormulaField countCall) OpEmpty None]"
      "Some (QTest (PropField []) OpEmpty None)" "Some (QTest (FormulaField countCall) OpEmpty None)"
      asciiHost dzero "[]" noteSeven]
  by (simp add: splitFormulaFilter_def isFormulaField_def joinFilters_def)

section \<open>The order of a sorted result\<close>

text \<open>The rank of a sort key: numbers and booleans by value, texts by their folded form.\<close>

type_synonym rank = "rat \<times> jsstr"

definition keyRank :: "host \<Rightarrow> pval \<Rightarrow> rank" where
  "keyRank H k = (case k of
     PNum (Finite s q) \<Rightarrow> (signed s q, [])
   | PBool b \<Rightarrow> (if b then 1 else 0, [])
   | _ \<Rightarrow> (0, foldText H (propText k)))"

text \<open>Keys that the comparison orders: finite numbers, booleans or texts, of one kind in a column.\<close>

definition goodKey :: "pval \<Rightarrow> bool" where
  "goodKey k \<longleftrightarrow> (case k of PNum d \<Rightarrow> isFinite d \<and> isDouble d | PBool b \<Rightarrow> True | PStr s \<Rightarrow> True | _ \<Rightarrow> False)"

definition sameKind :: "pval \<Rightarrow> pval \<Rightarrow> bool" where
  "sameKind a b \<longleftrightarrow> (case (a, b) of (PNum x, PNum y) \<Rightarrow> True | (PBool x, PBool y) \<Rightarrow> True
     | (PStr x, PStr y) \<Rightarrow> True | _ \<Rightarrow> False)"

text \<open>The specification: empty keys last, then the ranks in the direction asked, then the ids.\<close>

fun before :: "bool list \<Rightarrow> rank option list \<Rightarrow> rank option list \<Rightarrow> jsstr \<Rightarrow> jsstr \<Rightarrow> bool" where
  "before (d # ds) (x # xs) (y # ys) i j =
     (case (x, y) of
        (None, Some b) \<Rightarrow> False
      | (Some a, None) \<Rightarrow> True
      | (None, None) \<Rightarrow> before ds xs ys i j
      | (Some a, Some b) \<Rightarrow> if a = b then before ds xs ys i j else if d then b < a else a < b)"
| "before _ _ _ i j = (i \<le> j)"

lemma before_total: "before ds xs ys i j \<or> before ds ys xs j i"
  by (induction ds xs ys i j rule: before.induct) (auto split: option.splits)

lemma before_antisym:
  "length xs = length ds \<Longrightarrow> length ys = length ds \<Longrightarrow> before ds xs ys i j \<Longrightarrow> before ds ys xs j i \<Longrightarrow> i = j"
  by (induction ds xs ys i j rule: before.induct) (auto split: option.splits if_splits)

lemma before_trans:
  "length xs = length ds \<Longrightarrow> length ys = length ds \<Longrightarrow> length zs = length ds
    \<Longrightarrow> before ds xs ys i j \<Longrightarrow> before ds ys zs j k \<Longrightarrow> before ds xs zs i k"
proof (induction ds arbitrary: xs ys zs)
  case (Cons d ds)
  then obtain x xs' y ys' z zs' where "xs = x # xs'" "ys = y # ys'" "zs = z # zs'"
    by (metis length_Suc_conv)
  then show ?case using Cons by (auto split: option.splits if_splits)
qed simp

lemma signText_sign [simp]:
  "dlt dzero (signText a b) \<longleftrightarrow> b < a" "dlt (signText a b) dzero \<longleftrightarrow> a < b" "deq (signText a b) dzero \<longleftrightarrow> a = b"
  by (auto simp: signText_def signed_def)

lemma isDouble_one: "isDouble (Finite s 1)"
proof -
  have "1 = of_int (2 ^ 1074) * pow2 (- 1074)" by (simp add: pow2_def)
  then show ?thesis unfolding isDouble_Finite by (metis zero_le_numeral zero_le_power)
qed

lemma compareKeys_rank:
  assumes "goodKey a" "goodKey b" "sameKind a b"
  shows "dlt dzero (compareKeys H a b) \<longleftrightarrow> keyRank H b < keyRank H a"
    "dlt (compareKeys H a b) dzero \<longleftrightarrow> keyRank H a < keyRank H b"
    "deq (compareKeys H a b) dzero \<longleftrightarrow> keyRank H a = keyRank H b"
proof -
  consider (num) s p t q where "a = PNum (Finite s p)" "b = PNum (Finite t q)"
      "isDouble (Finite s p)" "isDouble (Finite t q)"
    | (bool) x y where "a = PBool x" "b = PBool y" | (str) x y where "a = PStr x" "b = PStr y"
    using assms by (auto simp: goodKey_def sameKind_def split: pval.splits elim!: isFinite.elims)
  then have "(dlt dzero (compareKeys H a b) \<longleftrightarrow> keyRank H b < keyRank H a)
    \<and> (dlt (compareKeys H a b) dzero \<longleftrightarrow> keyRank H a < keyRank H b)
    \<and> (deq (compareKeys H a b) dzero \<longleftrightarrow> keyRank H a = keyRank H b)"
  proof cases
    case num
    then show ?thesis using dsub_sign [of "Finite s p" "Finite t q"] by (simp add: compareKeys_def keyRank_def)
  next
    case bool
    have "isDouble (boolNum z) \<and> isFinite (boolNum z)" for z by (simp add: boolNum_def isDouble_one)
    then show ?thesis using bool dsub_sign [of "boolNum x" "boolNum y"]
      by (auto simp: compareKeys_def keyRank_def boolNum_def signed_def)
  next
    case str
    then show ?thesis by (simp add: compareKeys_def keyRank_def)
  qed
  then show "dlt dzero (compareKeys H a b) \<longleftrightarrow> keyRank H b < keyRank H a"
    "dlt (compareKeys H a b) dzero \<longleftrightarrow> keyRank H a < keyRank H b"
    "deq (compareKeys H a b) dzero \<longleftrightarrow> keyRank H a = keyRank H b" by blast+
qed

lemma dlt_dneg: "dlt dzero (dneg c) \<longleftrightarrow> dlt c dzero"
  by (cases c) (auto simp: signed_def)

lemma dlt_zero_one [simp]: "dlt dzero (Finite False 1)" "\<not> dlt dzero (Finite True 1)"
  by (simp_all add: signed_def)

text \<open>Two lists of keys that can be compared position by position.\<close>

definition comparable :: "pval option list \<Rightarrow> pval option list \<Rightarrow> bool" where
  "comparable xs ys \<longleftrightarrow> list_all2 (\<lambda>x y. \<forall>a b. x = Some a \<longrightarrow> y = Some b \<longrightarrow> goodKey a \<and> goodKey b \<and> sameKind a b) xs ys"

lemma compareDocs_before:
  assumes "comparable xs ys"
  shows "length ds = length xs \<Longrightarrow>
    \<not> dlt dzero (compareDocs H (zip ds (zip xs ys)) (signText i j))
    \<longleftrightarrow> before ds (map (map_option (keyRank H)) xs) (map (map_option (keyRank H)) ys) i j"
  using assms unfolding comparable_def
proof (induction xs ys arbitrary: ds rule: list_all2_induct)
  case Nil
  then show ?case by (simp add: linorder_not_less)
next
  case (Cons x xs y ys)
  then obtain d ds' where ds: "ds = d # ds'" by (cases ds) auto
  have IH: "\<not> dlt dzero (compareDocs H (zip ds' (zip xs ys)) (signText i j))
      \<longleftrightarrow> before ds' (map (map_option (keyRank H)) xs) (map (map_option (keyRank H)) ys) i j"
    using Cons.IH Cons.prems ds by simp
  show ?case
  proof (cases "x = None \<or> y = None")
    case True
    then show ?thesis using ds IH by (auto simp: signed_def split: option.splits)
  next
    case False
    then obtain a b where ab: "x = Some a" "y = Some b" by auto
    then show ?thesis using Cons.hyps(1) compareKeys_rank [of a b H] ds IH
      by (auto simp: Let_def dlt_dneg)
  qed
qed


text \<open>Documents whose keys can be compared.\<close>

definition homogeneous :: "host \<Rightarrow> dbl \<Rightarrow> reader \<Rightarrow> qsort list \<Rightarrow> eval_doc set \<Rightarrow> bool" where
  "homogeneous H now R ss D \<longleftrightarrow>
     (\<forall>a \<in> D. \<forall>b \<in> D. comparable (docKeys H now R ss a) (docKeys H now R ss b))"

definition docBefore :: "host \<Rightarrow> dbl \<Rightarrow> reader \<Rightarrow> qsort list \<Rightarrow> eval_doc \<Rightarrow> eval_doc \<Rightarrow> bool" where
  "docBefore H now R ss a b =
     before (map qsDesc ss) (map (map_option (keyRank H)) (docKeys H now R ss a))
       (map (map_option (keyRank H)) (docKeys H now R ss b)) (edId a) (edId b)"

lemma docOrder_before:
  "homogeneous H now R ss D \<Longrightarrow> a \<in> D \<Longrightarrow> b \<in> D \<Longrightarrow>
     \<not> dlt dzero (docOrder H now R ss a b) \<longleftrightarrow> docBefore H now R ss a b"
  unfolding docOrder_def docBefore_def
  by (rule compareDocs_before) (auto simp: homogeneous_def docKeys_def)

lemma docBefore_preorder: "preorder_on_set (docBefore H now R ss) UNIV"
  unfolding preorder_on_set_def docBefore_def transp_on_def
  using before_total before_trans by (auto simp: docKeys_def intro: before_trans [rotated 3])

lemma sortBy_cong:
  "(\<And>a b. a \<in> set xs \<Longrightarrow> b \<in> set xs \<Longrightarrow> le a b = le' a b) \<Longrightarrow> sortBy le xs = sortBy le' xs"
proof (induction xs)
  case (Cons x xs)
  have ins: "insertBy le x ys = insertBy le' x ys" if "set ys \<subseteq> set xs" for ys
    using that Cons.prems by (induction ys) auto
  have "sortBy le xs = sortBy le' xs" by (rule Cons.IH) (rule Cons.prems; simp)
  then show ?case using ins [of "sortBy le' xs"] by (simp add: sortBy_def) (simp flip: sortBy_def)
qed (simp add: sortBy_def)

lemma sorted_wrt_unique:
  assumes "\<And>a b. a \<in> set xs \<Longrightarrow> b \<in> set xs \<Longrightarrow> r a b \<Longrightarrow> r b a \<Longrightarrow> a = b"
  shows "sorted_wrt r xs \<Longrightarrow> sorted_wrt r ys \<Longrightarrow> mset xs = mset ys \<Longrightarrow> xs = ys"
  using assms
proof (induction xs arbitrary: ys)
  case (Cons x xs)
  then obtain y ys' where ys: "ys = y # ys'" by (cases ys) auto
  have sets: "insert x (set xs) = insert y (set ys')"
    using Cons.prems(3) ys by (metis list.simps(15) set_mset_mset)
  have "x = y"
  proof (rule ccontr)
    assume "x \<noteq> y"
    then have "y \<in> set xs" "x \<in> set ys'" using sets by auto
    then have "r x y" "r y x" using Cons.prems(1,2) ys by auto
    then show False using Cons.prems(4) \<open>x \<noteq> y\<close> \<open>y \<in> set xs\<close> by auto
  qed
  then show ?case using Cons ys by auto
qed simp

text \<open>C28: sorting documents with distinct ids gives a permutation ordered as specified: for each
  sort field, empty values last whatever the direction, then by value in that direction, and by id
  at the end; the result does not depend on the order the documents come in, so pages are stable.
  The keys of a column are finite numbers, booleans or texts, all of the same kind.\<close>

theorem sortDocs_sorted:
  assumes "distinct (map edId docs)" "homogeneous H now R ss (set docs)" "mset docs' = mset docs"
  shows "sorted_wrt (docBefore H now R ss) (sortDocs H now R ss docs)
    \<and> mset (sortDocs H now R ss docs) = mset docs
    \<and> sortDocs H now R ss docs' = sortDocs H now R ss docs"
proof -
  define le where "le = docBefore H now R ss"
  have eq: "sortDocs H now R ss xs = sortBy le xs" if "set xs = set docs" for xs
    unfolding sortDocs_def le_def using that docOrder_before [OF assms(2)] by (intro sortBy_cong) auto
  have set: "set docs' = set docs" using assms(3) by (metis set_mset_mset)
  have sorted: "sorted_wrt le (sortBy le xs)" for xs
    using docBefore_preorder unfolding le_def by (rule sorted_sortBy) simp
  have "a = b" if "a \<in> set docs" "b \<in> set docs" "le a b" "le b a" for a b
  proof -
    have "edId a = edId b"
      using that(3,4) unfolding le_def docBefore_def by (rule before_antisym [rotated 2]) (simp_all add: docKeys_def)
    then show ?thesis using that(1,2) assms(1) by (auto simp: distinct_map dest: inj_onD)
  qed
  then have "sortBy le docs = sortBy le docs'"
    by (intro sorted_wrt_unique [OF _ sorted sorted]) (use assms(3) in auto)
  then show ?thesis using eq [of docs] eq [of docs'] set sorted assms(3) by (simp add: le_def)
qed

theorem sortDocs_sorted_witness:
  "let x = noteSeven\<lparr>edProps := [(js ''a'', PBool True)]\<rparr>; y = noteSeven\<lparr>edId := js ''m'', edProps := [(js ''a'', PBool False)]\<rparr>;
       ss = [\<lparr>qsField = PropField (js ''a''), qsDesc = True\<rparr>]
   in mset (sortDocs asciiHost dzero [] ss [x, y]) = mset [x, y]
      \<and> sortDocs asciiHost dzero [] ss [y, x] = sortDocs asciiHost dzero [] ss [x, y]"
proof -
  define x where "x = noteSeven\<lparr>edProps := [(js ''a'', PBool True)]\<rparr>"
  define y where "y = noteSeven\<lparr>edId := js ''m'', edProps := [(js ''a'', PBool False)]\<rparr>"
  define ss where "ss = [\<lparr>qsField = PropField (js ''a''), qsDesc = True\<rparr>]"
  have "homogeneous asciiHost dzero [] ss (set [x, y])"
    by (auto simp: homogeneous_def comparable_def docKeys_def ss_def fieldValue_def x_def y_def
        sortKey_def isEmptyValue_def sameKind_def goodKey_def)
  moreover have "distinct (map edId [x, y])" by (simp add: x_def y_def noteSeven_def js_def)
  ultimately show ?thesis unfolding Let_def x_def [symmetric] y_def [symmetric] ss_def [symmetric]
    using sortDocs_sorted [of "[x, y]" asciiHost dzero "[]" ss "[y, x]"] by simp
qed

section \<open>Groups count the documents\<close>

definition counted :: "(pval \<times> pval \<times> nat) list \<Rightarrow> pval list \<Rightarrow> bool" where
  "counted m ks \<longleftrightarrow>
       (\<forall>i k n. map_of m i = Some (k, n) \<longrightarrow> groupId k = i \<and> n = count_list (map groupId ks) i)
     \<and> (\<forall>i. map_of m i = None \<longleftrightarrow> i \<notin> groupId ` set ks)"

lemma count_list_snoc: "count_list (xs @ [x]) y = count_list xs y + (if x = y then 1 else 0)"
  by (induction xs) auto

lemma map_of_AList_update: "map_of (AList.update k v al) j = (if k = j then Some v else map_of al j)"
  by (simp add: update_conv')

lemma counted_countKey: "counted m ks \<Longrightarrow> counted (countKey k m) (ks @ [k])"
  unfolding counted_def countKey_def
  by (auto simp: map_of_AList_update count_list_snoc count_notin split: option.splits if_splits)
    (metis option.distinct(1))

lemma distinct_countKey: "distinct (map fst m) \<Longrightarrow> distinct (map fst (fold countKey ks m))"
  by (induction ks arbitrary: m) (auto simp: countKey_def distinct_update split: option.splits)

lemma counted_fold: "counted m ks \<Longrightarrow> counted (fold countKey ls m) (ks @ ls)"
proof (induction ls arbitrary: m ks)
  case (Cons k ls)
  then show ?case using counted_countKey [of m ks k] Cons.IH [of "countKey k m" "ks @ [k]"] by simp
qed simp

definition fieldKeys :: "host \<Rightarrow> dbl \<Rightarrow> reader \<Rightarrow> eval_doc list \<Rightarrow> qfield \<Rightarrow> pval list" where
  "fieldKeys H now R docs fd = concat (map (\<lambda>d. groupKeys (fieldValue H now R d fd)) docs)"

text \<open>The groups of a field list every value of the documents once (each element of a list; the
  empty value for a document without one), with the number of its occurrences.\<close>

theorem groupDocs_counts:
  "distinct (map (groupId \<circ> fst) (groupDocs H now R docs fd))
   \<and> (\<lambda>(k, n). (groupId k, n)) ` set (groupDocs H now R docs fd)
       = (\<lambda>i. (i, count_list (map groupId (fieldKeys H now R docs fd)) i)) ` groupId ` set (fieldKeys H now R docs fd)"
proof -
  define ks where "ks = fieldKeys H now R docs fd"
  define m where "m = fold countKey ks []"
  have c: "counted m ks" unfolding m_def using counted_fold [of "[]" "[]" ks] by (simp add: counted_def)
  have d: "distinct (map fst m)" unfolding m_def by (rule distinct_countKey) simp
  have mem: "groupId k = i \<and> n = count_list (map groupId ks) i" if "(i, k, n) \<in> set m" for i k n
    using c map_of_is_SomeI [OF d that] unfolding counted_def by blast
  have "mset (groupDocs H now R docs fd) = mset (map snd m)"
    by (simp add: groupDocs_def m_def ks_def fieldKeys_def)
  then have s: "set (groupDocs H now R docs fd) = snd ` set m"
    and dg: "distinct (map (groupId \<circ> fst) (groupDocs H now R docs fd)) = distinct (map (groupId \<circ> fst) (map snd m))"
    by (metis set_mset_mset list.set_map) (metis mset_map mset_eq_imp_distinct_iff \<open>mset (groupDocs H now R docs fd) = mset (map snd m)\<close>)
  have "map (groupId \<circ> fst) (map snd m) = map fst m"
    using mem by (auto simp: case_prod_beta)
  moreover have "fst ` set m = groupId ` set ks"
  proof -
    have "i \<in> fst ` set m \<longleftrightarrow> i \<in> groupId ` set ks" for i
      using c map_of_eq_None_iff [of m i] unfolding counted_def by (metis image_set)
    then show ?thesis by blast
  qed
  moreover have "(\<lambda>(k, n). (groupId k, n)) ` snd ` set m = (\<lambda>i. (i, count_list (map groupId ks) i)) ` fst ` set m"
    unfolding image_image using mem by (intro image_cong) auto
  ultimately show ?thesis using d dg s by (simp add: ks_def del: map_map)
qed

end
