(* ===== verification/QueryEngine.thy ===== *)
theory QueryEngine
  imports Query
begin

text \<open>
  The query engine in memory (\<open>plugin-runtime/src/InMemoryQueryEngine.ts\<close>): the documents it holds,
  the execution of a query with its refusals and its pages, and the watchers that receive the result
  again at every change.  A cursor is the key of its query and a position; the text that encodes
  them is not modelled.  The clock of the formulas (\<open>now\<close>) is an argument.
\<close>

section \<open>Queries and documents\<close>

datatype cursor = Cursor query_core nat | BadCursor

record query =
  qCore :: query_core
  qLimit :: "int option"
  qCursor :: "cursor option"

record indexed_doc =
  ixDoc :: eval_doc
  ixBase :: "jsstr option"
  ixText :: "jsstr option"

datatype index_status = Ready | Building | Lagging | IndexUnavailable

record index_state =
  stStatus :: index_status
  stProgress :: "dbl option"
  stLagMs :: "dbl option"

definition readyState :: index_state where
  "readyState = \<lparr>stStatus = Ready, stProgress = None, stLagMs = None\<rparr>"

record query_row =
  rwId :: jsstr
  rwPath :: jsstr
  rwTitle :: jsstr
  rwValues :: "(jsstr \<times> pval) list"

record query_result =
  rsRows :: "query_row list"
  rsNext :: "cursor option"
  rsTotal :: nat
  rsGroups :: "(pval \<times> nat) list option"
  rsAggregates :: "pval list option"
  rsIndex :: index_state

definition defaultLimit :: int where "defaultLimit = 50"
definition maxLimit :: int where "maxLimit = 500"
definition maxFilterNodes :: nat where "maxFilterNodes = 64"

section \<open>Sources and words\<close>

fun countNodes :: "qfilter \<Rightarrow> nat" where
  "countNodes (QAnd fs) = 1 + sum_list (map countNodes fs)"
| "countNodes (QOr fs) = 1 + sum_list (map countNodes fs)"
| "countNodes (QNot f) = 1 + countNodes f"
| "countNodes (QTest fd op v) = 1"

definition flushWord :: "jsstr \<Rightarrow> jsstr list" where
  "flushWord w = (if w = [] then [] else [w])"

function wordsFrom :: "host \<Rightarrow> jsstr \<Rightarrow> jsstr \<Rightarrow> jsstr list" where
  "wordsFrom H w s =
     (if s = [] then flushWord w
      else let cp = codePoint s
           in if hLetter H (fst cp) \<or> hNumeral H (fst cp)
              then wordsFrom H (w @ take (snd cp) s) (drop (snd cp) s)
              else flushWord w @ wordsFrom H [] (drop (snd cp) s))"
  by pat_completeness auto
termination
  by (relation "measure (\<lambda>(H, w, s). length s)") (auto simp: codePoint_def split: list.splits)

declare wordsFrom.simps [simp del]

text \<open>The words of a text, folded.\<close>

definition wordsOf :: "host \<Rightarrow> jsstr \<Rightarrow> jsstr list" where
  "wordsOf H s = wordsFrom H [] (foldText H s)"

definition isNoteOf :: "host \<Rightarrow> indexed_doc \<Rightarrow> jsstr \<Rightarrow> jsstr list option \<Rightarrow> bool" where
  "isNoteOf H d prefix exts \<longleftrightarrow>
     ixBase d = None
     \<and> \<not> startsWith (js ''.trash/'') (edPath (ixDoc d))
     \<and> (prefix = [] \<or> startsWith prefix (edPath (ixDoc d)))
     \<and> (case exts of None \<Rightarrow> True | Some es \<Rightarrow> extOf H (edPath (ixDoc d)) \<in> set es)"

definition folderPrefix :: "jsstr option \<Rightarrow> jsstr" where
  "folderPrefix folder = (case folder of None \<Rightarrow> []
     | Some f \<Rightarrow> if f = [] then [] else rev (dropWhile (\<lambda>c. c = 47) (rev f)) @ [47])"

definition normExts :: "host \<Rightarrow> jsstr list option \<Rightarrow> jsstr list option" where
  "normExts H = map_option (map (\<lambda>e. let l = hLower H e in if l \<noteq> [] \<and> hd l = 46 then tl l else l))"

section \<open>The engine\<close>

record engine =
  enDocs :: "(jsstr \<times> indexed_doc) list"
  enWords :: "(jsstr \<times> jsstr list) list"
  enState :: index_state
  enStateListeners :: "nat list"
  enWatchers :: "(nat \<times> query) list"
  enBatching :: nat
  enDirty :: bool
  enNextId :: nat

definition emptyEngine :: engine where
  "emptyEngine = \<lparr>enDocs = [], enWords = [], enState = readyState, enStateListeners = [], enWatchers = [],
     enBatching = 0, enDirty = False, enNextId = 0\<rparr>"

text \<open>Whether a document belongs to the source of a query; the source must be known.\<close>

definition inSource :: "host \<Rightarrow> dbl \<Rightarrow> reader \<Rightarrow> qsource \<Rightarrow> (indexed_doc \<Rightarrow> bool) option" where
  "inSource H now R src =
     (case src of
        Notes folder exts \<Rightarrow> Some (\<lambda>d. isNoteOf H d (folderPrefix folder) (normExts H exts))
      | Base b pages \<Rightarrow>
          if b = [] then None
          else Some (\<lambda>d. ixBase d = Some b
            \<or> (case pages of None \<Rightarrow> False
               | Some p \<Rightarrow> isNoteOf H d (folderPrefix (pgFolder p)) (normExts H (pgExt p))
                   \<and> (case pgWhere p of None \<Rightarrow> True | Some f \<Rightarrow> matchesDoc H now R (ixDoc d) f)))
      | UnknownSource \<Rightarrow> None)"

definition matchesTerms :: "jsstr list \<Rightarrow> jsstr list \<Rightarrow> bool" where
  "matchesTerms terms own = list_all (\<lambda>t. list_ex (startsWith t) own) terms"

text \<open>The documents a query finds, sorted.\<close>

definition findHits :: "host \<Rightarrow> dbl \<Rightarrow> engine \<Rightarrow> reader \<Rightarrow> (indexed_doc \<Rightarrow> bool) \<Rightarrow> query_core \<Rightarrow> eval_doc list" where
  "findHits H now E R src q =
     (let terms = (case qText q of None \<Rightarrow> [] | Some t \<Rightarrow> if t = [] then [] else wordsOf H t)
      in sortDocs H now R (optList (qSort q))
           (map ixDoc (filter (\<lambda>d. src d
              \<and> matchesTerms terms (case map_of (enWords E) (edId (ixDoc d)) of None \<Rightarrow> [] | Some ws \<Rightarrow> ws)
              \<and> (case qWhere q of None \<Rightarrow> True | Some f \<Rightarrow> matchesDoc H now R (ixDoc d) f))
            (map snd (enDocs E)))))"

definition rowOfDoc :: "jsstr list option \<Rightarrow> eval_doc \<Rightarrow> query_row" where
  "rowOfDoc select d =
     \<lparr>rwId = edId d, rwPath = edPath d, rwTitle = edTitle d,
      rwValues = (case select of
         None \<Rightarrow> edProps d
       | Some ks \<Rightarrow> fold (\<lambda>k m. case map_of (edProps d) k of None \<Rightarrow> m | Some v \<Rightarrow> AList.update k v m) ks [])\<rparr>"

definition decodeCursor :: "cursor option \<Rightarrow> query_core \<Rightarrow> query_error + nat" where
  "decodeCursor c key = (case c of
     None \<Rightarrow> Inr 0
   | Some (Cursor k n) \<Rightarrow> if k = key then Inr n else Inl InvalidCursor
   | Some BadCursor \<Rightarrow> Inl InvalidCursor)"

text \<open>The checks before a query runs: its limit, the size of its filters, its formulas, its
  aggregates and its source.\<close>

definition prepare :: "host \<Rightarrow> dbl \<Rightarrow> query \<Rightarrow> query_error + int \<times> reader \<times> (indexed_doc \<Rightarrow> bool)" where
  "prepare H now q =
     (let limit = (case qLimit q of None \<Rightarrow> defaultLimit | Some l \<Rightarrow> l); core = qCore q;
          pagesWhere = (case qFrom core of Base b (Some p) \<Rightarrow> pgWhere p | _ \<Rightarrow> None);
          size = (\<lambda>w. case w of None \<Rightarrow> 0 | Some f \<Rightarrow> countNodes f)
      in if limit < 1 \<or> maxLimit < limit then Inl InvalidQuery
         else if maxFilterNodes < size (qWhere core) + size pagesWhere then Inl TooComplex
         else case newReader H core of
                Inl e \<Rightarrow> Inl e
              | Inr R \<Rightarrow>
                  (case checkAggregates (qAggregate core) maxAggregates of
                     Inl e \<Rightarrow> Inl e
                   | Inr _ \<Rightarrow>
                       (case inSource H now R (qFrom core) of
                          None \<Rightarrow> Inl InvalidQuery
                        | Some src \<Rightarrow> Inr (limit, R, src))))"

definition runQuery :: "host \<Rightarrow> dbl \<Rightarrow> engine \<Rightarrow> query \<Rightarrow> query_error + query_result" where
  "runQuery H now E q =
     (case prepare H now q of
        Inl e \<Rightarrow> Inl e
      | Inr (limit, R, src) \<Rightarrow>
          (let core = qCore q; hits = findHits H now E R src core
           in case decodeCursor (qCursor q) core of
                Inl e \<Rightarrow> Inl e
              | Inr start \<Rightarrow>
                  (let page = jsSlice start (start + nat limit) hits; stop = start + length page
                   in Inr \<lparr>rsRows = map (rowOfDoc (qSelect core)) page,
                           rsNext = (if stop < length hits then Some (Cursor core stop) else None),
                           rsTotal = length hits,
                           rsGroups = map_option (groupDocs H now R hits) (qGroupBy core),
                           rsAggregates = map_option (map (aggregateDocs H now R hits)) (qAggregate core),
                           rsIndex = enState E\<rparr>)))"

text \<open>\<open>query()\<close>: a request whose signal is aborted is refused.\<close>

definition queryOnce :: "host \<Rightarrow> dbl \<Rightarrow> bool \<Rightarrow> engine \<Rightarrow> query \<Rightarrow> query_error + query_result" where
  "queryOnce H now aborted E q = (if aborted then Inl Unavailable else runQuery H now E q)"

section \<open>Changes and watchers\<close>

text \<open>What the engine calls: a watcher with a result, a listener with a state.\<close>

datatype engine_event = WatchEvent nat query_result | StateEvent nat index_state

text \<open>One watcher; a query that is refused gives nothing.\<close>

definition emitTo :: "host \<Rightarrow> dbl \<Rightarrow> engine \<Rightarrow> nat \<times> query \<Rightarrow> engine_event list" where
  "emitTo H now E w = (case runQuery H now E (snd w) of Inl e \<Rightarrow> [] | Inr r \<Rightarrow> [WatchEvent (fst w) r])"

definition changed :: "host \<Rightarrow> dbl \<Rightarrow> engine \<Rightarrow> engine \<times> engine_event list" where
  "changed H now E =
     (if 0 < enBatching E then (E\<lparr>enDirty := True\<rparr>, []) else (E, concat (map (emitTo H now E) (enWatchers E))))"

definition upsert :: "host \<Rightarrow> dbl \<Rightarrow> indexed_doc \<Rightarrow> engine \<Rightarrow> engine \<times> engine_event list" where
  "upsert H now d E =
     (let i = edId (ixDoc d);
          ws = setOf (wordsOf H (edTitle (ixDoc d)) @ wordsOf H (case ixText d of None \<Rightarrow> [] | Some t \<Rightarrow> t))
      in changed H now (E\<lparr>enDocs := AList.update i d (enDocs E), enWords := AList.update i ws (enWords E)\<rparr>))"

definition removeDoc :: "host \<Rightarrow> dbl \<Rightarrow> jsstr \<Rightarrow> engine \<Rightarrow> engine \<times> engine_event list" where
  "removeDoc H now i E =
     (if i \<notin> fst ` set (enDocs E) then (E, [])
      else changed H now (E\<lparr>enDocs := AList.delete i (enDocs E), enWords := AList.delete i (enWords E)\<rparr>))"

definition setState :: "host \<Rightarrow> dbl \<Rightarrow> index_state \<Rightarrow> engine \<Rightarrow> engine \<times> engine_event list" where
  "setState H now st E =
     (let E' = E\<lparr>enState := st\<rparr>; r = changed H now E'
      in (fst r, map (\<lambda>l. StateEvent l st) (enStateListeners E') @ snd r))"

definition watchQuery :: "host \<Rightarrow> dbl \<Rightarrow> query \<Rightarrow> engine \<Rightarrow> engine \<times> engine_event list" where
  "watchQuery H now q E =
     (let w = (enNextId E, q); E' = E\<lparr>enWatchers := enWatchers E @ [w], enNextId := enNextId E + 1\<rparr>
      in (E', emitTo H now E' w))"

definition unwatch :: "nat \<Rightarrow> engine \<Rightarrow> engine" where
  "unwatch i E = E\<lparr>enWatchers := filter (\<lambda>w. fst w \<noteq> i) (enWatchers E)\<rparr>"

definition listenState :: "engine \<Rightarrow> engine" where
  "listenState E = E\<lparr>enStateListeners := enStateListeners E @ [enNextId E], enNextId := enNextId E + 1\<rparr>"

definition beginBatch :: "engine \<Rightarrow> engine" where
  "beginBatch E = E\<lparr>enBatching := enBatching E + 1\<rparr>"

definition endBatch :: "host \<Rightarrow> dbl \<Rightarrow> engine \<Rightarrow> engine \<times> engine_event list" where
  "endBatch H now E =
     (let E' = E\<lparr>enBatching := enBatching E - 1\<rparr>
      in if enBatching E' = 0 \<and> enDirty E' then changed H now (E'\<lparr>enDirty := False\<rparr>) else (E', []))"

text \<open>The operations; a batch runs others, then ends.\<close>

datatype engine_op = OpUpsert indexed_doc | OpRemove jsstr | OpSetState index_state | OpWatch query
  | OpUnwatch nat | OpListen | OpBatch "engine_op list"

fun execOp :: "host \<Rightarrow> dbl \<Rightarrow> engine_op \<Rightarrow> engine \<Rightarrow> engine \<times> engine_event list"
  and execOps :: "host \<Rightarrow> dbl \<Rightarrow> engine_op list \<Rightarrow> engine \<Rightarrow> engine \<times> engine_event list" where
  "execOp H now (OpUpsert d) E = upsert H now d E"
| "execOp H now (OpRemove i) E = removeDoc H now i E"
| "execOp H now (OpSetState st) E = setState H now st E"
| "execOp H now (OpWatch q) E = watchQuery H now q E"
| "execOp H now (OpUnwatch i) E = (unwatch i E, [])"
| "execOp H now OpListen E = (listenState E, [])"
| "execOp H now (OpBatch xs) E =
     (let r = execOps H now xs (beginBatch E); s = endBatch H now (fst r) in (fst s, snd r @ snd s))"
| "execOps H now [] E = (E, [])"
| "execOps H now (x # xs) E =
     (let r = execOp H now x E; s = execOps H now xs (fst r) in (fst s, snd r @ snd s))"

definition upsertMany :: "host \<Rightarrow> dbl \<Rightarrow> indexed_doc list \<Rightarrow> engine \<Rightarrow> engine \<times> engine_event list" where
  "upsertMany H now ds E = execOp H now (OpBatch (map OpUpsert ds)) E"

section \<open>Every page, once\<close>

text \<open>A client that follows the cursors.\<close>

fun fetchAll :: "nat \<Rightarrow> host \<Rightarrow> dbl \<Rightarrow> engine \<Rightarrow> query \<Rightarrow> (query_error + query_row list) option" where
  "fetchAll 0 H now E q = None"
| "fetchAll (Suc n) H now E q =
     (case runQuery H now E q of
        Inl e \<Rightarrow> Some (Inl e)
      | Inr r \<Rightarrow>
          (case rsNext r of
             None \<Rightarrow> Some (Inr (rsRows r))
           | Some c \<Rightarrow> map_option (map_sum id (\<lambda>rows. rsRows r @ rows)) (fetchAll n H now E (q\<lparr>qCursor := Some c\<rparr>))))"

lemma prepare_cursor [simp]: "prepare H now (q\<lparr>qCursor := c\<rparr>) = prepare H now q"
  by (simp add: prepare_def Let_def)

lemma prepare_limit: "prepare H now q = Inr (limit, R, src) \<Longrightarrow> 1 \<le> limit"
  by (auto simp: prepare_def Let_def split: if_splits sum.splits option.splits)

lemma take_cover: "take k xs @ drop (length (take k xs)) xs = xs"
  by (cases "k \<le> length xs") auto

lemma fetchAll_from:
  assumes p: "prepare H now q = Inr (limit, R, src)" and q: "qCursor q = Some (Cursor (qCore q) start)"
    and n: "length (findHits H now E R src (qCore q)) - start < n"
  shows "fetchAll n H now E q
     = Some (Inr (map (rowOfDoc (qSelect (qCore q))) (drop start (findHits H now E R src (qCore q)))))"
  using assms
proof (induction n arbitrary: q start)
  case (Suc n)
  define hits where "hits = findHits H now E R src (qCore q)"
  define page where "page = jsSlice start (start + nat limit) hits"
  have limit: "1 \<le> nat limit" using prepare_limit [OF Suc.prems(1)] by simp
  obtain r where r: "runQuery H now E q = Inr r" "rsRows r = map (rowOfDoc (qSelect (qCore q))) page"
    "rsNext r = (if start + length page < length hits then Some (Cursor (qCore q) (start + length page)) else None)"
    using Suc.prems(1,2) by (auto simp: runQuery_def decodeCursor_def Let_def hits_def page_def)
  have cover: "page @ drop (start + length page) hits = drop start hits"
    using take_cover [of "nat limit" "drop start hits"] by (simp add: page_def jsSlice_def add.commute)
  show ?case
  proof (cases "start + length page < length hits")
    case True
    then have len: "length page = nat limit" by (auto simp: page_def jsSlice_def min_def)
    let ?q = "q\<lparr>qCursor := Some (Cursor (qCore q) (start + length page))\<rparr>"
    have "fetchAll n H now E ?q = Some (Inr (map (rowOfDoc (qSelect (qCore ?q))) (drop (start + length page) hits)))"
      unfolding hits_def using Suc.prems limit len True
      by (subst Suc.IH [of ?q "start + length page"]) (auto simp: hits_def)
    then show ?thesis using r True cover by (simp flip: hits_def map_append)
  next
    case False
    then show ?thesis using r cover by (simp flip: hits_def)
  qed
qed simp

text \<open>C29: following the cursors of an accepted query gives the rows of all its results, each once
  and in the order of the sort, after at most as many requests as there are results, plus one.\<close>

theorem pages_cover_results:
  assumes "prepare H now q = Inr (limit, R, src)" "qCursor q = None"
  shows "fetchAll (Suc (length (findHits H now E R src (qCore q)))) H now E q
    = Some (Inr (map (rowOfDoc (qSelect (qCore q))) (findHits H now E R src (qCore q))))"
proof -
  define hits where "hits = findHits H now E R src (qCore q)"
  let ?q = "q\<lparr>qCursor := Some (Cursor (qCore q) 0)\<rparr>"
  have "runQuery H now E ?q = runQuery H now E q"
    using assms by (simp add: runQuery_def decodeCursor_def Let_def)
  then have "fetchAll (Suc (length hits)) H now E q = fetchAll (Suc (length hits)) H now E ?q"
    by (simp split: sum.splits option.splits)
  also have "\<dots> = Some (Inr (map (rowOfDoc (qSelect (qCore q))) hits))"
    using fetchAll_from [of H now ?q limit R src 0 E "Suc (length hits)"] assms(1) by (simp add: hits_def)
  finally show ?thesis by (simp add: hits_def)
qed

definition allNotes :: query where
  "allNotes = \<lparr>qCore = \<lparr>qFrom = Notes None None, qWhere = None, qText = None, qSort = None, qSelect = None,
     qGroupBy = None, qAggregate = None\<rparr>, qLimit = Some 1, qCursor = None\<rparr>"

lemma prepare_allNotes: "\<exists>R src. prepare H now allNotes = Inr (1, R, src)"
  by (simp add: prepare_def allNotes_def Let_def maxLimit_def newReader_def eachField_def optFields_def optList_def
      checkAggregates_def inSource_def)

theorem pages_cover_results_witness:
  "\<exists>R src. fetchAll (Suc (length (findHits asciiHost dzero emptyEngine R src (qCore allNotes)))) asciiHost dzero emptyEngine allNotes
    = Some (Inr (map (rowOfDoc (qSelect (qCore allNotes))) (findHits asciiHost dzero emptyEngine R src (qCore allNotes))))"
proof -
  obtain R src where p: "prepare asciiHost dzero allNotes = Inr (1, R, src)" using prepare_allNotes by blast
  from pages_cover_results [OF p] show ?thesis by (auto simp: allNotes_def)
qed

section \<open>Watchers are up to date\<close>

text \<open>The last result a watcher received.\<close>

fun lastSeen :: "nat \<Rightarrow> engine_event list \<Rightarrow> query_result option" where
  "lastSeen w [] = None"
| "lastSeen w (e # es) =
     (case lastSeen w es of
        Some r \<Rightarrow> Some r
      | None \<Rightarrow> (case e of WatchEvent v r \<Rightarrow> if v = w then Some r else None | _ \<Rightarrow> None))"

lemma lastSeen_append:
  "lastSeen w (xs @ ys) = (case lastSeen w ys of Some r \<Rightarrow> Some r | None \<Rightarrow> lastSeen w xs)"
  by (induction xs) (auto split: option.splits)

lemma lastSeen_states: "lastSeen w (map (\<lambda>l. StateEvent l st) ls) = None"
  by (induction ls) auto

lemma lastSeen_emitTo_other: "fst v \<noteq> w \<Longrightarrow> lastSeen w (emitTo H now E v) = None"
  by (simp add: emitTo_def split: sum.splits)

lemma lastSeen_emits_none: "w \<notin> fst ` set vs \<Longrightarrow> lastSeen w (concat (map (emitTo H now E) vs)) = None"
  by (induction vs) (auto simp: lastSeen_append lastSeen_emitTo_other split: option.splits)

lemma lastSeen_emits:
  "distinct (map fst vs) \<Longrightarrow> (w, q) \<in> set vs \<Longrightarrow> runQuery H now E q = Inr r
    \<Longrightarrow> lastSeen w (concat (map (emitTo H now E) vs)) = Some r"
proof (induction vs)
  case (Cons v vs)
  show ?case
  proof (cases "v = (w, q)")
    case True
    then have "w \<notin> fst ` set vs" using Cons.prems(1) by auto
    then have "lastSeen w (concat (map (emitTo H now E) vs)) = None" by (rule lastSeen_emits_none)
    moreover have "emitTo H now E v = [WatchEvent w r]" using True Cons.prems(3) by (simp add: emitTo_def)
    ultimately show ?thesis by (simp add: lastSeen_append)
  next
    case False
    then show ?thesis using Cons by (simp add: lastSeen_append)
  qed
qed simp

lemma runQuery_cong:
  assumes "enDocs E = enDocs E'" "enWords E = enWords E'" "enState E = enState E'"
  shows "runQuery H now E q = runQuery H now E' q"
proof -
  have h: "findHits H now E R src c = findHits H now E' R src c" for R src c
    using assms by (simp add: findHits_def)
  show ?thesis unfolding runQuery_def h assms(3) ..
qed

definition upToDate :: "host \<Rightarrow> dbl \<Rightarrow> engine \<Rightarrow> engine_event list \<Rightarrow> bool" where
  "upToDate H now E evs \<longleftrightarrow>
     (\<forall>(w, q) \<in> set (enWatchers E). \<forall>r. runQuery H now E q = Inr r \<longrightarrow> lastSeen w evs = Some r)"

definition engineOk :: "host \<Rightarrow> dbl \<Rightarrow> engine \<Rightarrow> engine_event list \<Rightarrow> bool" where
  "engineOk H now E evs \<longleftrightarrow> distinct (map fst (enWatchers E)) \<and> (\<forall>w \<in> fst ` set (enWatchers E). w < enNextId E)
     \<and> (enBatching E = 0 \<longrightarrow> \<not> enDirty E) \<and> (\<not> enDirty E \<longrightarrow> upToDate H now E evs)"

text \<open>A step that keeps the invariant and the depth of the batches.\<close>

definition keepsOk :: "host \<Rightarrow> dbl \<Rightarrow> engine \<Rightarrow> engine_event list \<Rightarrow> engine \<times> engine_event list \<Rightarrow> bool" where
  "keepsOk H now E evs r \<longleftrightarrow> engineOk H now (fst r) (evs @ snd r) \<and> enBatching (fst r) = enBatching E"

lemma changed_ok:
  assumes "distinct (map fst (enWatchers E))" "\<forall>w \<in> fst ` set (enWatchers E). w < enNextId E"
    and "enBatching E = 0 \<longrightarrow> \<not> enDirty E"
  shows "keepsOk H now E evs (changed H now E)"
proof (cases "0 < enBatching E")
  case True
  then show ?thesis using assms by (simp add: changed_def keepsOk_def engineOk_def)
next
  case False
  have "upToDate H now E (evs @ concat (map (emitTo H now E) (enWatchers E)))"
    using lastSeen_emits [OF assms(1)] by (auto simp: upToDate_def lastSeen_append)
  then show ?thesis using assms False by (simp add: changed_def keepsOk_def engineOk_def)
qed

lemma changed_after:
  assumes "engineOk H now E evs" "enWatchers E' = enWatchers E" "enNextId E' = enNextId E"
    "enBatching E' = enBatching E" "enDirty E' = enDirty E"
  shows "keepsOk H now E evs (changed H now E')"
  using changed_ok [of E' H now evs] assms by (simp add: keepsOk_def engineOk_def)

lemma upToDate_cong:
  assumes "enDocs E' = enDocs E" "enWords E' = enWords E" "enState E' = enState E"
    "set (enWatchers E') \<subseteq> set (enWatchers E)"
  shows "upToDate H now E evs \<Longrightarrow> upToDate H now E' evs"
  using assms(4) unfolding upToDate_def runQuery_cong [OF assms(1-3)] by blast

lemma setState_ok: "engineOk H now E evs \<Longrightarrow> keepsOk H now E evs (setState H now st E)"
proof -
  assume ok: "engineOk H now E evs"
  let ?E = "E\<lparr>enState := st\<rparr>" and ?ev = "map (\<lambda>l. StateEvent l st) (enStateListeners E)"
  have "keepsOk H now E (evs @ ?ev) (changed H now ?E)"
    using changed_ok [of ?E H now "evs @ ?ev"] ok by (simp add: keepsOk_def engineOk_def)
  then show ?thesis by (simp add: setState_def Let_def keepsOk_def)
qed

lemma watchQuery_ok:
  assumes ok: "engineOk H now E evs"
  shows "keepsOk H now E evs (watchQuery H now q E)"
proof -
  define E' where "E' = E\<lparr>enWatchers := enWatchers E @ [(enNextId E, q)], enNextId := enNextId E + 1\<rparr>"
  have run: "runQuery H now E' p = runQuery H now E p" for p by (rule runQuery_cong) (simp_all add: E'_def)
  have fresh: "\<forall>w \<in> fst ` set (enWatchers E). w < enNextId E" using ok by (simp add: engineOk_def)
  have "upToDate H now E' (evs @ emitTo H now E' (enNextId E, q))" if "upToDate H now E evs"
    unfolding upToDate_def
  proof (clarify)
    fix w p r
    assume w: "(w, p) \<in> set (enWatchers E')" and r: "runQuery H now E' p = Inr r"
    show "lastSeen w (evs @ emitTo H now E' (enNextId E, q)) = Some r"
    proof (cases "w = enNextId E")
      case True
      then have "p = q" using w fresh by (force simp: E'_def)
      then show ?thesis using True r by (simp add: lastSeen_append emitTo_def)
    next
      case False
      then have "(w, p) \<in> set (enWatchers E)" using w by (simp add: E'_def)
      then have "lastSeen w evs = Some r" using that r run unfolding upToDate_def by fastforce
      then show ?thesis using False by (simp add: lastSeen_append lastSeen_emitTo_other)
    qed
  qed
  then show ?thesis using ok fresh
    by (auto simp: watchQuery_def keepsOk_def engineOk_def Let_def simp flip: E'_def) (auto simp: E'_def)
qed

lemma endBatch_ok:
  assumes "engineOk H now E evs" "enBatching E = Suc n"
  shows "engineOk H now (fst (endBatch H now E)) (evs @ snd (endBatch H now E)) \<and> enBatching (fst (endBatch H now E)) = n"
proof (cases "n = 0 \<and> enDirty E")
  case True
  let ?E = "E\<lparr>enBatching := n, enDirty := False\<rparr>"
  have "keepsOk H now ?E evs (changed H now ?E)" using assms by (intro changed_ok) (simp_all add: engineOk_def)
  then show ?thesis using True assms by (simp add: endBatch_def Let_def keepsOk_def)
next
  case False
  have "upToDate H now E evs \<Longrightarrow> upToDate H now (E\<lparr>enBatching := n\<rparr>) evs" by (erule upToDate_cong [rotated 4]) simp_all
  then show ?thesis using False assms by (auto simp: endBatch_def Let_def engineOk_def)
qed

lemma execOp_ok:
  "engineOk H now E evs \<Longrightarrow> keepsOk H now E evs (execOp H now x E)"
  "engineOk H now E evs \<Longrightarrow> keepsOk H now E evs (execOps H now xs E)"
proof (induction H now x E and H now xs E arbitrary: evs and evs rule: execOp_execOps.induct)
  case (5 H now i E)
  have "upToDate H now E evs \<Longrightarrow> upToDate H now (unwatch i E) evs"
    by (erule upToDate_cong [rotated 4]) (auto simp: unwatch_def)
  then show ?case using 5 by (auto simp: keepsOk_def engineOk_def unwatch_def distinct_map_filter)
next
  case (6 H now E)
  have "upToDate H now E evs \<Longrightarrow> upToDate H now (listenState E) evs"
    by (erule upToDate_cong [rotated 4]) (auto simp: listenState_def)
  then show ?case using 6 by (auto simp: keepsOk_def engineOk_def listenState_def)
next
  case (7 H now xs E)
  have "upToDate H now E evs \<Longrightarrow> upToDate H now (beginBatch E) evs"
    by (erule upToDate_cong [rotated 4]) (auto simp: beginBatch_def)
  then have "engineOk H now (beginBatch E) evs" using 7(2) by (auto simp: engineOk_def beginBatch_def)
  from 7(1) [OF this] have r: "engineOk H now (fst (execOps H now xs (beginBatch E))) (evs @ snd (execOps H now xs (beginBatch E)))"
    "enBatching (fst (execOps H now xs (beginBatch E))) = Suc (enBatching E)"
    by (simp_all add: keepsOk_def beginBatch_def)
  from endBatch_ok [OF r] show ?case by (simp add: keepsOk_def Let_def)
next
  case (9 H now x xs E)
  have "keepsOk H now (fst (execOp H now x E)) (evs @ snd (execOp H now x E))
      (execOps H now xs (fst (execOp H now x E)))"
    using 9(1) [OF 9(3)] by (intro 9(2)) (simp_all add: keepsOk_def)
  then show ?case using 9(1) [OF 9(3)] by (simp add: keepsOk_def Let_def)
qed (auto simp: upsert_def removeDoc_def Let_def setState_ok watchQuery_ok keepsOk_def [of _ _ _ _ "(_, [])"]
      intro!: changed_after)

text \<open>C30: whatever the engine is asked to do, alone or in batches nested in any way, once it has
  returned every watcher whose query is accepted has last received the result of its query on the
  documents and the state the engine holds.\<close>

theorem watchers_up_to_date:
  assumes "execOps H now xs emptyEngine = (E, evs)"
  shows "\<forall>(w, q) \<in> set (enWatchers E). \<forall>r. runQuery H now E q = Inr r \<longrightarrow> lastSeen w evs = Some r"
proof -
  have "keepsOk H now emptyEngine [] (E, evs)"
    using execOp_ok(2) [of H now emptyEngine "[]" xs] assms
    by (simp add: engineOk_def emptyEngine_def upToDate_def)
  then show ?thesis by (simp add: keepsOk_def engineOk_def emptyEngine_def upToDate_def)
qed

theorem watchers_up_to_date_witness:
  "let r = execOps asciiHost dzero [OpWatch allNotes, OpBatch [OpSetState (readyState\<lparr>stStatus := Building\<rparr>), OpSetState readyState]] emptyEngine
   in \<forall>(w, q) \<in> set (enWatchers (fst r)). \<forall>x. runQuery asciiHost dzero (fst r) q = Inr x \<longrightarrow> lastSeen w (snd r) = Some x"
  unfolding Let_def by (rule watchers_up_to_date [of _ _ "[OpWatch allNotes, OpBatch [OpSetState (readyState\<lparr>stStatus := Building\<rparr>), OpSetState readyState]]"]) simp

end
