(* ===== verification/AnchorIndex.thy ===== *)
theory AnchorIndex
  imports Prelude
begin

text \<open>
  The index of anchors (\<open>domain-index/src/AnchorIndex.ts\<close>, \<open>IndexEngine.ts\<close>,
  \<open>AnchorHandle.ts\<close>): entries by id, with two secondary indexes (by document and by value)
  kept up to date by hand, and the documents to validate again.  A relative position and the
  metadata of an entry are opaque (\<open>'a\<close> and \<open>'m\<close>, the latter compared by identity); the
  collaborative text is the interface of the source, a record of its functions.
\<close>

section \<open>Anchors\<close>

text \<open>The fields of the JSON of a relative position that \<open>anchorKey\<close> reads.\<close>

record rel_pos =
  rpItem :: "(nat \<times> nat) option"
  rpType :: "(nat \<times> nat) option"
  rpTname :: "jsstr option"
  rpAssoc :: "int option"

abbreviation colon :: cu where "colon \<equiv> 58"

definition anchorKey :: "rel_pos \<Rightarrow> jsstr" where
  "anchorKey rp =
     (let assoc = (case rpAssoc rp of Some a \<Rightarrow> a | None \<Rightarrow> 0);
          i = (case rpItem rp of Some x \<Rightarrow> Some x | None \<Rightarrow> rpType rp)
      in case i of
           Some (client, clock) \<Rightarrow> natText client @ colon # natText clock @ colon # jsIntText assoc
         | None \<Rightarrow> js ''tname:'' @ (case rpTname rp of Some t \<Rightarrow> t | None \<Rightarrow> js ''root'') @ colon # jsIntText assoc)"

section \<open>Entries\<close>

record crdt_version =
  clock :: nat

record ('a, 'm) index_entry =
  ieId :: jsstr
  ieNamespace :: jsstr
  ieValue :: jsstr
  ieDocId :: jsstr
  anchor1 :: "'a option"
  anchor2 :: "'a option"
  ieMeta :: "'m option"
  crdtVersion :: "crdt_version option"

record 'a collab_text =
  resolveRelPos :: "'a \<Rightarrow> nat option"
  sliceText :: "nat \<Rightarrow> nat \<Rightarrow> jsstr"

definition resolveEntry :: "('a, 'm) index_entry \<Rightarrow> 'a collab_text \<Rightarrow> (nat \<times> nat \<times> jsstr) option" where
  "resolveEntry e t =
     (case (anchor1 e, anchor2 e) of
        (Some a, Some b) \<Rightarrow>
          (case (resolveRelPos t a, resolveRelPos t b) of
             (Some i, Some j) \<Rightarrow> if j \<le> i then None else Some (i, j, sliceText t i j)
           | _ \<Rightarrow> None)
      | _ \<Rightarrow> None)"

definition validateEntry :: "('a, 'm) index_entry \<Rightarrow> 'a collab_text \<Rightarrow> bool" where
  "validateEntry e t =
     (case resolveEntry e t of None \<Rightarrow> False | Some (i, j, v) \<Rightarrow> v = ieValue e)"

section \<open>The store\<close>

text \<open>\<open>namespace \<rightarrow> key \<rightarrow> Set<entryId>\<close>.\<close>

type_synonym buckets = "(jsstr \<times> (jsstr \<times> jsstr list) list) list"

record ('a, 'm) anchor_index =
  ixEntries :: "(jsstr \<times> ('a, 'm) index_entry) list"
  byDoc :: buckets
  byValue :: buckets
  lastIndexed :: "(jsstr \<times> crdt_version) list"
  revalidation :: "jsstr list"

definition emptyIndex :: "('a, 'm) anchor_index" where
  "emptyIndex = \<lparr>ixEntries = [], byDoc = [], byValue = [], lastIndexed = [], revalidation = []\<rparr>"

definition indexSize :: "('a, 'm) anchor_index \<Rightarrow> nat" where
  "indexSize s = length (ixEntries s)"

definition bucketOf :: "jsstr \<Rightarrow> jsstr \<Rightarrow> buckets \<Rightarrow> jsstr list" where
  "bucketOf ns k m =
     (case map_of m ns of None \<Rightarrow> []
      | Some inner \<Rightarrow> (case map_of inner k of None \<Rightarrow> [] | Some ids \<Rightarrow> ids))"

definition innerOf :: "jsstr \<Rightarrow> buckets \<Rightarrow> (jsstr \<times> jsstr list) list" where
  "innerOf ns m = (case map_of m ns of None \<Rightarrow> [] | Some inner \<Rightarrow> inner)"

definition putId :: "jsstr \<Rightarrow> jsstr \<Rightarrow> jsstr \<Rightarrow> buckets \<Rightarrow> buckets" where
  "putId ns k i m =
     AList.update ns (AList.update k (setAdd i (bucketOf ns k m)) (innerOf ns m)) m"

definition dropId :: "jsstr \<Rightarrow> jsstr \<Rightarrow> jsstr \<Rightarrow> buckets \<Rightarrow> buckets" where
  "dropId ns k i m =
     (case map_of m ns of None \<Rightarrow> m
      | Some inner \<Rightarrow>
         (case map_of inner k of None \<Rightarrow> m
          | Some ids \<Rightarrow> AList.update ns (AList.update k (removeAll i ids) inner) m))"

definition indexEntry :: "('a, 'm) index_entry \<Rightarrow> ('a, 'm) anchor_index \<Rightarrow> ('a, 'm) anchor_index" where
  "indexEntry e s = s\<lparr>byDoc := putId (ieNamespace e) (ieDocId e) (ieId e) (byDoc s),
     byValue := putId (ieNamespace e) (ieValue e) (ieId e) (byValue s)\<rparr>"

definition unindexEntry :: "('a, 'm) index_entry \<Rightarrow> ('a, 'm) anchor_index \<Rightarrow> ('a, 'm) anchor_index" where
  "unindexEntry e s = s\<lparr>byDoc := dropId (ieNamespace e) (ieDocId e) (ieId e) (byDoc s),
     byValue := dropId (ieNamespace e) (ieValue e) (ieId e) (byValue s)\<rparr>"

definition reindexEntry ::
  "('a, 'm) index_entry \<Rightarrow> jsstr \<Rightarrow> ('a, 'm) anchor_index \<Rightarrow> ('a, 'm) anchor_index" where
  "reindexEntry e old s = s\<lparr>byValue := putId (ieNamespace e) (ieValue e) (ieId e)
     (dropId (ieNamespace e) old (ieId e) (byValue s))\<rparr>"

definition addEntry :: "('a, 'm) index_entry \<Rightarrow> ('a, 'm) anchor_index \<Rightarrow> ('a, 'm) anchor_index" where
  "addEntry e s =
     (case map_of (ixEntries s) (ieId e) of
        Some x \<Rightarrow>
          (if ieValue x = ieValue e \<and> ieMeta x = ieMeta e then s
           else let x' = x\<lparr>ieValue := ieValue e, ieMeta := ieMeta e\<rparr>
                in reindexEntry x' (ieValue x) (s\<lparr>ixEntries := AList.update (ieId e) x' (ixEntries s)\<rparr>))
      | None \<Rightarrow> indexEntry e (s\<lparr>ixEntries := AList.update (ieId e) e (ixEntries s)\<rparr>))"

definition removeEntry :: "jsstr \<Rightarrow> ('a, 'm) anchor_index \<Rightarrow> ('a, 'm) anchor_index" where
  "removeEntry i s =
     (case map_of (ixEntries s) i of None \<Rightarrow> s
      | Some e \<Rightarrow> let s' = unindexEntry e s in s'\<lparr>ixEntries := AList.delete i (ixEntries s')\<rparr>)"

text \<open>The entries behind some ids; an id without entry is passed over.\<close>

definition entriesOf :: "('a, 'm) anchor_index \<Rightarrow> jsstr list \<Rightarrow> ('a, 'm) index_entry list" where
  "entriesOf s ids = List.map_filter (map_of (ixEntries s)) ids"

definition queryNamespace :: "jsstr \<Rightarrow> ('a, 'm) anchor_index \<Rightarrow> ('a, 'm) index_entry list" where
  "queryNamespace ns s = concat (map (\<lambda>(k, ids). entriesOf s ids) (innerOf ns (byDoc s)))"

definition getByValue :: "jsstr \<Rightarrow> jsstr \<Rightarrow> ('a, 'm) anchor_index \<Rightarrow> ('a, 'm) index_entry list" where
  "getByValue ns v s = entriesOf s (bucketOf ns v (byValue s))"

definition getByDoc :: "jsstr \<Rightarrow> jsstr \<Rightarrow> ('a, 'm) anchor_index \<Rightarrow> ('a, 'm) index_entry list" where
  "getByDoc ns d s = entriesOf s (bucketOf ns d (byDoc s))"

section \<open>Staleness\<close>

definition markValidated ::
  "jsstr \<Rightarrow> crdt_version option \<Rightarrow> ('a, 'm) anchor_index \<Rightarrow> ('a, 'm) anchor_index" where
  "markValidated d v s =
     s\<lparr>lastIndexed := (case v of None \<Rightarrow> lastIndexed s | Some x \<Rightarrow> AList.update d x (lastIndexed s)),
       revalidation := removeAll d (revalidation s)\<rparr>"

definition hasEntriesForDoc :: "jsstr \<Rightarrow> ('a, 'm) anchor_index \<Rightarrow> bool" where
  "hasEntriesForDoc d s \<longleftrightarrow>
     list_ex (\<lambda>(ns, inner). case map_of inner d of None \<Rightarrow> False | Some ids \<Rightarrow> ids \<noteq> []) (byDoc s)"

definition checkStaleness ::
  "jsstr \<Rightarrow> crdt_version \<Rightarrow> ('a, 'm) anchor_index \<Rightarrow> ('a, 'm) anchor_index" where
  "checkStaleness d current s =
     (if hasEntriesForDoc d s \<and>
         (case map_of (lastIndexed s) d of None \<Rightarrow> True | Some v \<Rightarrow> clock v < clock current)
      then s\<lparr>revalidation := setAdd d (revalidation s)\<rparr> else s)"

section \<open>The engine\<close>

text \<open>A contributor without \<open>onTextChange\<close> is \<open>None\<close>.\<close>

type_synonym ('a, 'm) contributor =
  "('a collab_text \<Rightarrow> jsstr \<Rightarrow> ('a, 'm) anchor_index \<Rightarrow> ('a, 'm) anchor_index) option"

record ('a, 'm) index_engine =
  engIndex :: "('a, 'm) anchor_index"
  contributors :: "('a, 'm) contributor list"

definition registerContributor ::
  "('a, 'm) contributor \<Rightarrow> ('a, 'm) index_engine \<Rightarrow> ('a, 'm) index_engine" where
  "registerContributor c g = g\<lparr>contributors := contributors g @ [c]\<rparr>"

definition onTextChange ::
  "'a collab_text \<Rightarrow> jsstr \<Rightarrow> crdt_version option \<Rightarrow> ('a, 'm) index_engine \<Rightarrow> ('a, 'm) index_engine" where
  "onTextChange t d v g =
     (let s = fold (\<lambda>c s. case c of None \<Rightarrow> s | Some f \<Rightarrow> f t d s) (contributors g) (engIndex g);
          s = markValidated d v s
      in g\<lparr>engIndex := s\<lparr>revalidation := removeAll d (revalidation s)\<rparr>\<rparr>)"

section \<open>The secondary indexes agree with the entries\<close>

datatype ('a, 'm) index_op =
    IxAdd "('a, 'm) index_entry"
  | IxRemove jsstr
  | IxValidated jsstr "crdt_version option"
  | IxStale jsstr crdt_version

fun applyIndexOp :: "('a, 'm) index_op \<Rightarrow> ('a, 'm) anchor_index \<Rightarrow> ('a, 'm) anchor_index" where
  "applyIndexOp (IxAdd e) s = addEntry e s"
| "applyIndexOp (IxRemove i) s = removeEntry i s"
| "applyIndexOp (IxValidated d v) s = markValidated d v s"
| "applyIndexOp (IxStale d v) s = checkStaleness d v s"

text \<open>Every level of a nested map has distinct keys.\<close>

definition buckets_ok :: "buckets \<Rightarrow> bool" where
  "buckets_ok m \<longleftrightarrow> distinct (map fst m) \<and> (\<forall>(ns, inner) \<in> set m. distinct (map fst inner)
     \<and> (\<forall>(k, ids) \<in> set inner. distinct ids))"

text \<open>The nested map holds exactly the ids that \<open>owner\<close> places there.\<close>

definition indexes :: "buckets \<Rightarrow> (jsstr \<Rightarrow> (jsstr \<times> jsstr) option) \<Rightarrow> bool" where
  "indexes m owner \<longleftrightarrow> buckets_ok m
     \<and> (\<forall>ns k i. i \<in> set (bucketOf ns k m) \<longleftrightarrow> owner i = Some (ns, k))"

lemma innerOf_ok:
  assumes "buckets_ok m"
  shows "distinct (map fst (innerOf ns m))" "(k, ids) \<in> set (innerOf ns m) \<Longrightarrow> distinct ids"
  using assms unfolding buckets_ok_def innerOf_def by (auto split: option.splits dest!: map_of_SomeD)

lemma bucketOf_inner: "bucketOf ns k m = (case map_of (innerOf ns m) k of None \<Rightarrow> [] | Some ids \<Rightarrow> ids)"
  by (simp add: bucketOf_def innerOf_def split: option.splits)

lemma bucketOf_distinct: "buckets_ok m \<Longrightarrow> distinct (bucketOf ns k m)"
  by (auto simp: bucketOf_inner split: option.splits dest!: map_of_SomeD innerOf_ok(2))

lemma set_update_subset: "set (AList.update k v al) \<subseteq> insert (k, v) (set al)"
  by (induction al) auto

lemma buckets_ok_update:
  assumes "buckets_ok m" "distinct ids"
  shows "buckets_ok (AList.update ns (AList.update k ids (innerOf ns m)) m)"
proof -
  let ?i = "AList.update k ids (innerOf ns m)"
  have "distinct (map fst ?i)" by (rule distinct_update) (rule innerOf_ok [OF assms(1)])
  moreover have "\<forall>(k, x) \<in> set ?i. distinct x"
    using set_update_subset [of k ids "innerOf ns m"] innerOf_ok(2) [OF assms(1)] assms(2) by fast
  moreover have "distinct (map fst (AList.update ns ?i m))"
    using assms(1) by (auto simp: buckets_ok_def intro: distinct_update)
  ultimately show ?thesis
    using set_update_subset [of ns ?i m] assms(1) unfolding buckets_ok_def by fast
qed

lemma bucketOf_update [simp]:
  "bucketOf ns' k' (AList.update ns (AList.update k ids (innerOf ns m)) m) =
     (if ns' = ns \<and> k' = k then ids else bucketOf ns' k' m)"
  by (auto simp: bucketOf_def innerOf_def update_conv' split: option.splits)

lemma bucketOf_putId:
  "bucketOf ns' k' (putId ns k i m) =
     (if ns' = ns \<and> k' = k then setAdd i (bucketOf ns k m) else bucketOf ns' k' m)"
  by (simp add: putId_def)

lemma dropId_alt:
  "dropId ns k i m = m \<and> bucketOf ns k m = [] \<or>
   dropId ns k i m = AList.update ns (AList.update k (removeAll i (bucketOf ns k m)) (innerOf ns m)) m"
  by (auto simp: dropId_def innerOf_def bucketOf_def split: option.splits)

lemma bucketOf_dropId:
  "bucketOf ns' k' (dropId ns k i m) =
     (if ns' = ns \<and> k' = k then removeAll i (bucketOf ns k m) else bucketOf ns' k' m)"
  using dropId_alt [of ns k i m] by (elim disjE) auto

lemma buckets_ok_putId: "buckets_ok m \<Longrightarrow> buckets_ok (putId ns k i m)"
  unfolding putId_def by (rule buckets_ok_update) (simp_all add: bucketOf_distinct)

lemma buckets_ok_dropId: "buckets_ok m \<Longrightarrow> buckets_ok (dropId ns k i m)"
  using dropId_alt [of ns k i m] by (elim disjE) (auto intro!: buckets_ok_update distinct_removeAll bucketOf_distinct)

lemma indexes_empty: "indexes [] (\<lambda>_. None)"
  by (simp add: indexes_def buckets_ok_def bucketOf_def)

lemma indexes_put:
  "indexes m owner \<Longrightarrow> owner i = None \<Longrightarrow> indexes (putId ns k i m) (owner(i \<mapsto> (ns, k)))"
  by (auto simp: indexes_def buckets_ok_putId bucketOf_putId)

lemma indexes_drop:
  "indexes m owner \<Longrightarrow> owner i = Some (ns, k) \<Longrightarrow> indexes (dropId ns k i m) (owner(i := None))"
  by (auto simp: indexes_def buckets_ok_dropId bucketOf_dropId)

lemma indexes_move:
  assumes "indexes m owner" "owner i = Some (ns, k)"
  shows "indexes (putId ns k' i (dropId ns k i m)) (owner(i \<mapsto> (ns, k')))"
  using indexes_put [OF indexes_drop [OF assms], of i ns k'] by simp

section \<open>The invariant\<close>

definition ownerBy ::
  "(('a, 'm) index_entry \<Rightarrow> jsstr) \<Rightarrow> (jsstr \<times> ('a, 'm) index_entry) list \<Rightarrow> jsstr
     \<Rightarrow> (jsstr \<times> jsstr) option" where
  "ownerBy f es i = map_option (\<lambda>e. (ieNamespace e, f e)) (map_of es i)"

definition entries_ok :: "(jsstr \<times> ('a, 'm) index_entry) list \<Rightarrow> bool" where
  "entries_ok es \<longleftrightarrow> distinct (map fst es) \<and> (\<forall>(i, e) \<in> set es. ieId e = i)"

definition index_ok :: "('a, 'm) anchor_index \<Rightarrow> bool" where
  "index_ok s \<longleftrightarrow> entries_ok (ixEntries s)
     \<and> indexes (byDoc s) (ownerBy ieDocId (ixEntries s))
     \<and> indexes (byValue s) (ownerBy ieValue (ixEntries s))"

lemma ownerBy_update [simp]:
  "ownerBy f (AList.update i e es) = (ownerBy f es)(i \<mapsto> (ieNamespace e, f e))"
  by (auto simp: ownerBy_def update_conv')

lemma ownerBy_delete [simp]: "ownerBy f (AList.delete i es) = (ownerBy f es)(i := None)"
  by (auto simp: ownerBy_def delete_conv')

lemma ownerBy_None: "map_of es i = None \<Longrightarrow> ownerBy f es i = None"
  by (simp add: ownerBy_def)

lemma ownerBy_Some: "map_of es i = Some e \<Longrightarrow> ownerBy f es i = Some (ieNamespace e, f e)"
  by (simp add: ownerBy_def)

lemma entries_ok_id: "entries_ok es \<Longrightarrow> map_of es i = Some e \<Longrightarrow> ieId e = i"
  by (auto simp: entries_ok_def dest!: map_of_SomeD)

lemma entries_ok_update: "entries_ok es \<Longrightarrow> ieId e = i \<Longrightarrow> entries_ok (AList.update i e es)"
  using set_update_subset [of i e es] by (auto simp: entries_ok_def intro!: distinct_update)

lemma set_delete_subset_aux: "set (AList.delete i es) \<subseteq> set es"
  by (auto simp: AList.delete_eq)

lemma entries_ok_delete: "entries_ok es \<Longrightarrow> entries_ok (AList.delete i es)"
  unfolding entries_ok_def
  using distinct_delete [of es i] set_delete_subset_aux [of i es] by auto

lemma addEntry_ok:
  assumes s: "index_ok s"
  shows "index_ok (addEntry e s)"
proof (cases "map_of (ixEntries s) (ieId e)")
  case None
  then show ?thesis using s
    by (simp add: addEntry_def indexEntry_def index_ok_def entries_ok_update indexes_put ownerBy_None)
next
  case (Some x)
  let ?x = "x\<lparr>ieValue := ieValue e, ieMeta := ieMeta e\<rparr>"
  have i: "ieId x = ieId e" using Some s entries_ok_id by (auto simp: index_ok_def)
  have d: "ownerBy ieDocId (ixEntries s) = (ownerBy ieDocId (ixEntries s))
      (ieId e \<mapsto> (ieNamespace x, ieDocId x))"
    using ownerBy_Some [OF Some, of ieDocId] by (simp add: fun_upd_idem)
  show ?thesis using s Some i d
    by (simp add: addEntry_def reindexEntry_def index_ok_def entries_ok_update Let_def
        indexes_move ownerBy_Some)
qed

lemma removeEntry_ok:
  assumes s: "index_ok s"
  shows "index_ok (removeEntry i s)"
proof (cases "map_of (ixEntries s) i")
  case (Some e)
  have i: "ieId e = i" using Some s entries_ok_id by (auto simp: index_ok_def)
  show ?thesis using s Some i
    by (simp add: removeEntry_def unindexEntry_def index_ok_def entries_ok_delete Let_def
        indexes_drop ownerBy_Some)
qed (simp add: removeEntry_def s)

lemma staleness_ok:
  "index_ok s \<Longrightarrow> index_ok (markValidated d v s)" "index_ok s \<Longrightarrow> index_ok (checkStaleness d w s)"
  by (simp_all add: index_ok_def markValidated_def checkStaleness_def)

lemma applyIndexOp_ok: "index_ok s \<Longrightarrow> index_ok (applyIndexOp x s)"
  by (cases x) (simp_all add: addEntry_ok removeEntry_ok staleness_ok)

lemma history_ok: "index_ok (fold applyIndexOp xs emptyIndex)"
proof -
  have "index_ok s \<Longrightarrow> index_ok (fold applyIndexOp xs s)" for s
    by (induction xs arbitrary: s) (simp_all add: applyIndexOp_ok)
  moreover have "index_ok emptyIndex"
    using indexes_empty
    by (simp add: index_ok_def emptyIndex_def entries_ok_def ownerBy_def [abs_def])
  ultimately show ?thesis by blast
qed

lemma map_filter_alt: "List.map_filter f xs = map (the \<circ> f) (filter (\<lambda>x. f x \<noteq> None) xs)"
  by (induction xs) (auto simp: List.map_filter_simps split: option.splits)

text \<open>The entries behind an index are those that \<open>owner\<close> places there, each once.\<close>

lemma mset_entriesOf:
  assumes "entries_ok (ixEntries s)" "distinct ids"
    and "\<And>i e. map_of (ixEntries s) i = Some e \<Longrightarrow> i \<in> set ids \<longleftrightarrow> P e"
  shows "mset (entriesOf s ids) = mset (filter P (map snd (ixEntries s)))"
proof -
  let ?es = "ixEntries s"
  have d: "distinct (map fst ?es)" and key: "\<And>i e. map_of ?es i = Some e \<Longrightarrow> ieId e = i"
    using assms(1) entries_ok_id by (auto simp: entries_ok_def)
  have "inj_on (the \<circ> map_of ?es) (set (filter (\<lambda>i. map_of ?es i \<noteq> None) ids))"
  proof (rule inj_onI)
    fix i j
    assume "i \<in> set (filter (\<lambda>i. map_of ?es i \<noteq> None) ids)"
      "j \<in> set (filter (\<lambda>i. map_of ?es i \<noteq> None) ids)"
      "(the \<circ> map_of ?es) i = (the \<circ> map_of ?es) j"
    then obtain e where "map_of ?es i = Some e" "map_of ?es j = Some e" by auto
    then show "i = j" using key by blast
  qed
  then have "distinct (entriesOf s ids)"
    unfolding entriesOf_def map_filter_alt distinct_map using assms(2) by simp
  moreover have "map ieId (map snd ?es) = map fst ?es"
    using assms(1) by (auto simp: entries_ok_def)
  then have "distinct (map ieId (map snd ?es))" using d by (rule ssubst)
  then have "distinct (filter P (map snd ?es))" by (metis distinct_filter distinct_map)
  moreover have "set (entriesOf s ids) = set (filter P (map snd ?es))"
  proof (rule set_eqI)
    fix e
    have "e \<in> set (entriesOf s ids) \<longleftrightarrow> (\<exists>i. i \<in> set ids \<and> map_of ?es i = Some e)"
      by (force simp: entriesOf_def map_filter_alt)
    also have "\<dots> \<longleftrightarrow> (\<exists>i. map_of ?es i = Some e) \<and> P e"
      using assms(3) by blast
    also have "\<dots> \<longleftrightarrow> e \<in> set (filter P (map snd ?es))"
      using d by (force simp: map_of_eq_Some_iff)
    finally show "e \<in> set (entriesOf s ids) \<longleftrightarrow> e \<in> set (filter P (map snd ?es))" .
  qed
  ultimately show ?thesis using set_eq_iff_mset_eq_distinct by blast
qed

lemma mset_bucket:
  assumes "entries_ok (ixEntries s)" "indexes m (ownerBy f (ixEntries s))"
  shows "mset (entriesOf s (bucketOf ns k m)) =
    mset (filter (\<lambda>e. ieNamespace e = ns \<and> f e = k) (map snd (ixEntries s)))"
proof (rule mset_entriesOf [OF assms(1)])
  show "distinct (bucketOf ns k m)" using assms(2) by (simp add: indexes_def bucketOf_distinct)
  fix i e
  assume "map_of (ixEntries s) i = Some e"
  with assms(2) show "i \<in> set (bucketOf ns k m) \<longleftrightarrow> ieNamespace e = ns \<and> f e = k"
    by (simp add: indexes_def ownerBy_Some)
qed

text \<open>All the ids of a namespace, bucket after bucket, are distinct: an id is in one bucket only.\<close>

lemma inner_bucket:
  "buckets_ok m \<Longrightarrow> (k, ids) \<in> set (innerOf ns m) \<Longrightarrow> bucketOf ns k m = ids"
  using innerOf_ok(1) [of m ns] by (simp add: bucketOf_inner)

lemma distinct_namespace:
  assumes "indexes m owner"
  shows "distinct (concat (map snd (innerOf ns m)))"
proof -
  have ok: "buckets_ok m" and own: "\<And>k i. i \<in> set (bucketOf ns k m) \<Longrightarrow> owner i = Some (ns, k)"
    using assms by (auto simp: indexes_def)
  have "distinct (concat (map snd l))"
    if "set l \<subseteq> set (innerOf ns m)" "distinct (map fst l)" for l
    using that
  proof (induction l)
    case (Cons p l)
    obtain k ids where p: "p = (k, ids)" by (cases p)
    have "set ids \<inter> set (concat (map snd l)) = {}"
    proof (rule ccontr)
      assume "set ids \<inter> set (concat (map snd l)) \<noteq> {}"
      then obtain i k' ids' where i: "i \<in> set ids" "(k', ids') \<in> set l" "i \<in> set ids'" by auto
      then have "owner i = Some (ns, k)" "owner i = Some (ns, k')"
        using own [of i k] own [of i k'] inner_bucket [OF ok, of k ids ns] inner_bucket [OF ok, of k' ids' ns]
          Cons.prems(1) p by auto
      then show False using Cons.prems(2) i(2) p by force
    qed
    moreover have "distinct ids" using innerOf_ok(2) [OF ok] Cons.prems(1) p by auto
    ultimately show ?case using Cons p by auto
  qed simp
  then show ?thesis using innerOf_ok(1) [OF ok] by blast
qed

lemma mset_namespace:
  assumes "index_ok s"
  shows "mset (queryNamespace ns s) = mset (filter (\<lambda>e. ieNamespace e = ns) (map snd (ixEntries s)))"
proof -
  have ix: "indexes (byDoc s) (ownerBy ieDocId (ixEntries s))" and es: "entries_ok (ixEntries s)"
    using assms by (auto simp: index_ok_def)
  then have ok: "buckets_ok (byDoc s)" by (simp add: indexes_def)
  have c: "concat (map (\<lambda>(k, ids). entriesOf s ids) l) = entriesOf s (concat (map snd l))" for l
    by (induction l) (auto simp: entriesOf_def map_filter_alt)
  have "i \<in> set (concat (map snd (innerOf ns (byDoc s)))) \<longleftrightarrow> ieNamespace e = ns"
    if "map_of (ixEntries s) i = Some e" for i e
  proof -
    have "i \<in> set (concat (map snd (innerOf ns (byDoc s)))) \<longleftrightarrow> (\<exists>k. i \<in> set (bucketOf ns k (byDoc s)))"
      using innerOf_ok(1) [OF ok]
      by (force simp: bucketOf_inner map_of_eq_Some_iff split: option.splits dest: map_of_SomeD)
    also have "\<dots> \<longleftrightarrow> ieNamespace e = ns"
      using ix ownerBy_Some [OF that, of ieDocId] by (auto simp: indexes_def)
    finally show ?thesis .
  qed
  then show ?thesis
    unfolding queryNamespace_def c
    by (rule mset_entriesOf [OF es distinct_namespace [OF ix]])
qed

lemma hasEntries_bucket:
  assumes "buckets_ok (byDoc s)"
  shows "hasEntriesForDoc d s \<longleftrightarrow> (\<exists>ns. bucketOf ns d (byDoc s) \<noteq> [])"
proof
  assume "hasEntriesForDoc d s"
  then obtain ns inner ids where "(ns, inner) \<in> set (byDoc s)" "map_of inner d = Some ids" "ids \<noteq> []"
    by (auto simp: hasEntriesForDoc_def list_ex_iff split: option.splits)
  then have "bucketOf ns d (byDoc s) = ids"
    using assms by (simp add: bucketOf_def buckets_ok_def)
  with \<open>ids \<noteq> []\<close> show "\<exists>ns. bucketOf ns d (byDoc s) \<noteq> []" by blast
next
  assume "\<exists>ns. bucketOf ns d (byDoc s) \<noteq> []"
  then show "hasEntriesForDoc d s"
    by (force simp: hasEntriesForDoc_def list_ex_iff bucketOf_def split: option.splits dest: map_of_SomeD)
qed

lemma hasEntries_iff:
  assumes "index_ok s"
  shows "hasEntriesForDoc d s \<longleftrightarrow> d \<in> ieDocId ` snd ` set (ixEntries s)"
proof -
  have ix: "indexes (byDoc s) (ownerBy ieDocId (ixEntries s))" and es: "entries_ok (ixEntries s)"
    using assms by (auto simp: index_ok_def)
  have "hasEntriesForDoc d s \<longleftrightarrow> (\<exists>ns i. i \<in> set (bucketOf ns d (byDoc s)))"
    using ix by (simp add: hasEntries_bucket indexes_def neq_Nil_conv) (metis list.set_intros(1) list.set_cases)
  also have "\<dots> \<longleftrightarrow> (\<exists>i e. map_of (ixEntries s) i = Some e \<and> ieDocId e = d)"
    using ix by (auto simp: indexes_def ownerBy_def)
  also have "\<dots> \<longleftrightarrow> d \<in> ieDocId ` snd ` set (ixEntries s)"
    using es by (force simp: entries_ok_def map_of_eq_Some_iff)
  finally show ?thesis .
qed

text \<open>C31: after any sequence of additions, removals, validations and staleness checks, the
  queries by value, by document and by namespace return exactly the entries of the store that
  match, each once, and a document is known to have entries exactly when it has one.\<close>

theorem index_queries_agree:
  fixes xs :: "('a, 'm) index_op list"
  defines "s \<equiv> fold applyIndexOp xs emptyIndex"
  shows "mset (getByValue ns v s) = mset (filter (\<lambda>e. ieNamespace e = ns \<and> ieValue e = v) (map snd (ixEntries s)))
     \<and> mset (getByDoc ns d s) = mset (filter (\<lambda>e. ieNamespace e = ns \<and> ieDocId e = d) (map snd (ixEntries s)))
     \<and> mset (queryNamespace ns s) = mset (filter (\<lambda>e. ieNamespace e = ns) (map snd (ixEntries s)))
     \<and> (hasEntriesForDoc d s \<longleftrightarrow> d \<in> ieDocId ` snd ` set (ixEntries s))"
proof -
  have "index_ok s" unfolding s_def by (rule history_ok)
  then show ?thesis
    unfolding getByValue_def getByDoc_def
    by (intro conjI mset_namespace mset_bucket hasEntries_iff) (simp_all add: index_ok_def)
qed

end
