(* ===== verification/PluginRegistries.thy ===== *)
theory PluginRegistries
  imports Prelude
begin

text \<open>
  The registries of the plugin runtime (\<open>plugin-runtime/src/PluginActivation.ts\<close>,
  \<open>PluginRegistries.ts\<close>, and the views of \<open>workspace/src/ViewRegistryImpl.ts\<close>).  A registry is a
  \<open>Map\<close> from keys to items stamped with the plugin that registered them; what belongs to a
  disabled plugin is filtered when it is read.  The activation, one object the registries share,
  is an argument of their operations (\<open>None\<close> before \<open>attachActivation\<close>).  The parts of an item
  that no registry reads are opaque.
\<close>

section \<open>Activation\<close>

record activation =
  disabled :: "jsstr list"
  actListeners :: "nat list"
  currentPluginId :: "jsstr option"

definition newActivation :: activation where
  "newActivation = \<lparr>disabled = [], actListeners = [], currentPluginId = None\<rparr>"

definition isEnabled :: "activation \<Rightarrow> jsstr option \<Rightarrow> bool" where
  "isEnabled a p = (case p of None \<Rightarrow> True | Some i \<Rightarrow> i \<notin> set (disabled a))"

text \<open>The new state and the listeners that are called.\<close>

definition setDisabled :: "jsstr list \<Rightarrow> activation \<Rightarrow> activation \<times> nat list" where
  "setDisabled ids a =
     (let next = setOf ids
      in if length next = length (disabled a) \<and> list_all (\<lambda>i. i \<in> set (disabled a)) next then (a, [])
         else (a\<lparr>disabled := next\<rparr>, actListeners a))"

definition onActivationChange :: "nat \<Rightarrow> activation \<Rightarrow> activation" where
  "onActivationChange cb a = a\<lparr>actListeners := setAdd cb (actListeners a)\<rparr>"

definition offActivationChange :: "nat \<Rightarrow> activation \<Rightarrow> activation" where
  "offActivationChange cb a = a\<lparr>actListeners := removeAll cb (actListeners a)\<rparr>"

section \<open>Owned items\<close>

record 'v owned =
  ownItem :: 'v
  ownPlugin :: "jsstr option"

type_synonym 'v registry = "(jsstr \<times> 'v owned) list"

definition ownerOf :: "activation option \<Rightarrow> jsstr option" where
  "ownerOf act = (case act of None \<Rightarrow> None | Some a \<Rightarrow> currentPluginId a)"

definition enabledFor :: "activation option \<Rightarrow> jsstr option \<Rightarrow> bool" where
  "enabledFor act p = (case act of None \<Rightarrow> True | Some a \<Rightarrow> isEnabled a p)"

definition own :: "activation option \<Rightarrow> 'v \<Rightarrow> 'v owned" where
  "own act v = \<lparr>ownItem = v, ownPlugin = ownerOf act\<rparr>"

text \<open>The items of the enabled plugins, in order.\<close>

definition live :: "activation option \<Rightarrow> 'v owned list \<Rightarrow> 'v list" where
  "live act es = map ownItem (filter (\<lambda>e. enabledFor act (ownPlugin e)) es)"

section \<open>Triggers\<close>

record 'x trigger =
  trigId :: jsstr
  character :: jsstr
  trigRest :: 'x

definition allTriggers :: "activation option \<Rightarrow> 'x trigger registry \<Rightarrow> 'x trigger list" where
  "allTriggers act m = live act (map snd m)"

definition findTriggerConflict :: "activation option \<Rightarrow> jsstr \<Rightarrow> 'x trigger registry \<Rightarrow> 'x trigger option" where
  "findTriggerConflict act c m = List.find (\<lambda>t. character t = c) (allTriggers act m)"

text \<open>The registration goes through; a conflict only gives a warning, the second component.\<close>

definition registerTrigger ::
  "activation option \<Rightarrow> 'x trigger \<Rightarrow> 'x trigger registry \<Rightarrow> 'x trigger registry \<times> bool" where
  "registerTrigger act t m =
     (AList.update (trigId t) (own act t) m,
      case findTriggerConflict act (character t) m of
        None \<Rightarrow> False | Some c \<Rightarrow> trigId c \<noteq> trigId t)"

definition unregisterTrigger :: "jsstr \<Rightarrow> 'x trigger registry \<Rightarrow> 'x trigger registry" where
  "unregisterTrigger i m = AList.delete i m"

section \<open>Commands\<close>

datatype hotkey_modifier = Mod | Ctrl | Meta | Shift | Alt

record hotkey =
  modifiers :: "hotkey_modifier list"
  hkKey :: jsstr

text \<open>The context is the view of the editor, \<open>None\<close> when no editor has the focus; running a
  command acts on the state \<open>'s\<close> of the application.\<close>

record ('w, 's) command =
  cmdId :: jsstr
  cmdHotkeys :: "hotkey list option"
  cmdEditor :: bool
  isAvailable :: "('w option \<Rightarrow> 's \<Rightarrow> bool) option"
  cmdRun :: "'w option \<Rightarrow> 's \<Rightarrow> 's"

definition registerCommand ::
  "activation option \<Rightarrow> ('w, 's) command \<Rightarrow> ('w, 's) command registry \<Rightarrow> ('w, 's) command registry" where
  "registerCommand act c m = AList.update (cmdId c) (own act c) m"

definition unregisterCommand :: "jsstr \<Rightarrow> ('w, 's) command registry \<Rightarrow> ('w, 's) command registry" where
  "unregisterCommand i m = AList.delete i m"

text \<open>\<open>None\<close> for the warning about an unknown command.\<close>

definition executeCommand ::
  "activation option \<Rightarrow> ('w, 's) command registry \<Rightarrow> jsstr \<Rightarrow> 'w option \<Rightarrow> 's \<Rightarrow> 's option" where
  "executeCommand act m i ctx s =
     (case map_of m i of None \<Rightarrow> None
      | Some e \<Rightarrow> if enabledFor act (ownPlugin e) then Some (cmdRun (ownItem e) ctx s) else None)"

definition allCommands :: "activation option \<Rightarrow> ('w, 's) command registry \<Rightarrow> ('w, 's) command list" where
  "allCommands act m = live act (map snd m)"

definition getRegistered :: "('w, 's) command registry \<Rightarrow> jsstr \<Rightarrow> ('w, 's) command option" where
  "getRegistered m i = map_option ownItem (map_of m i)"

section \<open>File types\<close>

record 'x file_type =
  extension :: jsstr
  ftRest :: 'x

definition registerFileType ::
  "activation option \<Rightarrow> 'x file_type \<Rightarrow> 'x file_type registry \<Rightarrow> 'x file_type registry" where
  "registerFileType act f m = AList.update (extension f) (own act f) m"

definition unregisterFileType :: "jsstr \<Rightarrow> 'x file_type registry \<Rightarrow> 'x file_type registry" where
  "unregisterFileType e m = AList.delete e m"

definition resolveType :: "activation option \<Rightarrow> 'x file_type registry \<Rightarrow> jsstr \<Rightarrow> 'x file_type option" where
  "resolveType act m ext =
     (case map_of m ext of None \<Rightarrow> None
      | Some e \<Rightarrow> if enabledFor act (ownPlugin e) then Some (ownItem e) else None)"

definition resolveRegistered :: "'x file_type registry \<Rightarrow> jsstr \<Rightarrow> 'x file_type option" where
  "resolveRegistered m ext = map_option ownItem (map_of m ext)"

definition ownerOfType :: "'x file_type registry \<Rightarrow> jsstr \<Rightarrow> jsstr option" where
  "ownerOfType m ext = (case map_of m ext of None \<Rightarrow> None | Some e \<Rightarrow> ownPlugin e)"

text \<open>\<open>le\<close> is \<open>localeCompare\<close>.\<close>

definition allFileTypes ::
  "(jsstr \<Rightarrow> jsstr \<Rightarrow> bool) \<Rightarrow> activation option \<Rightarrow> 'x file_type registry \<Rightarrow> 'x file_type list" where
  "allFileTypes le act m = sortBy (\<lambda>a b. le (extension a) (extension b)) (live act (map snd m))"

section \<open>Slash items, toolbar commands, agents\<close>

text \<open>\<open>'i\<close> is the text to insert or the function that gives it.\<close>

record 'i slash_item =
  slId :: jsstr
  slLabel :: jsstr
  slDescription :: "jsstr option"
  slIcon :: "jsstr option"
  slCategory :: "jsstr option"
  slInsert :: 'i

definition registerSlash ::
  "activation option \<Rightarrow> 'i slash_item \<Rightarrow> 'i slash_item registry \<Rightarrow> 'i slash_item registry" where
  "registerSlash act x m = AList.update (slId x) (own act x) m"

definition unregisterSlash :: "jsstr \<Rightarrow> 'i slash_item registry \<Rightarrow> 'i slash_item registry" where
  "unregisterSlash i m = AList.delete i m"

definition allSlash :: "activation option \<Rightarrow> 'i slash_item registry \<Rightarrow> 'i slash_item list" where
  "allSlash act m = live act (map snd m)"

record 'x toolbar_command =
  tbId :: jsstr
  tbGroup :: "jsstr option"
  tbRest :: 'x

definition registerToolbar ::
  "activation option \<Rightarrow> 'x toolbar_command \<Rightarrow> 'x toolbar_command registry \<Rightarrow> 'x toolbar_command registry" where
  "registerToolbar act x m = AList.update (tbId x) (own act x) m"

definition unregisterToolbar :: "jsstr \<Rightarrow> 'x toolbar_command registry \<Rightarrow> 'x toolbar_command registry" where
  "unregisterToolbar i m = AList.delete i m"

definition allToolbar :: "activation option \<Rightarrow> 'x toolbar_command registry \<Rightarrow> 'x toolbar_command list" where
  "allToolbar act m = live act (map snd m)"

definition toolbarByGroup ::
  "activation option \<Rightarrow> jsstr \<Rightarrow> 'x toolbar_command registry \<Rightarrow> 'x toolbar_command list" where
  "toolbarByGroup act g m = filter (\<lambda>c. tbGroup c = Some g) (allToolbar act m)"

record 'x agent_spec =
  agId :: jsstr
  agRest :: 'x

definition registerAgent ::
  "activation option \<Rightarrow> 'x agent_spec \<Rightarrow> 'x agent_spec registry \<Rightarrow> 'x agent_spec registry" where
  "registerAgent act x m = AList.update (agId x) (own act x) m"

definition allAgents :: "activation option \<Rightarrow> 'x agent_spec registry \<Rightarrow> 'x agent_spec list" where
  "allAgents act m = live act (map snd m)"

section \<open>Blocks\<close>

text \<open>The fields of a slash item a block declares; one trigger or a list of them is a list.\<close>

record 'i block_spec =
  blType :: jsstr
  detect :: "(jsstr \<Rightarrow> bool) option"
  blTrigger :: "'i slash_item list option"

record 'i block_registry =
  specEntries :: "'i block_spec registry"
  tagPlugin :: "jsstr option"

definition registerBlock ::
  "activation option \<Rightarrow> 'i block_spec \<Rightarrow> 'i block_registry \<times> 'i slash_item registry option
     \<Rightarrow> 'i block_registry \<times> 'i slash_item registry option" where
  "registerBlock act b st =
     (case st of (r, slash) \<Rightarrow>
       (let owner = (case tagPlugin r of Some p \<Rightarrow> Some p | None \<Rightarrow> ownerOf act);
            r' = r\<lparr>specEntries := AList.update (blType b) \<lparr>ownItem = b, ownPlugin = owner\<rparr> (specEntries r)\<rparr>
        in (r', case (blTrigger b, slash) of
                  (Some ts, Some m) \<Rightarrow> Some (fold (registerSlash act) ts m)
                | _ \<Rightarrow> slash)))"

definition unregisterBlock ::
  "jsstr \<Rightarrow> 'i block_registry \<times> 'i slash_item registry option
     \<Rightarrow> 'i block_registry \<times> 'i slash_item registry option" where
  "unregisterBlock ty st =
     (case st of (r, slash) \<Rightarrow>
       (r\<lparr>specEntries := AList.delete ty (specEntries r)\<rparr>,
        case (Option.bind (map_of (specEntries r) ty) (blTrigger \<circ> ownItem), slash) of
          (Some ts, Some m) \<Rightarrow> Some (fold (\<lambda>t. unregisterSlash (slId t)) ts m)
        | _ \<Rightarrow> slash))"

text \<open>\<open>ids.has(pluginId ?? '')\<close>; \<open>None\<close> is no filter.\<close>

definition inScope :: "jsstr list option \<Rightarrow> jsstr option \<Rightarrow> bool" where
  "inScope ids p = (case ids of None \<Rightarrow> True
     | Some xs \<Rightarrow> (case p of Some i \<Rightarrow> i | None \<Rightarrow> []) \<in> set xs)"

fun firstDetected ::
  "activation option \<Rightarrow> jsstr \<Rightarrow> jsstr list option \<Rightarrow> 'i block_spec registry \<Rightarrow> (jsstr \<times> 'i block_spec) option" where
  "firstDetected act t ids [] = None"
| "firstDetected act t ids ((ty, e) # es) =
     (case detect (ownItem e) of
        None \<Rightarrow> firstDetected act t ids es
      | Some f \<Rightarrow>
          if \<not> enabledFor act (ownPlugin e) then firstDetected act t ids es
          else if \<not> inScope ids (ownPlugin e) then firstDetected act t ids es
          else if f t then Some (ty, ownItem e) else firstDetected act t ids es)"

definition detectActive ::
  "activation option \<Rightarrow> 'i block_registry \<Rightarrow> jsstr \<Rightarrow> jsstr list option \<Rightarrow> (jsstr \<times> 'i block_spec) option" where
  "detectActive act r t ids = firstDetected act t ids (specEntries r)"

definition detectBlock :: "activation option \<Rightarrow> 'i block_registry \<Rightarrow> jsstr \<Rightarrow> (jsstr \<times> 'i block_spec) option" where
  "detectBlock act r t = detectActive act r t None"

definition allBlocks :: "activation option \<Rightarrow> 'i block_registry \<Rightarrow> 'i block_spec list" where
  "allBlocks act r = live act (map snd (specEntries r))"

definition activeBlocks :: "activation option \<Rightarrow> jsstr list option \<Rightarrow> 'i block_registry \<Rightarrow> 'i block_spec list" where
  "activeBlocks act ids r =
     (case ids of None \<Rightarrow> allBlocks act r
      | Some _ \<Rightarrow> map ownItem (filter (\<lambda>e. enabledFor act (ownPlugin e) \<and> inScope ids (ownPlugin e))
          (map snd (specEntries r))))"

section \<open>The contract of a registry\<close>

text \<open>What the registries of the source have in common: an item is stamped with the plugin being
  loaded, another registration or a removal under its key replaces it, and the list shows what
  belongs to enabled plugins.\<close>

locale owned_registry =
  fixes key :: "'v \<Rightarrow> jsstr"
    and reg :: "activation option \<Rightarrow> 'v \<Rightarrow> 'v registry \<Rightarrow> 'v registry"
    and unreg :: "jsstr \<Rightarrow> 'v registry \<Rightarrow> 'v registry"
    and all :: "activation option \<Rightarrow> 'v registry \<Rightarrow> 'v list"
  assumes reg_lookup: "map_of (reg act v m) k = (if k = key v then Some (own act v) else map_of m k)"
    and reg_distinct: "distinct (map fst m) \<Longrightarrow> distinct (map fst (reg act v m))"
    and unreg_lookup: "map_of (unreg i m) k = (if k = i then None else map_of m k)"
    and unreg_distinct: "distinct (map fst m) \<Longrightarrow> distinct (map fst (unreg i m))"
    and all_listed: "distinct (map fst m) \<Longrightarrow> v \<in> set (all act m) \<longleftrightarrow>
      (\<exists>k e. map_of m k = Some e \<and> ownItem e = v \<and> enabledFor act (ownPlugin e))"

text \<open>The life of a registry: the loader switches to a plugin, items come and go, the set of
  disabled plugins is replaced.\<close>

datatype 'v reg_event = Switch "jsstr option" | Register 'v | Unregister jsstr | Disable "jsstr list"

fun regEvent ::
  "(activation option \<Rightarrow> 'v \<Rightarrow> 'v registry \<Rightarrow> 'v registry) \<Rightarrow> (jsstr \<Rightarrow> 'v registry \<Rightarrow> 'v registry)
     \<Rightarrow> 'v reg_event \<Rightarrow> activation \<times> 'v registry \<Rightarrow> activation \<times> 'v registry" where
  "regEvent reg unreg (Switch p) (a, m) = (a\<lparr>currentPluginId := p\<rparr>, m)"
| "regEvent reg unreg (Register v) (a, m) = (a, reg (Some a) v m)"
| "regEvent reg unreg (Unregister i) (a, m) = (a, unreg i m)"
| "regEvent reg unreg (Disable ids) (a, m) = (fst (setDisabled ids a), m)"

text \<open>The registration in force under a key, without a look at the disabled plugins: the last one,
  with the plugin that was being loaded then.\<close>

fun lastRegistered ::
  "('v \<Rightarrow> jsstr) \<Rightarrow> jsstr \<Rightarrow> 'v reg_event list \<Rightarrow> jsstr option \<Rightarrow> 'v owned option \<Rightarrow> 'v owned option" where
  "lastRegistered key k [] p cur = cur"
| "lastRegistered key k (Switch q # es) p cur = lastRegistered key k es q cur"
| "lastRegistered key k (Register v # es) p cur =
     lastRegistered key k es p (if key v = k then Some \<lparr>ownItem = v, ownPlugin = p\<rparr> else cur)"
| "lastRegistered key k (Unregister i # es) p cur =
     lastRegistered key k es p (if i = k then None else cur)"
| "lastRegistered key k (Disable ids # es) p cur = lastRegistered key k es p cur"

fun lastDisabled :: "'v reg_event list \<Rightarrow> jsstr list \<Rightarrow> jsstr list" where
  "lastDisabled [] d = d"
| "lastDisabled (Disable ids # es) d = lastDisabled es ids"
| "lastDisabled (_ # es) d = lastDisabled es d"

lemma setDisabled_sets: "set (disabled (fst (setDisabled ids a))) = set ids"
proof (cases "length (setOf ids) = length (disabled a) \<and> list_all (\<lambda>i. i \<in> set (disabled a)) (setOf ids)")
  case True
  then have "set (setOf ids) \<subseteq> set (disabled a)" by (auto simp: list_all_iff)
  moreover have "card (set (disabled a)) \<le> card (set (setOf ids))"
    using True card_length [of "disabled a"] by (simp add: distinct_card [OF distinct_setOf, of ids, unfolded set_setOf])
  ultimately have "set (setOf ids) = set (disabled a)" by (intro card_seteq) simp_all
  then show ?thesis using True by (simp add: setDisabled_def Let_def)
next
  case False
  then show ?thesis unfolding setDisabled_def Let_def if_not_P [OF False] by simp
qed

lemma setDisabled_current [simp]: "currentPluginId (fst (setDisabled ids a)) = currentPluginId a"
  by (simp add: setDisabled_def Let_def)

lemma lastDisabled_alt: "(\<forall>d. lastDisabled es d = d) \<or> (\<exists>c. \<forall>d. lastDisabled es d = c)"
proof (induction es)
  case (Cons x es)
  then show ?case by (cases x) simp_all
qed simp

lemma lastDisabled_cong: "set d = set d' \<Longrightarrow> set (lastDisabled es d) = set (lastDisabled es d')"
  using lastDisabled_alt [of es] by metis

context owned_registry begin

lemma history:
  assumes "distinct (map fst m)" "fold (regEvent reg unreg) es (a, m) = (a', m')"
  shows "distinct (map fst m') \<and> set (disabled a') = set (lastDisabled es (disabled a))
     \<and> (\<forall>k. map_of m' k = lastRegistered key k es (currentPluginId a) (map_of m k))"
  using assms
proof (induction es arbitrary: a m)
  case (Cons x es)
  obtain b n where b: "regEvent reg unreg x (a, m) = (b, n)" by fastforce
  have n: "distinct (map fst n)"
    using b Cons.prems(1) reg_distinct unreg_distinct by (cases x) auto
  have f: "fold (regEvent reg unreg) es (b, n) = (a', m')" using Cons.prems(2) b by simp
  have all: "distinct (map fst m') \<and> set (disabled a') = set (lastDisabled es (disabled b))
     \<and> (\<forall>k. map_of m' k = lastRegistered key k es (currentPluginId b) (map_of n k))"
    by (rule Cons.IH [OF n f])
  show ?case
  proof (cases x)
    case (Switch p)
    then show ?thesis using all b by auto
  next
    case (Register v)
    then show ?thesis using all b by (auto simp: reg_lookup own_def ownerOf_def eq_commute [of _ "key v"])
  next
    case (Unregister i)
    then show ?thesis using all b by (auto simp: unreg_lookup eq_commute [of _ i])
  next
    case (Disable ids)
    then have "b = fst (setDisabled ids a)" "n = m" using b by auto
    then show ?thesis using all lastDisabled_cong [of "disabled b" ids es] Disable
      by (simp add: setDisabled_sets)
  qed
qed simp

lemma lastRegistered_key:
  "lastRegistered key k es p cur = Some e \<Longrightarrow> (\<And>c. cur = Some c \<Longrightarrow> key (ownItem c) = k)
     \<Longrightarrow> key (ownItem e) = k"
  by (induction key k es p cur rule: lastRegistered.induct) (auto split: if_splits)

lemma listed:
  assumes "fold (regEvent reg unreg) es (newActivation, []) = (a, m)"
  shows "v \<in> set (all (Some a) m) \<longleftrightarrow> (\<exists>p. lastRegistered key (key v) es None None
       = Some \<lparr>ownItem = v, ownPlugin = p\<rparr>
     \<and> (case p of None \<Rightarrow> True | Some i \<Rightarrow> i \<notin> set (lastDisabled es [])))"
proof -
  have d: "distinct (map fst m)" and dis: "set (disabled a) = set (lastDisabled es [])"
    and look: "\<And>k. map_of m k = lastRegistered key k es None None"
    using history [OF _ assms] by (simp_all add: newActivation_def)
  have "v \<in> set (all (Some a) m) \<longleftrightarrow>
      (\<exists>e. lastRegistered key (key v) es None None = Some e \<and> ownItem e = v \<and> enabledFor (Some a) (ownPlugin e))"
    unfolding all_listed [OF d] look using lastRegistered_key [of _ es None None] by auto
  also have "\<dots> \<longleftrightarrow> (\<exists>p. lastRegistered key (key v) es None None = Some \<lparr>ownItem = v, ownPlugin = p\<rparr>
     \<and> (case p of None \<Rightarrow> True | Some i \<Rightarrow> i \<notin> set (lastDisabled es [])))"
  proof
    assume "\<exists>e. lastRegistered key (key v) es None None = Some e \<and> ownItem e = v \<and> enabledFor (Some a) (ownPlugin e)"
    then obtain e where "lastRegistered key (key v) es None None = Some e" "ownItem e = v"
      "enabledFor (Some a) (ownPlugin e)" by blast
    then show "\<exists>p. lastRegistered key (key v) es None None = Some \<lparr>ownItem = v, ownPlugin = p\<rparr>
     \<and> (case p of None \<Rightarrow> True | Some i \<Rightarrow> i \<notin> set (lastDisabled es []))"
      by (cases e) (auto simp: enabledFor_def isEnabled_def simp flip: dis split: option.splits)
  qed (auto simp: enabledFor_def isEnabled_def simp flip: dis split: option.splits)
  finally show ?thesis .
qed

end

lemma in_live:
  "distinct (map fst m) \<Longrightarrow> v \<in> set (live act (map snd m)) \<longleftrightarrow>
     (\<exists>k e. map_of m k = Some e \<and> ownItem e = v \<and> enabledFor act (ownPlugin e))"
  by (force simp: live_def map_of_eq_Some_iff)

lemmas registry_laws = update_conv' delete_conv' distinct_update distinct_delete in_live

interpretation commands: owned_registry cmdId registerCommand unregisterCommand allCommands
  by unfold_locales (simp_all add: registerCommand_def unregisterCommand_def allCommands_def registry_laws)

interpretation triggers: owned_registry trigId "\<lambda>act t m. fst (registerTrigger act t m)" unregisterTrigger allTriggers
  by unfold_locales (simp_all add: registerTrigger_def unregisterTrigger_def allTriggers_def registry_laws)

interpretation filetypes: owned_registry extension registerFileType unregisterFileType "allFileTypes le" for le
  by unfold_locales (simp_all add: registerFileType_def unregisterFileType_def allFileTypes_def registry_laws)

interpretation slash: owned_registry slId registerSlash unregisterSlash allSlash
  by unfold_locales (simp_all add: registerSlash_def unregisterSlash_def allSlash_def registry_laws)

interpretation toolbar: owned_registry tbId registerToolbar unregisterToolbar allToolbar
  by unfold_locales (simp_all add: registerToolbar_def unregisterToolbar_def allToolbar_def registry_laws)

text \<open>C33: after any sequence of registrations, removals, switches of the plugin being loaded and
  changes of the disabled plugins, the commands listed are exactly the registrations in force,
  each with the plugin that was loading when it came, whose plugin is not disabled now: disabling
  never loses a command and enabling brings it back.\<close>

theorem commands_follow_history:
  "v \<in> set (case fold (regEvent registerCommand unregisterCommand) es (newActivation, []) of
       (a, m) \<Rightarrow> allCommands (Some a) m)
   \<longleftrightarrow> (\<exists>p. lastRegistered cmdId (cmdId v) es None None = Some \<lparr>ownItem = v, ownPlugin = p\<rparr>
         \<and> (case p of None \<Rightarrow> True | Some i \<Rightarrow> i \<notin> set (lastDisabled es [])))"
proof (cases "fold (regEvent registerCommand unregisterCommand) es (newActivation, [])")
  case (Pair a m)
  show ?thesis unfolding Pair prod.case by (rule commands.listed [OF Pair])
qed

end
