(* ===== verification/PluginHost.thy ===== *)
theory PluginHost
  imports PluginRegistries
begin

text \<open>
  The rest of the plugin runtime: hooks and index contributors (\<open>PluginRegistries.ts\<close>), views
  (\<open>workspace/src/ViewRegistryImpl.ts\<close>), the object given to plugins (\<open>PluginAPIImpl\<close>) and its
  filtered form (\<open>PermissionFilteredAPI.ts\<close>), and the loader (\<open>PluginLoader.ts\<close>).  A plugin is
  what its \<open>onload\<close> registers, one call after the other, and whether it then fails.
\<close>

section \<open>Hooks\<close>

text \<open>What a hook on text does: return a text, a promise of one, a promise that is rejected, or
  throw.\<close>

datatype hook_out = Now jsstr | Later jsstr | Rejected | Thrown

type_synonym str_hook = "jsstr \<Rightarrow> hook_out"

text \<open>The hooks on documents act on the state \<open>'s\<close> of the application; \<open>'u\<close> are the hooks that
  the registry keeps and never runs, \<open>'d\<close> the arguments of a stabilised document.\<close>

record ('s, 'u, 'd) hook_registry =
  beforeParseHooks :: "str_hook owned list"
  afterParseHooks :: "'u owned list"
  beforeRenderHooks :: "'u owned list"
  afterRenderHooks :: "str_hook owned list"
  documentOpenHooks :: "(jsstr \<Rightarrow> 's \<Rightarrow> 's) owned list"
  documentSaveHooks :: "(jsstr \<Rightarrow> 's \<Rightarrow> 's) owned list"
  selectionChangeHooks :: "'u owned list"
  documentStabilizedHooks :: "('d \<Rightarrow> 's \<Rightarrow> 's) owned list"


definition beforeParse :: "activation option \<Rightarrow> str_hook \<Rightarrow> ('s, 'u, 'd) hook_registry \<Rightarrow> ('s, 'u, 'd) hook_registry" where
  "beforeParse act h r = r\<lparr>beforeParseHooks := beforeParseHooks r @ [own act h]\<rparr>"

definition afterParse :: "activation option \<Rightarrow> 'u \<Rightarrow> ('s, 'u, 'd) hook_registry \<Rightarrow> ('s, 'u, 'd) hook_registry" where
  "afterParse act h r = r\<lparr>afterParseHooks := afterParseHooks r @ [own act h]\<rparr>"

definition beforeRender :: "activation option \<Rightarrow> 'u \<Rightarrow> ('s, 'u, 'd) hook_registry \<Rightarrow> ('s, 'u, 'd) hook_registry" where
  "beforeRender act h r = r\<lparr>beforeRenderHooks := beforeRenderHooks r @ [own act h]\<rparr>"

definition afterRender :: "activation option \<Rightarrow> str_hook \<Rightarrow> ('s, 'u, 'd) hook_registry \<Rightarrow> ('s, 'u, 'd) hook_registry" where
  "afterRender act h r = r\<lparr>afterRenderHooks := afterRenderHooks r @ [own act h]\<rparr>"

definition onDocumentOpen :: "activation option \<Rightarrow> (jsstr \<Rightarrow> 's \<Rightarrow> 's) \<Rightarrow> ('s, 'u, 'd) hook_registry \<Rightarrow> ('s, 'u, 'd) hook_registry" where
  "onDocumentOpen act h r = r\<lparr>documentOpenHooks := documentOpenHooks r @ [own act h]\<rparr>"

definition onDocumentSave :: "activation option \<Rightarrow> (jsstr \<Rightarrow> 's \<Rightarrow> 's) \<Rightarrow> ('s, 'u, 'd) hook_registry \<Rightarrow> ('s, 'u, 'd) hook_registry" where
  "onDocumentSave act h r = r\<lparr>documentSaveHooks := documentSaveHooks r @ [own act h]\<rparr>"

definition onSelectionChange :: "activation option \<Rightarrow> 'u \<Rightarrow> ('s, 'u, 'd) hook_registry \<Rightarrow> ('s, 'u, 'd) hook_registry" where
  "onSelectionChange act h r = r\<lparr>selectionChangeHooks := selectionChangeHooks r @ [own act h]\<rparr>"

definition onDocumentStabilized :: "activation option \<Rightarrow> ('d \<Rightarrow> 's \<Rightarrow> 's) \<Rightarrow> ('s, 'u, 'd) hook_registry \<Rightarrow> ('s, 'u, 'd) hook_registry" where
  "onDocumentStabilized act h r = r\<lparr>documentStabilizedHooks := documentStabilizedHooks r @ [own act h]\<rparr>"

text \<open>Awaiting each hook; \<open>None\<close> when one fails.\<close>

fun awaitHooks :: "str_hook list \<Rightarrow> jsstr \<Rightarrow> jsstr option" where
  "awaitHooks [] s = Some s"
| "awaitHooks (h # hs) s =
     (case h s of Now t \<Rightarrow> awaitHooks hs t | Later t \<Rightarrow> awaitHooks hs t | _ \<Rightarrow> None)"

definition runBeforeParse :: "activation option \<Rightarrow> ('s, 'u, 'd) hook_registry \<Rightarrow> jsstr \<Rightarrow> jsstr option" where
  "runBeforeParse act r s = awaitHooks (live act (beforeParseHooks r)) s"

text \<open>Without waiting: only a text that is returned at once counts.\<close>

fun syncHooks :: "str_hook list \<Rightarrow> jsstr \<Rightarrow> jsstr option" where
  "syncHooks [] s = Some s"
| "syncHooks (h # hs) s =
     (case h s of Now t \<Rightarrow> syncHooks hs t | Thrown \<Rightarrow> None | _ \<Rightarrow> syncHooks hs s)"

definition runBeforeParseSync :: "activation option \<Rightarrow> ('s, 'u, 'd) hook_registry \<Rightarrow> jsstr \<Rightarrow> jsstr option" where
  "runBeforeParseSync act r s = syncHooks (live act (beforeParseHooks r)) s"

definition runAfterRender :: "activation option \<Rightarrow> ('s, 'u, 'd) hook_registry \<Rightarrow> jsstr \<Rightarrow> jsstr option" where
  "runAfterRender act r s = awaitHooks (live act (afterRenderHooks r)) s"

definition runDocumentOpen :: "activation option \<Rightarrow> ('s, 'u, 'd) hook_registry \<Rightarrow> jsstr \<Rightarrow> 's \<Rightarrow> 's" where
  "runDocumentOpen act r p s = fold (\<lambda>h. h p) (live act (documentOpenHooks r)) s"

definition runDocumentSave :: "activation option \<Rightarrow> ('s, 'u, 'd) hook_registry \<Rightarrow> jsstr \<Rightarrow> 's \<Rightarrow> 's" where
  "runDocumentSave act r c s = fold (\<lambda>h. h c) (live act (documentSaveHooks r)) s"

definition runDocumentStabilized :: "activation option \<Rightarrow> ('s, 'u, 'd) hook_registry \<Rightarrow> 'd \<Rightarrow> 's \<Rightarrow> 's" where
  "runDocumentStabilized act r d s = fold (\<lambda>h. h d) (live act (documentStabilizedHooks r)) s"

section \<open>Index contributors\<close>

text \<open>A factory makes a new contributor each time it is called, the argument counts the calls.\<close>

record 'c index_contributor =
  namespaceOf :: jsstr
  conRest :: 'c

type_synonym 'c factory = "nat \<Rightarrow> 'c index_contributor"

record 'c index_registry =
  conFactories :: "(jsstr \<times> 'c factory) list"
  conOwners :: "(jsstr \<times> jsstr option) list"
  conCurrent :: "(jsstr \<times> 'c index_contributor) list"
  conMade :: nat


definition registerFactory :: "activation option \<Rightarrow> 'c factory \<Rightarrow> 'c index_registry \<Rightarrow> 'c index_registry" where
  "registerFactory act f r =
     (let c = f (conMade r)
      in r\<lparr>conMade := Suc (conMade r),
           conFactories := AList.update (namespaceOf c) f (conFactories r),
           conOwners := AList.update (namespaceOf c) (ownerOf act) (conOwners r),
           conCurrent := AList.update (namespaceOf c) c (conCurrent r)\<rparr>)"

fun makeAll :: "nat \<Rightarrow> (jsstr \<times> 'c factory) list \<Rightarrow> (jsstr \<times> 'c index_contributor) list" where
  "makeAll n [] = []"
| "makeAll n ((ns, f) # fs) = (ns, f n) # makeAll (Suc n) fs"

definition rebuildContributors :: "'c index_registry \<Rightarrow> 'c index_registry" where
  "rebuildContributors r =
     r\<lparr>conCurrent := makeAll (conMade r) (conFactories r),
       conMade := conMade r + length (conFactories r)\<rparr>"


definition allRegisteredContributors :: "'c index_registry \<Rightarrow> 'c index_contributor list" where
  "allRegisteredContributors r = map snd (conCurrent r)"

definition getContributor :: "'c index_registry \<Rightarrow> jsstr \<Rightarrow> 'c index_contributor option" where
  "getContributor r ns = map_of (conCurrent r) ns"

section \<open>Views\<close>

datatype container = LeftPane | RightPane | CenterPane

datatype group_source = FromApp | FromPlugin

record view_group =
  vgId :: jsstr
  vgTitle :: jsstr
  vgIcon :: "jsstr option"
  vgContainer :: container
  vgRibbon :: bool
  vgSource :: "group_source option"

record 'x view_spec =
  vsId :: jsstr
  vsTitle :: jsstr
  vsIcon :: "jsstr option"
  vsContainer :: "container option"
  vsGroup :: "jsstr option"
  vsRibbon :: bool
  tabOf :: "jsstr option"
  belowOf :: "jsstr option"
  vsRest :: 'x

record 'x view_registry =
  vrSpecs :: "'x view_spec registry"
  vrGroups :: "view_group registry"
  vrCurrent :: "jsstr option"


definition registerView :: "'x view_spec \<Rightarrow> 'x view_registry \<Rightarrow> 'x view_registry" where
  "registerView v r = r\<lparr>vrSpecs := AList.update (vsId v) \<lparr>ownItem = v, ownPlugin = vrCurrent r\<rparr> (vrSpecs r)\<rparr>"

definition unregisterView :: "jsstr \<Rightarrow> 'x view_registry \<Rightarrow> 'x view_registry" where
  "unregisterView i r = r\<lparr>vrSpecs := AList.delete i (vrSpecs r)\<rparr>"


definition getView :: "activation option \<Rightarrow> 'x view_registry \<Rightarrow> jsstr \<Rightarrow> 'x view_spec option" where
  "getView act r i =
     (case map_of (vrSpecs r) i of None \<Rightarrow> None
      | Some e \<Rightarrow> if enabledFor act (ownPlugin e) then Some (ownItem e) else None)"

text \<open>An empty plugin id counts as the application.\<close>

definition registerGroup :: "view_group \<Rightarrow> 'x view_registry \<Rightarrow> 'x view_registry" where
  "registerGroup g r =
     (let src = (case vrCurrent r of None \<Rightarrow> FromApp | Some p \<Rightarrow> if p = [] then FromApp else FromPlugin)
      in r\<lparr>vrGroups := AList.update (vgId g)
             \<lparr>ownItem = g\<lparr>vgSource := Some src\<rparr>, ownPlugin = vrCurrent r\<rparr> (vrGroups r)\<rparr>)"

definition unregisterGroup :: "jsstr \<Rightarrow> 'x view_registry \<Rightarrow> 'x view_registry" where
  "unregisterGroup i r = r\<lparr>vrGroups := AList.delete i (vrGroups r)\<rparr>"


definition getGroup :: "activation option \<Rightarrow> 'x view_registry \<Rightarrow> jsstr \<Rightarrow> view_group option" where
  "getGroup act r i =
     (case map_of (vrGroups r) i of None \<Rightarrow> None
      | Some e \<Rightarrow> if enabledFor act (ownPlugin e) then Some (ownItem e) else None)"

definition setCurrentPlugin :: "jsstr option \<Rightarrow> 'x view_registry \<Rightarrow> 'x view_registry" where
  "setCurrentPlugin p r = r\<lparr>vrCurrent := p\<rparr>"

definition hiddenIds :: "activation option \<Rightarrow> 'x view_registry \<Rightarrow> jsstr list" where
  "hiddenIds act r =
     map fst (filter (\<lambda>(i, e). \<not> enabledFor act (ownPlugin e)) (vrSpecs r))
     @ map fst (filter (\<lambda>(i, e). \<not> enabledFor act (ownPlugin e)) (vrGroups r))"

definition cleanupPlugin :: "jsstr \<Rightarrow> 'x view_registry \<Rightarrow> 'x view_registry" where
  "cleanupPlugin p r =
     r\<lparr>vrGroups := filter (\<lambda>(i, e). ownPlugin e \<noteq> Some p) (vrGroups r),
       vrSpecs := filter (\<lambda>(i, e). ownPlugin e \<noteq> Some p) (vrSpecs r)\<rparr>"

section \<open>The object given to plugins\<close>

record ('w, 's, 'u, 'd, 'i, 'x) plugin_host =
  hActivation :: "activation option"
  hBlocks :: "'i block_registry"
  hHooks :: "('s, 'u, 'd) hook_registry"
  hCommands :: "('w, 's) command registry"
  hFiles :: "'x file_type registry"
  hViews :: "'x view_registry"
  hSlash :: "'i slash_item registry"
  hTriggers :: "'x trigger registry"
  hToolbar :: "'x toolbar_command registry"
  hIndex :: "'x index_registry"
  hAgents :: "'x agent_spec registry"



section \<open>Permissions\<close>

datatype permission = VaultRead | VaultWrite | Network | UiEditor | UiSettings | Agents

datatype api_part = PCommands | PHooks | PBlocks | PFiles | PVault | PViews | PWorkspace | PSlash
  | PTriggers | PEditor | PToolbar | PHotkeys | PAgents | PQuery | PSearch | PProperties | PIndexer

fun requiredPermission :: "api_part \<Rightarrow> permission" where
  "requiredPermission PVault = VaultRead"
| "requiredPermission PQuery = VaultRead"
| "requiredPermission PSearch = VaultRead"
| "requiredPermission PProperties = VaultRead"
| "requiredPermission PIndexer = VaultRead"
| "requiredPermission PAgents = Agents"
| "requiredPermission _ = UiEditor"

definition accessPart :: "permission list \<Rightarrow> api_part \<Rightarrow> permission + api_part" where
  "accessPart perms x =
     (if requiredPermission x \<in> set perms then Inr x else Inl (requiredPermission x))"

section \<open>Plugins\<close>

datatype ('w, 's, 'u, 'd, 'i, 'x) action =
    DoBlock "'i block_spec" | UndoBlock jsstr
  | DoBeforeParse str_hook | DoAfterParse 'u | DoBeforeRender 'u | DoAfterRender str_hook
  | DoDocumentOpen "jsstr \<Rightarrow> 's \<Rightarrow> 's" | DoDocumentSave "jsstr \<Rightarrow> 's \<Rightarrow> 's"
  | DoSelectionChange 'u | DoStabilized "'d \<Rightarrow> 's \<Rightarrow> 's"
  | DoCommand "('w, 's) command" | UndoCommand jsstr
  | DoFile "'x file_type" | UndoFile jsstr
  | DoView "'x view_spec" | UndoView jsstr | DoGroup view_group | UndoGroup jsstr
  | DoSlash "'i slash_item" | UndoSlash jsstr
  | DoTrigger "'x trigger" | UndoTrigger jsstr
  | DoToolbar "'x toolbar_command" | UndoToolbar jsstr
  | DoFactory "'x factory"
  | DoAgent "'x agent_spec"

definition changeBlocks ::
  "('i block_registry \<times> 'i slash_item registry option \<Rightarrow> 'i block_registry \<times> 'i slash_item registry option)
     \<Rightarrow> ('w, 's, 'u, 'd, 'i, 'x) plugin_host \<Rightarrow> ('w, 's, 'u, 'd, 'i, 'x) plugin_host" where
  "changeBlocks f h =
     (case f (hBlocks h, Some (hSlash h)) of
        (b, Some m) \<Rightarrow> h\<lparr>hBlocks := b, hSlash := m\<rparr>
      | (b, None) \<Rightarrow> h\<lparr>hBlocks := b\<rparr>)"

fun doAction :: "('w, 's, 'u, 'd, 'i, 'x) action \<Rightarrow> ('w, 's, 'u, 'd, 'i, 'x) plugin_host \<Rightarrow> ('w, 's, 'u, 'd, 'i, 'x) plugin_host" where
  "doAction (DoBlock b) h = changeBlocks (registerBlock (hActivation h) b) h"
| "doAction (UndoBlock i) h = changeBlocks (unregisterBlock i) h"
| "doAction (DoBeforeParse f) h = h\<lparr>hHooks := beforeParse (hActivation h) f (hHooks h)\<rparr>"
| "doAction (DoAfterParse f) h = h\<lparr>hHooks := afterParse (hActivation h) f (hHooks h)\<rparr>"
| "doAction (DoBeforeRender f) h = h\<lparr>hHooks := beforeRender (hActivation h) f (hHooks h)\<rparr>"
| "doAction (DoAfterRender f) h = h\<lparr>hHooks := afterRender (hActivation h) f (hHooks h)\<rparr>"
| "doAction (DoDocumentOpen f) h = h\<lparr>hHooks := onDocumentOpen (hActivation h) f (hHooks h)\<rparr>"
| "doAction (DoDocumentSave f) h = h\<lparr>hHooks := onDocumentSave (hActivation h) f (hHooks h)\<rparr>"
| "doAction (DoSelectionChange f) h = h\<lparr>hHooks := onSelectionChange (hActivation h) f (hHooks h)\<rparr>"
| "doAction (DoStabilized f) h = h\<lparr>hHooks := onDocumentStabilized (hActivation h) f (hHooks h)\<rparr>"
| "doAction (DoCommand c) h = h\<lparr>hCommands := registerCommand (hActivation h) c (hCommands h)\<rparr>"
| "doAction (UndoCommand i) h = h\<lparr>hCommands := unregisterCommand i (hCommands h)\<rparr>"
| "doAction (DoFile f) h = h\<lparr>hFiles := registerFileType (hActivation h) f (hFiles h)\<rparr>"
| "doAction (UndoFile i) h = h\<lparr>hFiles := unregisterFileType i (hFiles h)\<rparr>"
| "doAction (DoView v) h = h\<lparr>hViews := registerView v (hViews h)\<rparr>"
| "doAction (UndoView i) h = h\<lparr>hViews := unregisterView i (hViews h)\<rparr>"
| "doAction (DoGroup g) h = h\<lparr>hViews := registerGroup g (hViews h)\<rparr>"
| "doAction (UndoGroup i) h = h\<lparr>hViews := unregisterGroup i (hViews h)\<rparr>"
| "doAction (DoSlash x) h = h\<lparr>hSlash := registerSlash (hActivation h) x (hSlash h)\<rparr>"
| "doAction (UndoSlash i) h = h\<lparr>hSlash := unregisterSlash i (hSlash h)\<rparr>"
| "doAction (DoTrigger x) h = h\<lparr>hTriggers := fst (registerTrigger (hActivation h) x (hTriggers h))\<rparr>"
| "doAction (UndoTrigger i) h = h\<lparr>hTriggers := unregisterTrigger i (hTriggers h)\<rparr>"
| "doAction (DoToolbar x) h = h\<lparr>hToolbar := registerToolbar (hActivation h) x (hToolbar h)\<rparr>"
| "doAction (UndoToolbar i) h = h\<lparr>hToolbar := unregisterToolbar i (hToolbar h)\<rparr>"
| "doAction (DoFactory f) h = h\<lparr>hIndex := registerFactory (hActivation h) f (hIndex h)\<rparr>"
| "doAction (DoAgent x) h = h\<lparr>hAgents := registerAgent (hActivation h) x (hAgents h)\<rparr>"

text \<open>The part of the API an action goes through; the filtered API has no \<open>index\<close>.\<close>

fun partOf :: "('w, 's, 'u, 'd, 'i, 'x) action \<Rightarrow> api_part option" where
  "partOf (DoBlock _) = Some PBlocks"
| "partOf (UndoBlock _) = Some PBlocks"
| "partOf (DoCommand _) = Some PCommands"
| "partOf (UndoCommand _) = Some PCommands"
| "partOf (DoFile _) = Some PFiles"
| "partOf (UndoFile _) = Some PFiles"
| "partOf (DoView _) = Some PViews"
| "partOf (UndoView _) = Some PViews"
| "partOf (DoGroup _) = Some PViews"
| "partOf (UndoGroup _) = Some PViews"
| "partOf (DoSlash _) = Some PSlash"
| "partOf (UndoSlash _) = Some PSlash"
| "partOf (DoTrigger _) = Some PTriggers"
| "partOf (UndoTrigger _) = Some PTriggers"
| "partOf (DoToolbar _) = Some PToolbar"
| "partOf (UndoToolbar _) = Some PToolbar"
| "partOf (DoFactory _) = None"
| "partOf (DoAgent _) = Some PAgents"
| "partOf _ = Some PHooks"

record ('w, 's, 'u, 'd, 'i, 'x) plugin =
  plId :: jsstr
  plPermissions :: "permission list option"
  plOnload :: "('w, 's, 'u, 'd, 'i, 'x) action list"
  plLoadFails :: bool
  plOnunload :: "('w, 's, 'u, 'd, 'i, 'x) action list"
  plUnloadFails :: bool

section \<open>The loader\<close>

text \<open>A loaded plugin: one of the application, or one behind a sandbox.\<close>

datatype ('w, 's, 'u, 'd, 'i, 'x) entry =
    Internal "('w, 's, 'u, 'd, 'i, 'x) plugin"
  | Sandboxed "('w, 's, 'u, 'd, 'i, 'x) plugin"

type_synonym ('w, 's, 'u, 'd, 'i, 'x) loader = "(jsstr \<times> ('w, 's, 'u, 'd, 'i, 'x) entry) list"

datatype load_error = OnloadFailed | OnunloadFailed | NoExport | Denied permission | NoSuchPart

text \<open>What a plugin does behind the filtered API: the first access that is refused ends it.\<close>

fun runFiltered ::
  "permission list \<Rightarrow> ('w, 's, 'u, 'd, 'i, 'x) action list \<Rightarrow> ('w, 's, 'u, 'd, 'i, 'x) plugin_host
     \<Rightarrow> (load_error + unit) \<times> ('w, 's, 'u, 'd, 'i, 'x) plugin_host" where
  "runFiltered perms [] h = (Inr (), h)"
| "runFiltered perms (x # xs) h =
     (case partOf x of
        None \<Rightarrow> (Inl NoSuchPart, h)
      | Some part \<Rightarrow>
          (case accessPart perms part of
             Inl p \<Rightarrow> (Inl (Denied p), h)
           | Inr _ \<Rightarrow> runFiltered perms xs (doAction x h)))"

definition permissionsOf :: "('w, 's, 'u, 'd, 'i, 'x) plugin \<Rightarrow> permission list" where
  "permissionsOf p = (case plPermissions p of None \<Rightarrow> [] | Some ps \<Rightarrow> ps)"

definition runOnunload ::
  "('w, 's, 'u, 'd, 'i, 'x) entry \<Rightarrow> ('w, 's, 'u, 'd, 'i, 'x) plugin_host
     \<Rightarrow> (load_error + unit) \<times> ('w, 's, 'u, 'd, 'i, 'x) plugin_host" where
  "runOnunload e h =
     (case e of
        Internal p \<Rightarrow> (if plUnloadFails p then Inl OnunloadFailed else Inr (), fold doAction (plOnunload p) h)
      | Sandboxed p \<Rightarrow>
          (case runFiltered (permissionsOf p) (plOnunload p) h of
             (Inl x, h') \<Rightarrow> (Inl x, h')
           | (Inr _, h') \<Rightarrow> (if plUnloadFails p then Inl OnunloadFailed else Inr (), h')))"

definition stamp :: "jsstr option \<Rightarrow> ('w, 's, 'u, 'd, 'i, 'x) plugin_host \<Rightarrow> ('w, 's, 'u, 'd, 'i, 'x) plugin_host" where
  "stamp p h = h\<lparr>hBlocks := (hBlocks h)\<lparr>tagPlugin := p\<rparr>, hViews := setCurrentPlugin p (hViews h),
     hActivation := map_option (\<lambda>a. a\<lparr>currentPluginId := p\<rparr>) (hActivation h)\<rparr>"


definition unloadPlugin ::
  "jsstr \<Rightarrow> ('w, 's, 'u, 'd, 'i, 'x) plugin_host \<times> ('w, 's, 'u, 'd, 'i, 'x) loader
     \<Rightarrow> (load_error + unit) \<times> ('w, 's, 'u, 'd, 'i, 'x) plugin_host \<times> ('w, 's, 'u, 'd, 'i, 'x) loader" where
  "unloadPlugin i st =
     (case st of (h, l) \<Rightarrow>
       (case map_of l i of
          None \<Rightarrow> (Inr (), h, l)
        | Some e \<Rightarrow>
            (case runOnunload e h of
               (Inl x, h') \<Rightarrow> (Inl x, h', l)
             | (Inr _, h') \<Rightarrow> (Inr (), h'\<lparr>hViews := cleanupPlugin i (hViews h')\<rparr>, AList.delete i l))))"

fun unloadEach ::
  "jsstr list \<Rightarrow> ('w, 's, 'u, 'd, 'i, 'x) plugin_host \<times> ('w, 's, 'u, 'd, 'i, 'x) loader
     \<Rightarrow> (load_error + unit) \<times> ('w, 's, 'u, 'd, 'i, 'x) plugin_host \<times> ('w, 's, 'u, 'd, 'i, 'x) loader" where
  "unloadEach [] st = (Inr (), st)"
| "unloadEach (i # is) st =
     (case unloadPlugin i st of (Inl e, st') \<Rightarrow> (Inl e, st') | (Inr _, st') \<Rightarrow> unloadEach is st')"

definition unloadAll ::
  "('w, 's, 'u, 'd, 'i, 'x) plugin_host \<times> ('w, 's, 'u, 'd, 'i, 'x) loader
     \<Rightarrow> (load_error + unit) \<times> ('w, 's, 'u, 'd, 'i, 'x) plugin_host \<times> ('w, 's, 'u, 'd, 'i, 'x) loader" where
  "unloadAll st = unloadEach (map fst (snd st)) st"

definition isLoaded :: "('w, 's, 'u, 'd, 'i, 'x) loader \<Rightarrow> jsstr \<Rightarrow> bool" where
  "isLoaded l i \<longleftrightarrow> map_of l i \<noteq> None"

definition loadedIds :: "('w, 's, 'u, 'd, 'i, 'x) loader \<Rightarrow> jsstr list" where
  "loadedIds l = map fst l"

text \<open>\<open>importCode\<close> is the dynamic import of the code: the plugin it exports, if any.\<close>

definition sandboxLoad ::
  "(jsstr \<Rightarrow> ('w, 's, 'u, 'd, 'i, 'x) plugin option) \<Rightarrow> jsstr \<Rightarrow> ('w, 's, 'u, 'd, 'i, 'x) plugin_host
     \<Rightarrow> (load_error + ('w, 's, 'u, 'd, 'i, 'x) plugin) \<times> ('w, 's, 'u, 'd, 'i, 'x) plugin_host" where
  "sandboxLoad importCode code h =
     (case importCode code of
        None \<Rightarrow> (Inl NoExport, h)
      | Some p \<Rightarrow>
          (case runFiltered (permissionsOf p) (plOnload p) h of
             (Inl e, h') \<Rightarrow> (Inl e, h')
           | (Inr _, h') \<Rightarrow> (if plLoadFails p then Inl OnloadFailed else Inr p, h')))"

definition loadFromCode ::
  "(jsstr \<Rightarrow> ('w, 's, 'u, 'd, 'i, 'x) plugin option) \<Rightarrow> jsstr \<Rightarrow> jsstr
     \<Rightarrow> ('w, 's, 'u, 'd, 'i, 'x) plugin_host \<times> ('w, 's, 'u, 'd, 'i, 'x) loader
     \<Rightarrow> (load_error + unit) \<times> ('w, 's, 'u, 'd, 'i, 'x) plugin_host \<times> ('w, 's, 'u, 'd, 'i, 'x) loader" where
  "loadFromCode importCode i code st =
     (case (if isLoaded (snd st) i then unloadPlugin i st else (Inr (), st)) of
        (Inl e, st') \<Rightarrow> (Inl e, st')
      | (Inr _, h, l) \<Rightarrow>
          (case sandboxLoad importCode code h of
             (Inl e, h') \<Rightarrow> (Inl e, h', l)
           | (Inr p, h') \<Rightarrow> (Inr (), h', AList.update i (Sandboxed p) l)))"

section \<open>What a plugin registers belongs to it\<close>

named_theorems adds_intros \<open>growth of a registry by the items of one plugin\<close>

text \<open>Every entry of the second list is in the first one or belongs to \<open>p\<close>.\<close>

definition only_adds :: "jsstr \<Rightarrow> 'v owned list \<Rightarrow> 'v owned list \<Rightarrow> bool" where
  "only_adds p es es' \<longleftrightarrow> set es' \<subseteq> set es \<union> {e. ownPlugin e = Some p}"



lemma only_adds_refl [simp, adds_intros]: "only_adds p es es"
  by (simp add: only_adds_def)








text \<open>The namespaces of the contributors.\<close>

definition index_adds :: "jsstr \<Rightarrow> 'c index_registry \<Rightarrow> 'c index_registry \<Rightarrow> bool" where
  "index_adds p r r' \<longleftrightarrow> (\<forall>c \<in> snd ` set (conCurrent r').
     map_of (conOwners r') (namespaceOf c) = Some (Some p)
     \<or> c \<in> snd ` set (conCurrent r) \<and> map_of (conOwners r') (namespaceOf c) = map_of (conOwners r) (namespaceOf c))"

lemma index_adds_refl [simp]: "index_adds p r r"
  by (simp add: index_adds_def)




definition hooks_add :: "jsstr \<Rightarrow> ('s, 'u, 'd) hook_registry \<Rightarrow> ('s, 'u, 'd) hook_registry \<Rightarrow> bool" where
  "hooks_add p r r' \<longleftrightarrow> only_adds p (beforeParseHooks r) (beforeParseHooks r')
     \<and> only_adds p (afterParseHooks r) (afterParseHooks r')
     \<and> only_adds p (beforeRenderHooks r) (beforeRenderHooks r')
     \<and> only_adds p (afterRenderHooks r) (afterRenderHooks r')
     \<and> only_adds p (documentOpenHooks r) (documentOpenHooks r')
     \<and> only_adds p (documentSaveHooks r) (documentSaveHooks r')
     \<and> only_adds p (selectionChangeHooks r) (selectionChangeHooks r')
     \<and> only_adds p (documentStabilizedHooks r) (documentStabilizedHooks r')"



lemma hooks_add_refl [simp]: "hooks_add p r r"
  by (simp add: hooks_add_def)












lemma stamp_fields [simp]:
  "tagPlugin (hBlocks (stamp q h)) = q" "vrCurrent (hViews (stamp q h)) = q"
  "hActivation (stamp q h) = map_option (\<lambda>a. a\<lparr>currentPluginId := q\<rparr>) (hActivation h)"
  by (simp_all add: stamp_def setCurrentPlugin_def)


lemma doAction_activation: "hActivation (doAction x h) = hActivation h"
  by (cases x) (simp_all add: changeBlocks_def split: prod.splits option.splits)

lemma actions_activation [simp]: "hActivation (fold doAction xs h) = hActivation h"
  by (induction xs arbitrary: h) (simp_all add: doAction_activation)


lemma enabled_current [simp]: "enabledFor (Some (a\<lparr>currentPluginId := q\<rparr>)) p = enabledFor (Some a) p"
  by (cases p) (simp_all add: enabledFor_def isEnabled_def)










end
