(* ===== verification/Hotkeys.thy ===== *)
theory Hotkeys
  imports PluginRegistries
begin

text \<open>
  Keyboard shortcuts (\<open>plugin-runtime/src/HotkeyManager.ts\<close>): the keys and modifiers of an
  event, the defaults declared by commands, the changes of the person, and the dispatch of a key
  to the first active command that answers to it.  \<open>lower\<close> and \<open>upper\<close> are \<open>toLowerCase\<close> and
  \<open>toUpperCase\<close>; the command source is the registry of commands.
\<close>

section \<open>Modifiers and keys\<close>

datatype platform = Mac | OtherPlatform

datatype physical = PhCtrl | PhMeta | PhShift | PhAlt

definition modifierOrder :: "physical list" where
  "modifierOrder = [PhCtrl, PhAlt, PhShift, PhMeta]"

fun physicalOf :: "platform \<Rightarrow> hotkey_modifier \<Rightarrow> physical" where
  "physicalOf Mac Mod = PhMeta"
| "physicalOf OtherPlatform Mod = PhCtrl"
| "physicalOf pf Ctrl = PhCtrl"
| "physicalOf pf Meta = PhMeta"
| "physicalOf pf Shift = PhShift"
| "physicalOf pf Alt = PhAlt"

definition physicalModifiers :: "hotkey_modifier list \<Rightarrow> platform \<Rightarrow> physical list" where
  "physicalModifiers ms pf = setOf (map (physicalOf pf) ms)"

definition normalizeKey :: "(jsstr \<Rightarrow> jsstr) \<Rightarrow> jsstr \<Rightarrow> jsstr" where
  "normalizeKey lower k = (if length k = 1 then lower k else k)"

record key_event =
  evKey :: jsstr
  evCode :: "jsstr option"
  ctrlKey :: bool
  metaKey :: bool
  shiftKey :: bool
  altKey :: bool
  defaultPrevented :: bool
  altGraph :: bool

definition isDigitUnit :: "cu \<Rightarrow> bool" where
  "isDigitUnit c \<longleftrightarrow> 48 \<le> c \<and> c \<le> 57"

definition isUpperUnit :: "cu \<Rightarrow> bool" where
  "isUpperUnit c \<longleftrightarrow> 65 \<le> c \<and> c \<le> 90"

definition isLowerUnit :: "cu \<Rightarrow> bool" where
  "isLowerUnit c \<longleftrightarrow> 97 \<le> c \<and> c \<le> 122"

text \<open>\<open>/^(?:Digit|Numpad)(\d)$/\<close> and \<open>/^Key([A-Z])$/\<close>: the group that matches.\<close>

definition afterPrefix :: "(cu \<Rightarrow> bool) \<Rightarrow> string \<Rightarrow> jsstr \<Rightarrow> cu option" where
  "afterPrefix ok p s =
     (case drop (length p) s of
        [c] \<Rightarrow> if take (length p) s = js p \<and> ok c then Some c else None
      | _ \<Rightarrow> None)"

definition digitCode :: "jsstr \<Rightarrow> cu option" where
  "digitCode s = (case afterPrefix isDigitUnit ''Digit'' s of
     Some c \<Rightarrow> Some c | None \<Rightarrow> afterPrefix isDigitUnit ''Numpad'' s)"

definition letterCode :: "jsstr \<Rightarrow> cu option" where
  "letterCode s = afterPrefix isUpperUnit ''Key'' s"

definition isLetterKey :: "jsstr \<Rightarrow> bool" where
  "isLetterKey k = (case k of [c] \<Rightarrow> isUpperUnit c \<or> isLowerUnit c | _ \<Rightarrow> False)"

definition eventKey :: "(jsstr \<Rightarrow> jsstr) \<Rightarrow> key_event \<Rightarrow> jsstr" where
  "eventKey lower e =
     (let code = (case evCode e of Some c \<Rightarrow> c | None \<Rightarrow> [])
      in case digitCode code of
           Some d \<Rightarrow> [d]
         | None \<Rightarrow>
             (case letterCode code of
                Some l \<Rightarrow> if altKey e \<and> \<not> isLetterKey (evKey e) then lower [l] else normalizeKey lower (evKey e)
              | None \<Rightarrow> normalizeKey lower (evKey e)))"

definition matchesEvent :: "(jsstr \<Rightarrow> jsstr) \<Rightarrow> hotkey \<Rightarrow> key_event \<Rightarrow> platform \<Rightarrow> bool" where
  "matchesEvent lower h e pf \<longleftrightarrow>
     (if normalizeKey lower (hkKey h) \<noteq> eventKey lower e then False
      else let want = physicalModifiers (modifiers h) pf
           in (PhCtrl \<in> set want) = ctrlKey e \<and> (PhMeta \<in> set want) = metaKey e
              \<and> (PhShift \<in> set want) = shiftKey e \<and> (PhAlt \<in> set want) = altKey e)"

definition sameHotkey :: "(jsstr \<Rightarrow> jsstr) \<Rightarrow> hotkey \<Rightarrow> hotkey \<Rightarrow> platform \<Rightarrow> bool" where
  "sameHotkey lower a b pf \<longleftrightarrow>
     (if normalizeKey lower (hkKey a) \<noteq> normalizeKey lower (hkKey b) then False
      else let ma = physicalModifiers (modifiers a) pf; mb = physicalModifiers (modifiers b) pf
           in length ma = length mb \<and> list_all (\<lambda>m. m \<in> set mb) ma)"

definition modifierKeys :: "jsstr list" where
  "modifierKeys = map js [''Control'', ''Shift'', ''Alt'', ''Meta'', ''AltGraph'', ''OS'', ''CapsLock'']"

definition isFunctionKey :: "jsstr \<Rightarrow> bool" where
  "isFunctionKey k = (case k of
     c # ds \<Rightarrow> c = 70 \<and> (length ds = 1 \<or> length ds = 2) \<and> list_all isDigitUnit ds | [] \<Rightarrow> False)"

definition nonPrinting :: "jsstr \<Rightarrow> bool" where
  "nonPrinting k \<longleftrightarrow> isFunctionKey k \<or> k \<in> set (map js [''Tab'', ''Enter'', ''Backspace'', ''Delete'',
     ''Escape'', ''ArrowUp'', ''ArrowDown'', ''ArrowLeft'', ''ArrowRight'', ''Home'', ''End'', ''PageUp'', ''PageDown''])"

definition isCommandKey :: "key_event \<Rightarrow> bool" where
  "isCommandKey e \<longleftrightarrow> ctrlKey e \<or> metaKey e \<or> altKey e \<or> nonPrinting (evKey e)"

definition hotkeyFromEvent :: "(jsstr \<Rightarrow> jsstr) \<Rightarrow> key_event \<Rightarrow> platform \<Rightarrow> hotkey option" where
  "hotkeyFromEvent lower e pf =
     (if evKey e \<in> set modifierKeys \<or> \<not> isCommandKey e then None
      else if altGraph e then None
      else Some \<lparr>modifiers =
              (if (if pf = Mac then metaKey e else ctrlKey e) then [Mod] else [])
              @ (if (if pf = Mac then ctrlKey e else metaKey e) then [if pf = Mac then Ctrl else Meta] else [])
              @ (if altKey e then [Alt] else []) @ (if shiftKey e then [Shift] else []),
            hkKey = eventKey lower e\<rparr>)"

section \<open>Stored shortcuts\<close>

fun modifierOf :: "json \<Rightarrow> hotkey_modifier option" where
  "modifierOf (JStr s) =
     (if s = js ''Mod'' then Some Mod else if s = js ''Ctrl'' then Some Ctrl
      else if s = js ''Meta'' then Some Meta else if s = js ''Shift'' then Some Shift
      else if s = js ''Alt'' then Some Alt else None)"
| "modifierOf _ = None"

definition hotkeyOf :: "json \<Rightarrow> hotkey option" where
  "hotkeyOf h =
     (case h of
        JObj fs \<Rightarrow>
          (case (map_of fs (js ''key''), map_of fs (js ''modifiers'')) of
             (Some (JStr k), Some (JArr ms)) \<Rightarrow>
               if k \<noteq> [] \<and> list_all (\<lambda>m. modifierOf m \<noteq> None) ms
               then Some \<lparr>modifiers = List.map_filter modifierOf ms, hkKey = k\<rparr> else None
           | _ \<Rightarrow> None)
      | _ \<Rightarrow> None)"

text \<open>The entries of an object in their order; an array has its positions for keys.  An entry \<open>__proto__\<close> sets the prototype of the result, not one of its entries.\<close>

definition sanitizeCustomHotkeys :: "json \<Rightarrow> (jsstr \<times> hotkey list) list" where
  "sanitizeCustomHotkeys raw =
     (let entries = (case raw of
           JObj fs \<Rightarrow> fs
         | JArr xs \<Rightarrow> zip (map natText [0..<length xs]) xs
         | _ \<Rightarrow> [])
      in List.map_filter (\<lambda>(i, l). case l of
           JArr hs \<Rightarrow> if i = js ''__proto__'' then None else Some (i, List.map_filter hotkeyOf hs)
         | _ \<Rightarrow> None) entries)"

section \<open>Display\<close>

fun macSymbol :: "physical \<Rightarrow> jsstr" where
  "macSymbol PhCtrl = [0x2303]"
| "macSymbol PhAlt = [0x2325]"
| "macSymbol PhShift = [0x21E7]"
| "macSymbol PhMeta = [0x2318]"

fun modifierLabel :: "physical \<Rightarrow> jsstr" where
  "modifierLabel PhCtrl = js ''Ctrl''"
| "modifierLabel PhAlt = js ''Alt''"
| "modifierLabel PhShift = js ''Maj''"
| "modifierLabel PhMeta = js ''Meta''"

definition keyLabels :: "(jsstr \<times> jsstr) list" where
  "keyLabels = [(js ''Enter'', js ''Entr'' @ [0xE9, 101]), (js ''Escape'', 0xC9 # js ''chap''),
     (js ''Backspace'', js ''Retour arri'' @ 0xE8 # js ''re''), (js ''Delete'', js ''Suppr''),
     (js '' '', js ''Espace''), (js ''ArrowUp'', [0x2191]), (js ''ArrowDown'', [0x2193]),
     (js ''ArrowLeft'', [0x2190]), (js ''ArrowRight'', [0x2192])]"

text \<open>\<open>inherited\<close>: the text of what an object literal inherits under a name, if anything.\<close>

definition formatHotkey ::
  "(jsstr \<Rightarrow> jsstr option) \<Rightarrow> (jsstr \<Rightarrow> jsstr) \<Rightarrow> hotkey \<Rightarrow> platform \<Rightarrow> jsstr" where
  "formatHotkey inherited upper h pf =
     (let mods = physicalModifiers (modifiers h) pf;
          key = (case map_of keyLabels (hkKey h) of
              Some l \<Rightarrow> l
            | None \<Rightarrow> (case inherited (hkKey h) of
                Some l \<Rightarrow> l
              | None \<Rightarrow> if length (hkKey h) = 1 then upper (hkKey h) else hkKey h));
          ordered = filter (\<lambda>m. m \<in> set mods) modifierOrder
      in if pf = Mac then concat (map macSymbol ordered) @ key
         else joinWith 43 (map modifierLabel ordered @ [key]))"

section \<open>The manager\<close>

record hotkey_manager =
  custom :: "(jsstr \<times> hotkey list) list"
  hkListeners :: "nat list"
  hkPlatform :: platform

definition newManager :: "platform \<Rightarrow> hotkey_manager" where
  "newManager pf = \<lparr>custom = [], hkListeners = [], hkPlatform = pf\<rparr>"

definition defaultHotkeys :: "activation option \<Rightarrow> ('w, 's) command registry \<Rightarrow> jsstr \<Rightarrow> hotkey list" where
  "defaultHotkeys act m i =
     (case (case getRegistered m i of
              Some c \<Rightarrow> Some c | None \<Rightarrow> List.find (\<lambda>c. cmdId c = i) (allCommands act m)) of
        None \<Rightarrow> []
      | Some c \<Rightarrow> (case cmdHotkeys c of None \<Rightarrow> [] | Some hs \<Rightarrow> hs))"

definition getHotkeys ::
  "activation option \<Rightarrow> ('w, 's) command registry \<Rightarrow> hotkey_manager \<Rightarrow> jsstr \<Rightarrow> hotkey list" where
  "getHotkeys act m g i =
     (case map_of (custom g) i of Some hs \<Rightarrow> hs | None \<Rightarrow> defaultHotkeys act m i)"

text \<open>The listeners that are called are the second component.\<close>

definition notify :: "hotkey_manager \<Rightarrow> hotkey_manager \<times> nat list" where
  "notify g = (g, hkListeners g)"

definition setCustom :: "jsstr \<Rightarrow> hotkey list option \<Rightarrow> hotkey_manager \<Rightarrow> hotkey_manager \<times> nat list" where
  "setCustom i hs g =
     notify (case hs of
        None \<Rightarrow> g\<lparr>custom := AList.delete i (custom g)\<rparr>
      | Some l \<Rightarrow> g\<lparr>custom := AList.update i l (custom g)\<rparr>)"

definition loadCustom :: "json \<Rightarrow> hotkey_manager \<Rightarrow> hotkey_manager \<times> nat list" where
  "loadCustom raw g = notify (g\<lparr>custom := sanitizeCustomHotkeys raw\<rparr>)"

definition findConflicts ::
  "(jsstr \<Rightarrow> jsstr) \<Rightarrow> activation option \<Rightarrow> ('w, 's) command registry \<Rightarrow> hotkey_manager \<Rightarrow> hotkey \<Rightarrow> jsstr list" where
  "findConflicts lower act m g h =
     map cmdId (filter (\<lambda>c. list_ex (\<lambda>x. sameHotkey lower x h (hkPlatform g)) (getHotkeys act m g (cmdId c)))
       (allCommands act m))"

definition onHotkeyChange :: "nat \<Rightarrow> hotkey_manager \<Rightarrow> hotkey_manager" where
  "onHotkeyChange cb g = g\<lparr>hkListeners := setAdd cb (hkListeners g)\<rparr>"

definition offHotkeyChange :: "nat \<Rightarrow> hotkey_manager \<Rightarrow> hotkey_manager" where
  "offHotkeyChange cb g = g\<lparr>hkListeners := removeAll cb (hkListeners g)\<rparr>"

text \<open>The loop over the commands; \<open>None\<close> when the key is left alone, \<open>Some\<close> of the state after
  the command that took it.\<close>

fun dispatch ::
  "(('w, 's) command \<Rightarrow> bool) \<Rightarrow> 'w option \<Rightarrow> 's \<Rightarrow> ('w, 's) command list \<Rightarrow> 's option" where
  "dispatch hit ctx s [] = None"
| "dispatch hit ctx s (c # cs) =
     (if \<not> hit c then dispatch hit ctx s cs
      else if cmdEditor c \<and> ctx = None then dispatch hit ctx s cs
      else if (case isAvailable c of None \<Rightarrow> False | Some f \<Rightarrow> \<not> f ctx s) then dispatch hit ctx s cs
      else Some (cmdRun c ctx s))"

definition handleKeyEvent ::
  "(jsstr \<Rightarrow> jsstr) \<Rightarrow> activation option \<Rightarrow> ('w, 's) command registry \<Rightarrow> hotkey_manager
     \<Rightarrow> key_event \<Rightarrow> 'w option \<Rightarrow> 's \<Rightarrow> 's option" where
  "handleKeyEvent lower act m g e ctx s =
     (if defaultPrevented e then None
      else if altGraph e then None
      else if \<not> isCommandKey e then None
      else dispatch (\<lambda>c. list_ex (\<lambda>h. matchesEvent lower h e (hkPlatform g)) (getHotkeys act m g (cmdId c)))
             ctx s (allCommands act m))"

section \<open>A recorded shortcut answers to its key\<close>

text \<open>What is asked of \<open>toLowerCase\<close>: it does not change a text already in lower case, nor a
  digit.\<close>

definition lowers :: "(jsstr \<Rightarrow> jsstr) \<Rightarrow> bool" where
  "lowers lower \<longleftrightarrow> (\<forall>s. lower (lower s) = lower s) \<and> (\<forall>c. isDigitUnit c \<longrightarrow> lower [c] = [c])"

lemma set_physicalModifiers: "set (physicalModifiers ms pf) = physicalOf pf ` set ms"
  by (simp add: physicalModifiers_def)

lemma afterPrefix_ok: "afterPrefix ok p s = Some c \<Longrightarrow> ok c"
  by (auto simp: afterPrefix_def split: list.splits if_splits)

lemma digitCode_digit: "digitCode s = Some c \<Longrightarrow> isDigitUnit c"
  by (auto simp: digitCode_def split: option.splits dest: afterPrefix_ok)

lemma normalizeKey_eventKey:
  assumes "lowers lower"
  shows "normalizeKey lower (eventKey lower e) = eventKey lower e"
  using assms digitCode_digit
  by (auto simp: normalizeKey_def eventKey_def lowers_def Let_def split: option.splits)

lemma recorded_matches:
  assumes "lowers lower" "hotkeyFromEvent lower e pf = Some h"
  shows "matchesEvent lower h e pf"
proof -
  have k: "hkKey h = eventKey lower e" and
    m: "modifiers h = (if (if pf = Mac then metaKey e else ctrlKey e) then [Mod] else [])
              @ (if (if pf = Mac then ctrlKey e else metaKey e) then [if pf = Mac then Ctrl else Meta] else [])
              @ (if altKey e then [Alt] else []) @ (if shiftKey e then [Shift] else [])"
    using assms(2) by (auto simp: hotkeyFromEvent_def split: if_splits)
  show ?thesis
    unfolding matchesEvent_def k m normalizeKey_eventKey [OF assms(1)] Let_def set_physicalModifiers
    by (cases pf) auto
qed

text \<open>The command applies here.\<close>

definition canRun :: "'w option \<Rightarrow> 's \<Rightarrow> ('w, 's) command \<Rightarrow> bool" where
  "canRun ctx s c \<longleftrightarrow> \<not> (cmdEditor c \<and> ctx = None)
     \<and> (case isAvailable c of None \<Rightarrow> True | Some f \<Rightarrow> f ctx s)"

lemma dispatch_Cons:
  "dispatch hit ctx s (c # cs) =
     (if hit c \<and> canRun ctx s c then Some (cmdRun c ctx s) else dispatch hit ctx s cs)"
  by (cases "isAvailable c") (simp_all add: canRun_def)

lemma dispatch_find:
  "dispatch hit ctx s cs = map_option (\<lambda>d. cmdRun d ctx s) (List.find (\<lambda>d. hit d \<and> canRun ctx s d) cs)"
  by (induction cs) (simp_all add: dispatch_Cons del: dispatch.simps(2))

lemma find_in: "List.find P xs = Some x \<Longrightarrow> x \<in> set xs"
  by (auto simp: find_Some_iff)

lemma set_modifierKeys_command: "hotkeyFromEvent lower e pf = Some h \<Longrightarrow> isCommandKey e \<and> \<not> altGraph e"
  by (auto simp: hotkeyFromEvent_def split: if_splits)

lemma getHotkeys_setCustom:
  "getHotkeys act m (fst (setCustom i (Some hs) g)) j = (if j = i then hs else getHotkeys act m g j)"
  by (simp add: getHotkeys_def setCustom_def notify_def update_conv')

lemma setCustom_platform [simp]: "hkPlatform (fst (setCustom i hs g)) = hkPlatform g"
  by (simp add: setCustom_def notify_def split: option.splits)

text \<open>C34: a shortcut recorded from a key event (\<open>fromEvent\<close>) and given to an active command with
  \<open>setCustom\<close> works: the same key, when nothing prevents it and the command is available, runs an
  active command that answers to that key, the first one in the order of the registry.\<close>

theorem recorded_hotkey_works:
  assumes "lowers lower" "hotkeyFromEvent lower e (hkPlatform g) = Some h"
    and "c \<in> set (allCommands act m)" "\<not> defaultPrevented e" "canRun ctx s c"
  shows "\<exists>d. List.find (\<lambda>d. list_ex (\<lambda>x. matchesEvent lower x e (hkPlatform g))
          (getHotkeys act m (fst (setCustom (cmdId c) (Some [h]) g)) (cmdId d)) \<and> canRun ctx s d)
          (allCommands act m) = Some d
     \<and> handleKeyEvent lower act m (fst (setCustom (cmdId c) (Some [h]) g)) e ctx s = Some (cmdRun d ctx s)"
proof -
  let ?g = "fst (setCustom (cmdId c) (Some [h]) g)"
  let ?P = "\<lambda>d. list_ex (\<lambda>x. matchesEvent lower x e (hkPlatform g)) (getHotkeys act m ?g (cmdId d))
        \<and> canRun ctx s d"
  have "?P c"
    using assms(5) recorded_matches [OF assms(1,2)] by (simp add: getHotkeys_setCustom)
  then have "List.find ?P (allCommands act m) \<noteq> None"
    using assms(3) unfolding find_None_iff by blast
  then obtain d where d: "List.find ?P (allCommands act m) = Some d" by blast
  have "handleKeyEvent lower act m ?g e ctx s =
      map_option (\<lambda>d. cmdRun d ctx s) (List.find ?P (allCommands act m))"
    using assms(4) set_modifierKeys_command [OF assms(2)]
    by (simp only: handleKeyEvent_def dispatch_find setCustom_platform if_False simp_thms)
  with d show ?thesis by (simp only: option.map) blast
qed

definition lowerAscii :: "jsstr \<Rightarrow> jsstr" where
  "lowerAscii = map (\<lambda>c. if isUpperUnit c then c + 32 else c)"

lemma lowerAscii_lowers: "lowers lowerAscii"
proof -
  have "\<not> isUpperUnit (c + 32)" if "isUpperUnit c" for c
    using that unfolding isUpperUnit_def by unat_arith
  moreover have "\<not> isUpperUnit c" if "isDigitUnit c" for c
    using that unfolding isUpperUnit_def isDigitUnit_def by unat_arith
  ultimately show ?thesis by (simp add: lowers_def lowerAscii_def)
qed

definition demoEvent :: key_event where
  "demoEvent = \<lparr>evKey = [0xE8], evCode = Some (js ''Digit7''), ctrlKey = True, metaKey = False,
     shiftKey = True, altKey = False, defaultPrevented = False, altGraph = False\<rparr>"

definition demoBold :: "(unit, nat) command" where
  "demoBold = \<lparr>cmdId = js ''bold'', cmdHotkeys = None, cmdEditor = False, isAvailable = None,
     cmdRun = (\<lambda>_. Suc)\<rparr>"

lemma demoEvent_hotkey:
  "hotkeyFromEvent lowerAscii demoEvent OtherPlatform = Some \<lparr>modifiers = [Mod, Shift], hkKey = js ''7''\<rparr>"
  by (simp add: hotkeyFromEvent_def demoEvent_def modifierKeys_def isCommandKey_def eventKey_def
      digitCode_def afterPrefix_def isDigitUnit_def js_def of_char_def)

theorem recorded_hotkey_works_witness:
  "handleKeyEvent lowerAscii None (registerCommand None demoBold [])
     (fst (setCustom (cmdId demoBold) (Some [\<lparr>modifiers = [Mod, Shift], hkKey = js ''7''\<rparr>])
        (newManager OtherPlatform))) demoEvent (None :: unit option) 0 = Some 1"
proof -
  have e: "hotkeyFromEvent lowerAscii demoEvent (hkPlatform (newManager OtherPlatform))
      = Some \<lparr>modifiers = [Mod, Shift], hkKey = js ''7''\<rparr>"
    by (simp add: newManager_def demoEvent_hotkey)
  have c: "set (allCommands None (registerCommand None demoBold [])) = {demoBold}"
    by (simp add: allCommands_def registerCommand_def live_def own_def enabledFor_def)
  then have m: "demoBold \<in> set (allCommands None (registerCommand None demoBold []))" by simp
  have p: "\<not> defaultPrevented demoEvent" by (simp add: demoEvent_def)
  have r: "canRun None 0 demoBold" by (simp add: canRun_def demoBold_def)
  from recorded_hotkey_works [OF lowerAscii_lowers e m p r]
  obtain d where d: "List.find (\<lambda>d. list_ex (\<lambda>x. matchesEvent lowerAscii x demoEvent (hkPlatform (newManager OtherPlatform)))
          (getHotkeys None (registerCommand None demoBold []) (fst (setCustom (cmdId demoBold)
             (Some [\<lparr>modifiers = [Mod, Shift], hkKey = js ''7''\<rparr>]) (newManager OtherPlatform))) (cmdId d))
          \<and> canRun None 0 d) (allCommands None (registerCommand None demoBold [])) = Some d"
    and h: "handleKeyEvent lowerAscii None (registerCommand None demoBold [])
     (fst (setCustom (cmdId demoBold) (Some [\<lparr>modifiers = [Mod, Shift], hkKey = js ''7''\<rparr>])
        (newManager OtherPlatform))) demoEvent None 0 = Some (cmdRun d None 0)"
    by (elim exE conjE)
  have "d = demoBold" using find_in [OF d] unfolding c by (rule singletonD)
  with h show ?thesis by (simp only:) (simp add: demoBold_def)
qed

end
