(* ===== verification/UpdateLog.thy ===== *)
theory UpdateLog
  imports Prelude
begin

text \<open>
  The journal of a document on disk (\<open>infrastructure-sync/src/filesystem/UpdateLog.ts\<close>) and the
  sessions that share its folder.  A step is what runs between two \<open>await\<close>s: the call that
  starts a write, its end, the reading of one file, the delivery of what was read to the
  document.  Steps of several sessions, and of the reads and writes of one, interleave freely.

  An update is opaque (\<open>'u\<close>); merging updates and encoding the state of a document are the
  parameter \<open>yjs\<close>.  The name of a file keeps the parts it is made of; its text and the clock are
  not modelled.  \<open>pull\<close> and \<open>loadReplica\<close> of \<open>FileSystemVaultSession.ts\<close> are the delivery.
\<close>

section \<open>Files\<close>

record 'u yjs =
  mergeUpdates :: "'u list \<Rightarrow> 'u"
  encodeState :: "'u list \<Rightarrow> 'u"

datatype file_ext = UpdateExt | StateExt

text \<open>A file a journal wrote (session, sequence number), or any other file.\<close>

datatype file_name = LogName jsstr nat file_ext | OtherName jsstr

definition endsWith :: "jsstr \<Rightarrow> jsstr \<Rightarrow> bool" where
  "endsWith suf s \<longleftrightarrow> length suf \<le> length s \<and> drop (length s - length suf) s = suf"

fun isLogFile :: "file_name \<Rightarrow> bool" where
  "isLogFile (LogName _ _ _) = True"
| "isLogFile (OtherName s) = (endsWith (js ''.update'') s \<or> endsWith (js ''.state'') s)"

definition compactAfter :: nat where
  "compactAfter = 32"

section \<open>A session\<close>

text \<open>A read in progress: the entries left, the file being read, what was read.\<close>

record 'u reader =
  rdNames :: "file_name list"
  rdAsked :: "file_name option"
  rdOut :: "'u list"

datatype job = FlushJob | CompactJob bool

text \<open>What the chain of writes is doing.  \<open>Some force\<close>: the check of \<open>compact\<close> comes after.\<close>

datatype 'u writer =
    Idle
  | WritingUpdate "bool option" file_name 'u
  | WritingState "bool option" file_name "file_name list" 'u
  | Removing "bool option" "file_name list"

text \<open>\<open>applied\<close> are the updates the document holds.\<close>

record 'u session =
  sid :: jsstr
  seen :: "file_name list"
  pending :: "'u list"
  timer :: bool
  jobs :: "job list"
  writer :: "'u writer"
  seqNo :: nat
  isDisposed :: bool
  applied :: "'u list"
  readers :: "'u reader list"

definition newSession :: "jsstr \<Rightarrow> 'u session" where
  "newSession i = \<lparr>sid = i, seen = [], pending = [], timer = False, jobs = [], writer = Idle,
     seqNo = 0, isDisposed = False, applied = [], readers = []\<rparr>"

definition hasSeen :: "'u session \<Rightarrow> file_name \<Rightarrow> bool" where
  "hasSeen s n \<longleftrightarrow> n \<in> set (seen s)"

definition isEmptyLog :: "'u session \<Rightarrow> bool" where
  "isEmptyLog s \<longleftrightarrow> seen s = [] \<and> pending s = []"

definition nextName :: "file_ext \<Rightarrow> 'u session \<Rightarrow> file_name \<times> 'u session" where
  "nextName ext s = (LogName (sid s) (seqNo s) ext, s\<lparr>seqNo := Suc (seqNo s)\<rparr>)"

definition appendUpdate :: "'u \<Rightarrow> 'u session \<Rightarrow> 'u session" where
  "appendUpdate u s =
     (if isDisposed s then s else s\<lparr>pending := pending s @ [u], timer := True\<rparr>)"

definition flushLog :: "'u session \<Rightarrow> 'u session" where
  "flushLog s = s\<lparr>timer := False, jobs := jobs s @ [FlushJob]\<rparr>"

definition compactLog :: "bool \<Rightarrow> 'u session \<Rightarrow> 'u session" where
  "compactLog force s = s\<lparr>jobs := jobs s @ [CompactJob force]\<rparr>"

definition disposeLog :: "'u session \<Rightarrow> 'u session" where
  "disposeLog s = s\<lparr>isDisposed := True, timer := False\<rparr>"

text \<open>\<open>writeCompacted\<close> up to its first \<open>await\<close>.\<close>

definition startCompacted :: "'u yjs \<Rightarrow> bool option \<Rightarrow> 'u session \<Rightarrow> 'u session" where
  "startCompacted y after s =
     (case nextName StateExt s of (n, s') \<Rightarrow>
       s'\<lparr>writer := WritingState after n (seen s) (encodeState y (applied s))\<rparr>)"

text \<open>After \<open>writePending\<close>: the end of a flush, or the check of \<open>compact\<close>.\<close>

definition afterPending :: "'u yjs \<Rightarrow> bool option \<Rightarrow> 'u session \<Rightarrow> 'u session" where
  "afterPending y after s =
     (case after of
        None \<Rightarrow> s\<lparr>writer := Idle\<rparr>
      | Some force \<Rightarrow>
          if length (seen s) \<le> 1 \<or> \<not> force \<and> length (seen s) < compactAfter then s\<lparr>writer := Idle\<rparr>
          else startCompacted y None s)"

definition startPending :: "'u yjs \<Rightarrow> bool option \<Rightarrow> 'u session \<Rightarrow> 'u session" where
  "startPending y after s =
     (if pending s = [] then afterPending y after s
      else let merged = (case pending s of [u] \<Rightarrow> u | us \<Rightarrow> mergeUpdates y us)
           in case nextName UpdateExt (s\<lparr>pending := []\<rparr>) of (n, s') \<Rightarrow>
                s'\<lparr>seen := setAdd n (seen s'), writer := WritingUpdate after n merged\<rparr>)"

definition startJob :: "'u yjs \<Rightarrow> 'u session \<Rightarrow> 'u session option" where
  "startJob y s =
     (case (writer s, jobs s) of
        (Idle, j # later) \<Rightarrow>
          Some (startPending y (case j of FlushJob \<Rightarrow> None | CompactJob force \<Rightarrow> Some force) (s\<lparr>jobs := later\<rparr>))
      | _ \<Rightarrow> None)"

section \<open>Steps\<close>

type_synonym 'u disk = "(file_name \<times> 'u) list"

definition startRemoving :: "'u yjs \<Rightarrow> bool option \<Rightarrow> file_name list \<Rightarrow> 'u session \<Rightarrow> 'u session" where
  "startRemoving y after old s =
     (case old of
        [] \<Rightarrow> afterPending y after s
      | f # fs \<Rightarrow> s\<lparr>seen := removeAll f (seen s), writer := Removing after old\<rparr>)"

definition writeDone :: "'u yjs \<Rightarrow> 'u disk \<Rightarrow> 'u session \<Rightarrow> ('u disk \<times> 'u session) option" where
  "writeDone y d s =
     (case writer s of
        WritingUpdate after n u \<Rightarrow>
          Some (AList.update n u d,
            if compactAfter \<le> length (seen s) then startCompacted y after s else afterPending y after s)
      | WritingState after n old u \<Rightarrow>
          Some (AList.update n u d, startRemoving y after old (s\<lparr>seen := setAdd n (seen s)\<rparr>))
      | _ \<Rightarrow> None)"

definition writeFailed :: "'u session \<Rightarrow> 'u session option" where
  "writeFailed s =
     (case writer s of
        WritingUpdate after n u \<Rightarrow>
          Some (s\<lparr>seen := removeAll n (seen s), pending := u # pending s, writer := Idle\<rparr>)
      | WritingState after n old u \<Rightarrow> Some (s\<lparr>writer := Idle\<rparr>)
      | _ \<Rightarrow> None)"

text \<open>The removal of the first old file ends, well or not; the loop goes on to the next one.\<close>

definition removeDone :: "'u yjs \<Rightarrow> bool \<Rightarrow> 'u disk \<Rightarrow> 'u session \<Rightarrow> ('u disk \<times> 'u session) option" where
  "removeDone y ok d s =
     (case writer s of
        Removing after (f # fs) \<Rightarrow>
          Some (if ok then AList.delete f d else d, startRemoving y after fs s)
      | _ \<Rightarrow> None)"

definition startRead :: "'u disk \<Rightarrow> 'u session \<Rightarrow> 'u session" where
  "startRead d s = s\<lparr>readers := readers s @ [\<lparr>rdNames = map fst d, rdAsked = None, rdOut = []\<rparr>]\<rparr>"

definition readNext :: "nat \<Rightarrow> 'u session \<Rightarrow> 'u session option" where
  "readNext i s =
     (if i < length (readers s) then
        (let r = readers s ! i
         in case (rdAsked r, rdNames r) of
              (None, n # ns) \<Rightarrow>
                Some (s\<lparr>readers := (readers s)[i := r\<lparr>rdNames := ns,
                  rdAsked := (if \<not> isLogFile n \<or> n \<in> set (seen s) then None else Some n)\<rparr>]\<rparr>)
            | _ \<Rightarrow> None)
      else None)"

definition readDone :: "nat \<Rightarrow> 'u disk \<Rightarrow> 'u session \<Rightarrow> 'u session option" where
  "readDone i d s =
     (if i < length (readers s) then
        (let r = readers s ! i
         in case rdAsked r of
              None \<Rightarrow> None
            | Some n \<Rightarrow>
                (case map_of d n of
                   None \<Rightarrow> Some (s\<lparr>readers := (readers s)[i := r\<lparr>rdAsked := None\<rparr>]\<rparr>)
                 | Some u \<Rightarrow> Some (s\<lparr>seen := setAdd n (seen s),
                     readers := (readers s)[i := r\<lparr>rdAsked := None, rdOut := rdOut r @ [u]\<rparr>]\<rparr>)))
      else None)"

definition deliver :: "nat \<Rightarrow> 'u session \<Rightarrow> 'u session option" where
  "deliver i s =
     (if i < length (readers s) \<and> rdNames (readers s ! i) = [] \<and> rdAsked (readers s ! i) = None then
        Some (s\<lparr>applied := applied s @ rdOut (readers s ! i),
          readers := take i (readers s) @ drop (Suc i) (readers s)\<rparr>)
      else None)"

datatype 'u event =
    Edit 'u | TimerFires | CallFlush | CallCompact bool | StartJob | WriteOk | WriteFails
  | RemoveEnds bool | StartRead | ReadNext nat | ReadEnds nat | Deliver nat | Dispose | RemoveFolder

text \<open>One step of one session on the folder; \<open>None\<close> when it cannot happen now.  A local edit is
  applied to the document and appended; the folder is removed (\<open>destroy\<close>) when nothing is being
  written any more.\<close>

fun sessionStep :: "'u yjs \<Rightarrow> 'u event \<Rightarrow> 'u disk \<times> 'u session \<Rightarrow> ('u disk \<times> 'u session) option" where
  "sessionStep y (Edit u) (d, s) = Some (d, appendUpdate u (s\<lparr>applied := applied s @ [u]\<rparr>))"
| "sessionStep y TimerFires (d, s) = (if timer s then Some (d, flushLog s) else None)"
| "sessionStep y CallFlush (d, s) = Some (d, flushLog s)"
| "sessionStep y (CallCompact force) (d, s) = Some (d, compactLog force s)"
| "sessionStep y StartJob (d, s) = map_option (Pair d) (startJob y s)"
| "sessionStep y WriteOk (d, s) = writeDone y d s"
| "sessionStep y WriteFails (d, s) = map_option (Pair d) (writeFailed s)"
| "sessionStep y (RemoveEnds ok) (d, s) = removeDone y ok d s"
| "sessionStep y StartRead (d, s) = Some (d, startRead d s)"
| "sessionStep y (ReadNext i) (d, s) = map_option (Pair d) (readNext i s)"
| "sessionStep y (ReadEnds i) (d, s) = map_option (Pair d) (readDone i d s)"
| "sessionStep y (Deliver i) (d, s) = map_option (Pair d) (deliver i s)"
| "sessionStep y Dispose (d, s) = Some (d, disposeLog s)"
| "sessionStep y RemoveFolder (d, s) =
     (if isDisposed s \<and> jobs s = [] \<and> writer s = Idle then Some ([], s) else None)"

type_synonym 'u folder = "'u disk \<times> 'u session list"

definition folderStep :: "'u yjs \<Rightarrow> nat \<times> 'u event \<Rightarrow> 'u folder \<Rightarrow> 'u folder option" where
  "folderStep y ie w =
     (case (ie, w) of ((i, e), (d, ss)) \<Rightarrow>
       if i < length ss then
         (case sessionStep y e (d, ss ! i) of
            None \<Rightarrow> None
          | Some (d', s') \<Rightarrow> Some (d', ss[i := s']))
       else None)"

fun runFolder :: "'u yjs \<Rightarrow> (nat \<times> 'u event) list \<Rightarrow> 'u folder \<Rightarrow> 'u folder option" where
  "runFolder y [] w = Some w"
| "runFolder y (x # xs) w = (case folderStep y x w of None \<Rightarrow> None | Some w' \<Rightarrow> runFolder y xs w')"

section \<open>What is on the disk or on its way\<close>

text \<open>The changes an update carries; what Yjs promises of a merge and of an encoded state.\<close>

definition lawful :: "'u yjs \<Rightarrow> ('u \<Rightarrow> 'c set) \<Rightarrow> bool" where
  "lawful y c \<longleftrightarrow> (\<forall>us. c (mergeUpdates y us) = \<Union> (c ` set us))
     \<and> (\<forall>us. c (encodeState y us) = \<Union> (c ` set us))"

definition onDisk :: "('u \<Rightarrow> 'c set) \<Rightarrow> 'u disk \<Rightarrow> file_name set \<Rightarrow> 'c set" where
  "onDisk c d r = {x. \<exists>n u. map_of d n = Some u \<and> n \<notin> r \<and> x \<in> c u}"

fun removing :: "'u writer \<Rightarrow> file_name set" where
  "removing (Removing _ fs) = set fs"
| "removing _ = {}"

fun inFlight :: "('u \<Rightarrow> 'c set) \<Rightarrow> 'u writer \<Rightarrow> 'c set" where
  "inFlight c (WritingUpdate _ _ u) = c u"
| "inFlight c _ = {}"

definition held :: "('u \<Rightarrow> 'c set) \<Rightarrow> 'u session \<Rightarrow> 'c set" where
  "held c s = \<Union> (c ` set (pending s)) \<union> inFlight c (writer s)"

definition inDoc :: "('u \<Rightarrow> 'c set) \<Rightarrow> 'u session \<Rightarrow> 'c set" where
  "inDoc c s = \<Union> (c ` set (applied s))"

definition undelivered :: "'u session \<Rightarrow> 'u list" where
  "undelivered s = concat (map rdOut (readers s))"

definition readOut :: "('u \<Rightarrow> 'c set) \<Rightarrow> 'u session \<Rightarrow> 'c set" where
  "readOut c s = \<Union> (c ` set (undelivered s))"

text \<open>The changes that a file no session is removing, a queue or a write in progress carries.\<close>

definition kept :: "('u \<Rightarrow> 'c set) \<Rightarrow> 'u folder \<Rightarrow> 'c set" where
  "kept c w = onDisk c (fst w) (\<Union>s \<in> set (snd w). removing (writer s)) \<union> (\<Union>s \<in> set (snd w). held c s)"

section \<open>The invariant of a session\<close>

fun writingName :: "'u writer \<Rightarrow> file_name option" where
  "writingName (WritingUpdate _ n _) = Some n"
| "writingName (WritingState _ n _ _) = Some n"
| "writingName _ = None"

text \<open>The sequence number below which the names of the session are taken.\<close>

definition bound :: "'u session \<Rightarrow> nat" where
  "bound s = (if writingName (writer s) = None then seqNo s else seqNo s - 1)"

definition below :: "'u session \<Rightarrow> file_name \<Rightarrow> bool" where
  "below s n \<longleftrightarrow> (case n of LogName i k _ \<Rightarrow> i = sid s \<longrightarrow> k < bound s | OtherName _ \<Rightarrow> True)"

fun oldNames :: "'u writer \<Rightarrow> file_name set" where
  "oldNames (WritingState _ _ old _) = set old"
| "oldNames (Removing _ fs) = set fs"
| "oldNames _ = {}"

definition mentioned :: "'u session \<Rightarrow> file_name set" where
  "mentioned s = (set (seen s) - set_option (writingName (writer s))) \<union> oldNames (writer s)"

text \<open>What the session has seen is in the document or about to be delivered, what waits for a
  write is in the document, and a state being written covers the files it replaces.\<close>

definition session_ok :: "('u \<Rightarrow> 'c set) \<Rightarrow> 'u disk \<Rightarrow> 'u session \<Rightarrow> bool" where
  "session_ok c d s \<longleftrightarrow>
     (\<forall>n \<in> set (seen s). \<forall>u. map_of d n = Some u \<longrightarrow> c u \<subseteq> inDoc c s \<union> readOut c s)
     \<and> held c s \<subseteq> inDoc c s
     \<and> (\<forall>n. writingName (writer s) = Some n \<longrightarrow> 0 < seqNo s \<and> (\<exists>e. n = LogName (sid s) (bound s) e))
     \<and> (\<forall>a n old st. writer s = WritingState a n old st \<longrightarrow> c st \<subseteq> inDoc c s \<and>
          (\<forall>f \<in> set old. \<forall>u. map_of d f = Some u \<longrightarrow> c u \<subseteq> c st))"

definition names_ok :: "'u disk \<Rightarrow> 'u session \<Rightarrow> bool" where
  "names_ok d s \<longleftrightarrow> (\<forall>n \<in> dom (map_of d) \<union> mentioned s. below s n)"

text \<open>What the environment of the session sees of a step.\<close>

definition step_ok :: "('u \<Rightarrow> 'c set) \<Rightarrow> 'u disk \<Rightarrow> 'u session \<Rightarrow> 'u disk \<Rightarrow> 'u session \<Rightarrow> bool" where
  "step_ok c d s d' s' \<longleftrightarrow> sid s' = sid s \<and> session_ok c d' s' \<and> names_ok d' s' \<and> bound s \<le> bound s'
     \<and> (\<forall>n. n \<in> mentioned s' \<longrightarrow> n \<in> mentioned s \<union> dom (map_of d) \<or> writingName (writer s) = Some n)
     \<and> (\<forall>n u. map_of d' n = Some u \<longrightarrow> map_of d n = Some u \<or> writingName (writer s) = Some n)
     \<and> (\<forall>r. r \<inter> set_option (writingName (writer s)) = {} \<longrightarrow>
          onDisk c d (r \<union> removing (writer s)) \<union> held c s
            \<subseteq> onDisk c d' (r \<union> removing (writer s')) \<union> held c s')"

text \<open>A compaction starts while something that was read is not in the document yet.\<close>

fun writesState :: "'u writer \<Rightarrow> bool" where
  "writesState (WritingState _ _ _ _) = True"
| "writesState _ = False"

definition startsCompaction :: "'u session \<Rightarrow> 'u session \<Rightarrow> bool" where
  "startsCompaction s s' \<longleftrightarrow>
     writesState (writer s') \<and> writingName (writer s') \<noteq> writingName (writer s)"

lemma onDisk_mono: "r' \<subseteq> r \<Longrightarrow> onDisk c d r \<subseteq> onDisk c d r'"
  by (auto simp: onDisk_def)

text \<open>From a state whose chain is at rest, the check of \<open>compact\<close> and a compaction.\<close>

definition at_rest :: "('u \<Rightarrow> 'c set) \<Rightarrow> 'u disk \<Rightarrow> 'u session \<Rightarrow> bool" where
  "at_rest c d s \<longleftrightarrow> session_ok c d (s\<lparr>writer := Idle\<rparr>) \<and> names_ok d (s\<lparr>writer := Idle\<rparr>)"

lemma bound_rest [simp]: "bound (s\<lparr>writer := Idle\<rparr>) = seqNo s"
  by (simp add: bound_def)

lemma startCompacted_ok:
  assumes "lawful y c" "at_rest c d s" "undelivered s = []" and s': "s' = startCompacted y a s"
  shows "session_ok c d s' \<and> names_ok d s' \<and> bound s' = seqNo s \<and> sid s' = sid s
    \<and> mentioned s' \<subseteq> set (seen s) \<and> removing (writer s') = {} \<and> held c s' = \<Union> (c ` set (pending s))"
proof -
  have w: "s' = s\<lparr>seqNo := Suc (seqNo s), writer := WritingState a (LogName (sid s) (seqNo s) StateExt)
      (seen s) (encodeState y (applied s))\<rparr>"
    by (simp add: s' startCompacted_def nextName_def)
  have b: "bound s' = seqNo s" by (simp add: w bound_def)
  have m: "mentioned s' \<subseteq> set (seen s)" by (auto simp: w mentioned_def)
  moreover have "sid s' = sid s" by (simp add: w)
  ultimately have n: "names_ok d s'"
    using assms(2) unfolding at_rest_def names_ok_def below_def b
    by (fastforce simp: mentioned_def split: file_name.splits)
  have "session_ok c d s'"
    using assms(1-3) unfolding at_rest_def session_ok_def lawful_def b
    by (simp add: w held_def inDoc_def readOut_def undelivered_def)
  with n b m show ?thesis by (simp add: w held_def)
qed

lemma idle_ok:
  assumes "at_rest c d s" and s': "s' = s\<lparr>writer := Idle\<rparr>"
  shows "session_ok c d s' \<and> names_ok d s' \<and> bound s' = seqNo s \<and> sid s' = sid s
    \<and> mentioned s' \<subseteq> set (seen s) \<and> removing (writer s') = {} \<and> held c s' = \<Union> (c ` set (pending s))"
  using assms by (simp add: at_rest_def mentioned_def held_def)

lemma afterPending_ok:
  assumes "lawful y c" "at_rest c d s" and s': "s' = afterPending y a s"
    and "startsCompaction (s\<lparr>writer := Idle\<rparr>) s' \<longrightarrow> undelivered s = []"
  shows "session_ok c d s' \<and> names_ok d s' \<and> bound s' = seqNo s \<and> sid s' = sid s
    \<and> mentioned s' \<subseteq> set (seen s) \<and> removing (writer s') = {} \<and> held c s' = \<Union> (c ` set (pending s))"
proof (cases "s' = s\<lparr>writer := Idle\<rparr>")
  case True
  then show ?thesis by (rule idle_ok [OF assms(2)])
next
  case False
  then have e: "s' = startCompacted y None s"
    using False unfolding s' afterPending_def by (auto split: option.splits if_splits)
  then have "undelivered s = []"
    using assms(4) by (simp add: startsCompaction_def startCompacted_def nextName_def)
  then show ?thesis using startCompacted_ok [OF assms(1,2) _ e] by blast
qed

lemma names_ok_own:
  "names_ok d s \<Longrightarrow> bound s \<le> k \<Longrightarrow> LogName (sid s) k e \<notin> dom (map_of d) \<union> mentioned s"
  by (force simp: names_ok_def below_def)

lemma idle_same: "writer s = Idle \<Longrightarrow> s\<lparr>writer := Idle\<rparr> = s"
  by (cases s) simp

lemma jobs_same [simp]:
  "bound (s\<lparr>jobs := later\<rparr>) = bound s" "held c (s\<lparr>jobs := later\<rparr>) = held c s"
  "inDoc c (s\<lparr>jobs := later\<rparr>) = inDoc c s" "undelivered (s\<lparr>jobs := later\<rparr>) = undelivered s"
  "readOut c (s\<lparr>jobs := later\<rparr>) = readOut c s" "mentioned (s\<lparr>jobs := later\<rparr>) = mentioned s"
  "below (s\<lparr>jobs := later\<rparr>) = below s"
  by (simp_all add: bound_def held_def inDoc_def undelivered_def readOut_def mentioned_def
      below_def [abs_def])

lemma jobs_ok [simp]:
  "session_ok c d (s\<lparr>jobs := later\<rparr>) = session_ok c d s" "names_ok d (s\<lparr>jobs := later\<rparr>) = names_ok d s"
  by (simp_all add: session_ok_def names_ok_def)

lemma jobs_starts [simp]: "startsCompaction (s\<lparr>jobs := later\<rparr>) s' = startsCompaction s s'"
  by (simp add: startsCompaction_def)

lemma at_rest_idle: "writer s = Idle \<Longrightarrow> session_ok c d s \<Longrightarrow> names_ok d s \<Longrightarrow> at_rest c d s"
  by (simp add: at_rest_def idle_same)

text \<open>A step that ends at rest or in a compaction, from a session that removes nothing.\<close>

lemma startPending_ok:
  assumes "lawful y c" "writer s = Idle" "session_ok c d s" "names_ok d s"
    and s': "s' = startPending y a s" and "startsCompaction s s' \<longrightarrow> undelivered s = []"
  shows "session_ok c d s' \<and> names_ok d s' \<and> bound s' = bound s \<and> sid s' = sid s
    \<and> mentioned s' \<subseteq> mentioned s \<and> removing (writer s') = {} \<and> held c s' = held c s"
proof (cases "pending s = []")
  case True
  have i: "s\<lparr>writer := Idle\<rparr> = s" using assms(2) by simp
  have "s' = afterPending y a s" using True s' by (simp add: startPending_def)
  from afterPending_ok [OF assms(1) at_rest_idle [OF assms(2-4)] this] assms(6)
  show ?thesis using assms(2) unfolding i by (simp add: bound_def mentioned_def held_def)
next
  case False
  let ?m = "case pending s of [u] \<Rightarrow> u | us \<Rightarrow> mergeUpdates y us"
  let ?n = "LogName (sid s) (seqNo s) UpdateExt"
  have m: "c ?m = \<Union> (c ` set (pending s))"
    using assms(1) False by (auto simp: lawful_def split: list.splits)
  have w: "s' = s\<lparr>pending := [], seqNo := Suc (seqNo s), seen := setAdd ?n (seen s),
      writer := WritingUpdate a ?n ?m\<rparr>"
    using False s' by (simp add: startPending_def nextName_def Let_def)
  have b: "bound s' = bound s" and b0: "bound s = seqNo s" using assms(2) by (simp_all add: w bound_def)
  have fresh: "?n \<notin> dom (map_of d)" using names_ok_own [OF assms(4)] b0 by auto
  have me: "mentioned s' \<subseteq> mentioned s" using assms(2) by (auto simp: w mentioned_def)
  have "names_ok d s'"
    using assms(4) me b unfolding names_ok_def below_def by (fastforce simp: w split: file_name.splits)
  moreover have "held c s' = held c s" using assms(2) by (simp add: w held_def m)
  moreover have "session_ok c d s'"
    using assms(2,3) fresh unfolding session_ok_def b b0
    by (auto simp: w held_def m inDoc_def readOut_def undelivered_def)
  ultimately show ?thesis using b me by (simp add: w)
qed

lemma startJob_step:
  assumes "lawful y c" "session_ok c d s" "names_ok d s" "startJob y s = Some s'"
    "startsCompaction s s' \<longrightarrow> undelivered s = []"
  shows "step_ok c d s d s'"
proof -
  obtain j later where w: "writer s = Idle" "jobs s = j # later"
    and s': "s' = startPending y (case j of FlushJob \<Rightarrow> None | CompactJob force \<Rightarrow> Some force) (s\<lparr>jobs := later\<rparr>)"
    using assms(4) by (auto simp: startJob_def split: writer.splits list.splits)
  let ?s = "s\<lparr>jobs := later\<rparr>"
  have "session_ok c d ?s" "names_ok d ?s"
    using assms(2,3) by simp_all
  moreover have "startsCompaction ?s s' \<longrightarrow> undelivered ?s = []"
    using assms(5) by simp
  ultimately have r: "session_ok c d s' \<and> names_ok d s' \<and> bound s' = bound ?s \<and> sid s' = sid ?s
    \<and> mentioned s' \<subseteq> mentioned ?s \<and> removing (writer s') = {} \<and> held c s' = held c ?s"
    by (intro startPending_ok [OF assms(1) _ _ _ s']) (simp_all add: w)
  have "bound ?s = bound s" "mentioned ?s = mentioned s" "held c ?s = held c s" "removing (writer s) = {}"
    by (simp_all add: w bound_def mentioned_def held_def)
  with r show ?thesis unfolding step_ok_def by auto
qed

text \<open>A step that leaves the disk, the writer and the names as they are.\<close>

lemma quiet_step:
  assumes "session_ok c d s" "names_ok d s"
    and "sid s' = sid s" "writer s' = writer s" "seqNo s' = seqNo s"
    and "\<And>n u. n \<in> set (seen s') \<Longrightarrow> map_of d n = Some u \<Longrightarrow>
      n \<in> set (seen s) \<or> c u \<subseteq> inDoc c s' \<union> readOut c s'"
    and "inDoc c s \<union> readOut c s \<subseteq> inDoc c s' \<union> readOut c s'" "inDoc c s \<subseteq> inDoc c s'"
    and "set (seen s') \<subseteq> set (seen s) \<union> dom (map_of d)"
    and "held c s \<subseteq> held c s'" "held c s' \<subseteq> inDoc c s'"
  shows "step_ok c d s d s'"
proof -
  have b: "bound s' = bound s" by (simp add: bound_def assms)
  have m: "mentioned s' \<subseteq> mentioned s \<union> dom (map_of d)"
    using assms(4,9) by (auto simp: mentioned_def)
  have "names_ok d s'"
    using assms(2,3) m b unfolding names_ok_def below_def by (fastforce split: file_name.splits)
  moreover have "session_ok c d s'"
    using assms(1,3-8,11) unfolding session_ok_def b by (simp add: subset_iff) blast
  ultimately show ?thesis
    unfolding step_ok_def using m b assms(3,4,10) by (auto simp: onDisk_def)
qed

lemma readOut_Cons: "readOut c (s\<lparr>readers := rs\<rparr>) = \<Union> (c ` set (concat (map rdOut rs)))"
  by (simp add: readOut_def undelivered_def)

lemma readers_same [simp]:
  "inDoc c (s\<lparr>readers := rs\<rparr>) = inDoc c s" "held c (s\<lparr>readers := rs\<rparr>) = held c s"
  "inDoc c (s\<lparr>seen := ns\<rparr>) = inDoc c s" "held c (s\<lparr>seen := ns\<rparr>) = held c s"
  by (simp_all add: inDoc_def held_def)

lemma set_concat_update:
  "i < length rs \<Longrightarrow> rdOut r = rdOut (rs ! i) \<Longrightarrow>
     set (concat (map rdOut (rs[i := r]))) = set (concat (map rdOut rs))"
  using list_update_id [of "map rdOut rs" i] by (simp add: map_update)

lemma set_concat_snoc:
  assumes "i < length rs" "rdOut r = rdOut (rs ! i) @ [u]"
  shows "set (concat (map rdOut (rs[i := r]))) = insert u (set (concat (map rdOut rs)))"
proof -
  have "rs[i := r] = take i rs @ r # drop (Suc i) rs" using assms(1) by (rule upd_conv_take_nth_drop)
  moreover have "rs = take i rs @ rs ! i # drop (Suc i) rs" using assms(1) by (rule id_take_nth_drop)
  then have "map rdOut rs = map rdOut (take i rs) @ rdOut (rs ! i) # map rdOut (drop (Suc i) rs)"
    by (metis list.simps(9) map_append)
  ultimately show ?thesis using assms(2) by simp
qed

lemma quiet_steps:
  assumes "session_ok c d s" "names_ok d s"
  shows edit_step: "step_ok c d s d (appendUpdate u (s\<lparr>applied := applied s @ [u]\<rparr>))"
    and flush_step: "step_ok c d s d (flushLog s)"
    and compact_step: "step_ok c d s d (compactLog force s)"
    and dispose_step: "step_ok c d s d (disposeLog s)"
    and startRead_step: "step_ok c d s d (startRead d s)"
proof -
  have h: "held c s \<subseteq> inDoc c s" using assms(1) by (simp add: session_ok_def)
  show "step_ok c d s d (appendUpdate u (s\<lparr>applied := applied s @ [u]\<rparr>))"
    using h by (cases "isDisposed s"; intro quiet_step [OF assms])
      (auto simp: appendUpdate_def held_def inDoc_def readOut_def undelivered_def)
  show "step_ok c d s d (flushLog s)" "step_ok c d s d (compactLog force s)" "step_ok c d s d (disposeLog s)"
    using h by (intro quiet_step [OF assms];
      simp add: flushLog_def compactLog_def disposeLog_def held_def inDoc_def readOut_def undelivered_def)+
  show "step_ok c d s d (startRead d s)"
    using h by (intro quiet_step [OF assms])
      (simp_all add: startRead_def held_def inDoc_def readOut_def undelivered_def)
qed

lemma readNext_step:
  assumes "session_ok c d s" "names_ok d s" "readNext i s = Some s'"
  shows "step_ok c d s d s'"
proof -
  have h: "held c s \<subseteq> inDoc c s" using assms(1) by (simp add: session_ok_def)
  obtain n ns where i: "i < length (readers s)" and n: "rdAsked (readers s ! i) = None"
      "rdNames (readers s ! i) = n # ns"
    using assms(3) by (auto simp: readNext_def Let_def split: if_splits option.splits list.splits)
  let ?r = "(readers s ! i)\<lparr>rdNames := ns,
      rdAsked := if \<not> isLogFile n \<or> n \<in> set (seen s) then None else Some n\<rparr>"
  have s': "s' = s\<lparr>readers := (readers s)[i := ?r]\<rparr>"
    using assms(3) i n by (simp add: readNext_def Let_def)
  have "readOut c s' = readOut c s"
    unfolding s' readOut_Cons by (subst set_concat_update [OF i]) (simp_all add: readOut_def undelivered_def)
  with h show ?thesis by (intro quiet_step [OF assms(1,2)]) (simp_all add: s')
qed

lemma readDone_step:
  assumes "session_ok c d s" "names_ok d s" "readDone i d s = Some s'"
  shows "step_ok c d s d s'"
proof -
  have h: "held c s \<subseteq> inDoc c s" using assms(1) by (simp add: session_ok_def)
  obtain n where i: "i < length (readers s)" and n: "rdAsked (readers s ! i) = Some n"
    using assms(3) by (auto simp: readDone_def Let_def split: if_splits option.splits)
  show ?thesis
  proof (cases "map_of d n")
    case None
    let ?r = "(readers s ! i)\<lparr>rdAsked := None\<rparr>"
    have s': "s' = s\<lparr>readers := (readers s)[i := ?r]\<rparr>"
      using assms(3) i n None by (simp add: readDone_def Let_def)
    have "readOut c s' = readOut c s"
      unfolding s' readOut_Cons by (subst set_concat_update [OF i]) (simp_all add: readOut_def undelivered_def)
    with h show ?thesis by (intro quiet_step [OF assms(1,2)]) (simp_all add: s')
  next
    case (Some u)
    let ?r = "(readers s ! i)\<lparr>rdAsked := None, rdOut := rdOut (readers s ! i) @ [u]\<rparr>"
    have s': "s' = s\<lparr>seen := setAdd n (seen s), readers := (readers s)[i := ?r]\<rparr>"
      using assms(3) i n Some by (simp add: readDone_def Let_def)
    have "readOut c s' = c u \<union> readOut c s"
      unfolding s' readOut_Cons by (subst set_concat_snoc [OF i, of _ u]) (simp_all add: readOut_def undelivered_def)
    with h Some show ?thesis by (intro quiet_step [OF assms(1,2)]) (auto simp: s')
  qed
qed

lemma deliver_step:
  assumes "session_ok c d s" "names_ok d s" "deliver i s = Some s'"
  shows "step_ok c d s d s'"
proof -
  have h: "held c s \<subseteq> inDoc c s" using assms(1) by (simp add: session_ok_def)
  let ?o = "rdOut (readers s ! i)"
  have i: "i < length (readers s)"
    and s': "s' = s\<lparr>applied := applied s @ ?o, readers := take i (readers s) @ drop (Suc i) (readers s)\<rparr>"
    using assms(3) by (auto simp: deliver_def split: if_splits)
  have d: "inDoc c s' = inDoc c s \<union> \<Union> (c ` set ?o)" by (simp add: s' inDoc_def)
  have "readers s = take i (readers s) @ readers s ! i # drop (Suc i) (readers s)"
    using i by (rule id_take_nth_drop)
  then have "concat (map rdOut (readers s)) = concat (map rdOut (take i (readers s))) @ ?o
      @ concat (map rdOut (drop (Suc i) (readers s)))"
    by (metis concat.simps(2) concat_append list.simps(9) map_append)
  then have "readOut c s = readOut c s' \<union> \<Union> (c ` set ?o)"
    by (auto simp: s' readOut_def undelivered_def)
  moreover have "held c s' = held c s" by (simp add: s' held_def)
  ultimately show ?thesis using h d
    by (intro quiet_step [OF assms(1,2)]) (auto simp: s')
qed

text \<open>The steps that end a write or a removal.\<close>

lemma new_state_name:
  "writesState (writer (startCompacted y a s)) \<Longrightarrow>
     writingName (writer (startCompacted y a s)) = Some (LogName (sid s) (seqNo s) StateExt)"
  "writesState (writer (afterPending y a s)) \<Longrightarrow>
     writingName (writer (afterPending y a s)) = Some (LogName (sid s) (seqNo s) StateExt)"
  "writesState (writer (startRemoving y a old s)) \<Longrightarrow>
     writingName (writer (startRemoving y a old s)) = Some (LogName (sid s) (seqNo s) StateExt)"
  by (auto simp: startRemoving_def afterPending_def startCompacted_def nextName_def
      split: option.splits list.splits if_splits)

lemma onDiskI: "map_of d n = Some u \<Longrightarrow> n \<notin> r \<Longrightarrow> c u \<subseteq> onDisk c d r"
  by (auto simp: onDisk_def)

lemma onDisk_subI:
  "(\<And>n u. map_of d n = Some u \<Longrightarrow> n \<notin> r \<Longrightarrow> c u \<subseteq> X) \<Longrightarrow> onDisk c d r \<subseteq> X"
  by (auto simp: onDisk_def)

lemma onDisk_update:
  assumes "n \<notin> dom (map_of d)"
  shows "onDisk c d r \<subseteq> onDisk c (AList.update n u d) r"
proof (rule onDisk_subI)
  fix m v
  assume "map_of d m = Some v" "m \<notin> r"
  then show "c v \<subseteq> onDisk c (AList.update n u d) r"
    using assms by (intro onDiskI [of _ m]) (auto simp: update_conv')
qed

lemma seen_in_doc:
  "session_ok c d s \<Longrightarrow> n \<in> set (seen s) \<Longrightarrow> map_of d n = Some u \<Longrightarrow> c u \<subseteq> inDoc c s \<union> readOut c s"
  unfolding session_ok_def by blast

lemma rest_after_write:
  assumes "session_ok c d s" "names_ok d s" "writingName (writer s) = Some n" "c u \<subseteq> inDoc c s"
    and "set ns \<subseteq> insert n (set (seen s))"
  shows "at_rest c (AList.update n u d) (s\<lparr>seen := ns\<rparr>)"
proof -
  let ?t = "s\<lparr>seen := ns, writer := Idle\<rparr>"
  obtain e where n: "n = LogName (sid s) (bound s) e" and p: "0 < seqNo s"
    using assms(1,3) unfolding session_ok_def by blast
  have b: "bound s < seqNo s" using assms(3) p by (simp add: bound_def)
  have "below ?t m" if "m \<in> dom (map_of (AList.update n u d)) \<union> mentioned ?t" for m
  proof (cases "m = n")
    case True
    then show ?thesis using b n by (simp add: below_def bound_def)
  next
    case False
    then have "m \<in> dom (map_of d) \<union> mentioned s"
      using that assms(3,5) by (auto simp: update_conv' mentioned_def)
    then have "below s m" using assms(2) by (simp add: names_ok_def)
    then show ?thesis using b by (auto simp: below_def bound_def split: file_name.splits)
  qed
  then have "names_ok (AList.update n u d) ?t" by (simp add: names_ok_def)
  moreover have "held c ?t \<subseteq> inDoc c ?t"
    using assms(1) by (auto simp: session_ok_def held_def inDoc_def)
  moreover have "c v \<subseteq> inDoc c ?t \<union> readOut c ?t"
    if "m \<in> set ns" "map_of (AList.update n u d) m = Some v" for m v
  proof -
    have "m \<in> set (seen s) \<and> map_of d m = Some v \<or> v = u"
      using that assms(5) by (auto simp: update_conv' split: if_splits)
    moreover have "inDoc c ?t = inDoc c s" "readOut c ?t = readOut c s"
      by (simp_all add: inDoc_def readOut_def undelivered_def)
    ultimately show ?thesis using assms(4) seen_in_doc [OF assms(1), of m v] by auto
  qed
  ultimately show ?thesis by (simp add: at_rest_def session_ok_def)
qed

lemma startRemoving_ok:
  assumes "lawful y c" "at_rest c d s" and old: "\<And>n. n \<in> set old \<Longrightarrow> below (s\<lparr>writer := Idle\<rparr>) n"
    and s': "s' = startRemoving y a old s" and "startsCompaction (s\<lparr>writer := Idle\<rparr>) s' \<longrightarrow> undelivered s = []"
  shows "session_ok c d s' \<and> names_ok d s' \<and> bound s' = seqNo s \<and> sid s' = sid s
    \<and> mentioned s' \<subseteq> set (seen s) \<union> set old \<and> removing (writer s') = set old
    \<and> held c s' = \<Union> (c ` set (pending s))"
proof (cases old)
  case Nil
  then have "s' = afterPending y a s" using s' by (simp add: startRemoving_def)
  from afterPending_ok [OF assms(1,2) this assms(5)] Nil show ?thesis by simp
next
  case (Cons f fs)
  then have w: "s' = s\<lparr>seen := removeAll f (seen s), writer := Removing a old\<rparr>"
    using s' by (simp add: startRemoving_def)
  have m: "mentioned s' \<subseteq> set (seen s) \<union> set old" by (auto simp: w mentioned_def)
  have be: "below s' = below (s\<lparr>writer := Idle\<rparr>)" by (simp add: w below_def [abs_def] bound_def)
  have "names_ok d s'"
    using assms(2) m old unfolding names_ok_def at_rest_def be by (auto simp: mentioned_def)
  moreover have "session_ok c d s'"
    using assms(2) unfolding at_rest_def session_ok_def
    by (auto simp: w held_def inDoc_def readOut_def undelivered_def)
  ultimately show ?thesis using m by (simp add: w bound_def held_def)
qed

lemma inFlight_step:
  assumes "session_ok c d s" "names_ok d s" "writingName (writer s) = Some n"
  shows "n \<notin> dom (map_of d)" "n \<notin> mentioned s" "bound s < seqNo s"
proof -
  obtain e where n: "n = LogName (sid s) (bound s) e" and p: "0 < seqNo s"
    using assms(1,3) unfolding session_ok_def by blast
  show "n \<notin> dom (map_of d)" "n \<notin> mentioned s"
    unfolding n using names_ok_own [OF assms(2), of "bound s" e] by simp_all
  show "bound s < seqNo s" using assms(3) p by (simp add: bound_def)
qed

lemma writeUpdate_step:
  assumes "lawful y c" "session_ok c d s" "names_ok d s" and w: "writer s = WritingUpdate a n u"
    and s': "s' = (if compactAfter \<le> length (seen s) then startCompacted y a s else afterPending y a s)"
    and c: "startsCompaction s s' \<longrightarrow> undelivered s = []"
  shows "step_ok c d s (AList.update n u d) s'"
proof -
  let ?d = "AList.update n u d"
  have n: "writingName (writer s) = Some n" by (simp add: w)
  have u: "c u \<subseteq> inDoc c s" using assms(2) by (auto simp: session_ok_def held_def w)
  have rest: "at_rest c ?d s"
    using rest_after_write [OF assms(2,3) n u, of "seen s"] by (simp add: subset_insertI)
  have new: "n \<notin> dom (map_of d)" "bound s < seqNo s" using inFlight_step [OF assms(2,3) n] by simp_all
  have "writingName (writer s) \<noteq> Some (LogName (sid s) (seqNo s) StateExt)"
    using assms(2) n new(2) unfolding session_ok_def by fastforce
  then have st: "writesState (writer s') \<longrightarrow> undelivered s = []"
    using c new_state_name(1,2) [of y a s] unfolding startsCompaction_def s' by (simp split: if_splits)
  have r: "session_ok c ?d s' \<and> names_ok ?d s' \<and> bound s' = seqNo s \<and> sid s' = sid s
    \<and> mentioned s' \<subseteq> set (seen s) \<and> removing (writer s') = {} \<and> held c s' = \<Union> (c ` set (pending s))"
  proof (cases "compactAfter \<le> length (seen s)")
    case True
    then have e: "s' = startCompacted y a s" using s' by simp
    then have "undelivered s = []"
      using st by (simp add: startCompacted_def nextName_def)
    then show ?thesis by (rule startCompacted_ok [OF assms(1) rest _ e])
  next
    case False
    then have e: "s' = afterPending y a s" using s' by simp
    show ?thesis using st by (intro afterPending_ok [OF assms(1) rest e]) (simp add: startsCompaction_def)
  qed
  have "mentioned s' \<subseteq> insert n (mentioned s)" using r by (auto simp: mentioned_def w)
  moreover have "onDisk c d rs \<union> held c s \<subseteq> onDisk c ?d rs \<union> held c s'" if "n \<notin> rs" for rs
  proof -
    have "c u \<subseteq> onDisk c ?d rs" using that by (intro onDiskI [of _ n]) (simp_all add: update_conv')
    then show ?thesis using r onDisk_update [OF new(1), of c rs u] by (auto simp: held_def w)
  qed
  ultimately show ?thesis using r new unfolding step_ok_def by (auto simp: w update_conv')
qed

lemma writeState_step:
  assumes "lawful y c" "session_ok c d s" "names_ok d s" and w: "writer s = WritingState a n old u"
    and s': "s' = startRemoving y a old (s\<lparr>seen := setAdd n (seen s)\<rparr>)"
    and c: "startsCompaction s s' \<longrightarrow> undelivered s = []"
  shows "step_ok c d s (AList.update n u d) s'"
proof -
  let ?d = "AList.update n u d" and ?s = "s\<lparr>seen := setAdd n (seen s)\<rparr>"
  have n: "writingName (writer s) = Some n" by (simp add: w)
  have u: "c u \<subseteq> inDoc c s" and cov: "\<And>f v. f \<in> set old \<Longrightarrow> map_of d f = Some v \<Longrightarrow> c v \<subseteq> c u"
    using assms(2) w unfolding session_ok_def by blast+
  have rest: "at_rest c ?d ?s" by (rule rest_after_write [OF assms(2,3) n u]) auto
  have new: "n \<notin> dom (map_of d)" "n \<notin> mentioned s" "bound s < seqNo s"
    using inFlight_step [OF assms(2,3) n] by simp_all
  have "writingName (writer s) \<noteq> Some (LogName (sid s) (seqNo s) StateExt)"
    using assms(2) n new(3) unfolding session_ok_def by fastforce
  then have st: "writesState (writer s') \<longrightarrow> undelivered s = []"
    using c new_state_name(3) [of y a old ?s] unfolding startsCompaction_def s' by auto
  have old: "set old \<subseteq> mentioned s" by (simp add: mentioned_def w)
  have be: "below (?s\<lparr>writer := Idle\<rparr>) f" if "f \<in> set old" for f
  proof -
    have "below s f" using that old assms(3) by (auto simp: names_ok_def)
    then show ?thesis using new(3) by (auto simp: below_def bound_def split: file_name.splits)
  qed
  have r: "session_ok c ?d s' \<and> names_ok ?d s' \<and> bound s' = seqNo s \<and> sid s' = sid s
    \<and> mentioned s' \<subseteq> insert n (set (seen s)) \<union> set old \<and> removing (writer s') = set old
    \<and> held c s' = \<Union> (c ` set (pending s))"
    using startRemoving_ok [OF assms(1) rest be s'] st by (simp add: startsCompaction_def undelivered_def)
  have "mentioned s' \<subseteq> insert n (mentioned s)" using r old by (auto simp: mentioned_def w)
  moreover have "onDisk c d rs \<union> held c s \<subseteq> onDisk c ?d (rs \<union> set old) \<union> held c s'" if "n \<notin> rs" for rs
  proof -
    have "n \<notin> rs \<union> set old" using that old new(2) by auto
    then have cu: "c u \<subseteq> onDisk c ?d (rs \<union> set old)"
      by (intro onDiskI [of _ n]) (simp_all add: update_conv')
    have "onDisk c d rs \<subseteq> onDisk c ?d (rs \<union> set old)"
    proof (rule onDisk_subI)
      fix m v
      assume m: "map_of d m = Some v" "m \<notin> rs"
      show "c v \<subseteq> onDisk c ?d (rs \<union> set old)"
      proof (cases "m \<in> set old")
        case True
        then show ?thesis using cov m(1) cu by blast
      next
        case False
        then show ?thesis using m new(1) by (intro onDiskI [of _ m]) (auto simp: update_conv')
      qed
    qed
    with cu show ?thesis using r by (auto simp: held_def w)
  qed
  ultimately show ?thesis using r new unfolding step_ok_def by (auto simp: w update_conv')
qed

lemma writeDone_step:
  assumes "lawful y c" "session_ok c d s" "names_ok d s" "writeDone y d s = Some (d', s')"
    "startsCompaction s s' \<longrightarrow> undelivered s = []"
  shows "step_ok c d s d' s'"
proof (cases "writer s")
  case (WritingUpdate a n u)
  then show ?thesis using assms(4) writeUpdate_step [OF assms(1-3) WritingUpdate _ assms(5)]
    by (auto simp: writeDone_def)
next
  case (WritingState a n old u)
  then show ?thesis using assms(4) writeState_step [OF assms(1-3) WritingState _ assms(5)]
    by (auto simp: writeDone_def)
qed (use assms(4) in \<open>simp_all add: writeDone_def\<close>)

lemma removeDone_step:
  assumes "lawful y c" "session_ok c d s" "names_ok d s" "removeDone y ok d s = Some (d', s')"
    "startsCompaction s s' \<longrightarrow> undelivered s = []"
  shows "step_ok c d s d' s'"
proof -
  obtain a f fs where w: "writer s = Removing a (f # fs)"
    and d': "d' = (if ok then AList.delete f d else d)" and s': "s' = startRemoving y a fs s"
    using assms(4) by (auto simp: removeDone_def split: writer.splits list.splits)
  have sub: "map_of d' n = Some u \<Longrightarrow> map_of d n = Some u" for n u
    by (auto simp: d' delete_conv' split: if_splits)
  have b: "bound s = seqNo s" by (simp add: bound_def w)
  have be: "below (s\<lparr>writer := Idle\<rparr>) = below s" by (simp add: below_def [abs_def] b)
  have rest: "at_rest c d' s"
    using assms(2,3) sub unfolding at_rest_def session_ok_def names_ok_def be
    by (auto simp: mentioned_def held_def w inDoc_def readOut_def undelivered_def dest!: sub)
  have old: "\<And>n. n \<in> set fs \<Longrightarrow> below (s\<lparr>writer := Idle\<rparr>) n"
    using assms(3) by (auto simp: be names_ok_def mentioned_def w)
  have r: "session_ok c d' s' \<and> names_ok d' s' \<and> bound s' = seqNo s \<and> sid s' = sid s
    \<and> mentioned s' \<subseteq> set (seen s) \<union> set fs \<and> removing (writer s') = set fs
    \<and> held c s' = \<Union> (c ` set (pending s))"
    by (rule startRemoving_ok [OF assms(1) rest old s'])
      (use assms(5) in \<open>simp_all add: startsCompaction_def w\<close>)
  have "onDisk c d (rs \<union> set (f # fs)) \<subseteq> onDisk c d' (rs \<union> set fs)" for rs
    by (rule onDisk_subI, rule onDiskI) (auto simp: d' delete_conv')
  moreover have "mentioned s' \<subseteq> mentioned s" using r by (auto simp: mentioned_def w)
  ultimately show ?thesis using r b sub unfolding step_ok_def by (auto simp: w held_def)
qed

lemma idle_session_ok:
  assumes "session_ok c d s" "writer s' = Idle" "set (seen s') \<subseteq> set (seen s)"
    and "inDoc c s' = inDoc c s" "readOut c s' = readOut c s" "held c s' \<subseteq> held c s"
  shows "session_ok c d s'"
proof -
  have "held c s \<subseteq> inDoc c s" using assms(1) by (simp add: session_ok_def)
  then have "held c s' \<subseteq> inDoc c s'" using assms(4,6) by blast
  moreover have "c u \<subseteq> inDoc c s' \<union> readOut c s'" if "n \<in> set (seen s')" "map_of d n = Some u" for n u
    using seen_in_doc [OF assms(1) _ that(2)] that(1) assms(3-5) by auto
  ultimately show ?thesis using assms(2) by (simp add: session_ok_def)
qed

lemma writeFailed_step:
  assumes "session_ok c d s" "names_ok d s" "writeFailed s = Some s'"
  shows "step_ok c d s d s'"
proof -
  obtain n where n: "writingName (writer s) = Some n"
    using assms(3) by (cases "writer s") (simp_all add: writeFailed_def)
  have w: "writer s' = Idle" "sid s' = sid s" "seqNo s' = seqNo s" "set (seen s') \<subseteq> set (seen s)"
    and e: "inDoc c s' = inDoc c s" "readOut c s' = readOut c s" "held c s' = held c s"
    and m: "mentioned s' \<subseteq> insert n (mentioned s)" and rm: "removing (writer s) = {}"
    using assms(3) n by (cases "writer s"; force simp: writeFailed_def inDoc_def readOut_def
        undelivered_def held_def mentioned_def)+
  have b: "bound s < bound s'" using inFlight_step(3) [OF assms(1,2) n] w by (simp add: bound_def)
  have k: "below s' n" using assms(1) n b unfolding session_ok_def by (auto simp: below_def w)
  have "below s' x" if "below s x" for x
    using that b by (auto simp: below_def w split: file_name.splits)
  then have "names_ok d s'" using assms(2) m k unfolding names_ok_def by auto
  moreover have "session_ok c d s'" using w e by (intro idle_session_ok [OF assms(1)]) simp_all
  ultimately show ?thesis using m b n w e rm unfolding step_ok_def by auto
qed

text \<open>Every step of a session but the removal of its folder, when no compaction starts while
  something that was read is not in the document.\<close>

lemma sessionStep_ok:
  assumes "lawful y c" "session_ok c d s" "names_ok d s" "sessionStep y e (d, s) = Some (d', s')"
    "e \<noteq> RemoveFolder" "startsCompaction s s' \<longrightarrow> undelivered s = []"
  shows "step_ok c d s d' s'"
proof -
  note st = assms(4) and inv = assms(2,3)
  show ?thesis
  proof (cases e)
    case (Edit u) then show ?thesis using st edit_step [OF inv] by auto
  next
    case TimerFires then show ?thesis using st flush_step [OF inv] by (auto split: if_splits)
  next
    case CallFlush then show ?thesis using st flush_step [OF inv] by auto
  next
    case (CallCompact f) then show ?thesis using st compact_step [OF inv] by auto
  next
    case StartJob then show ?thesis using st startJob_step [OF assms(1) inv _ assms(6)] by auto
  next
    case WriteOk then show ?thesis using st writeDone_step [OF assms(1) inv _ assms(6)] by simp
  next
    case WriteFails then show ?thesis using st writeFailed_step [OF inv] by auto
  next
    case (RemoveEnds ok) then show ?thesis using st removeDone_step [OF assms(1) inv _ assms(6)] by simp
  next
    case StartRead then show ?thesis using st startRead_step [OF inv] by auto
  next
    case (ReadNext i) then show ?thesis using st readNext_step [OF inv] by auto
  next
    case (ReadEnds i) then show ?thesis using st readDone_step [OF inv] by auto
  next
    case (Deliver i) then show ?thesis using st deliver_step [OF inv] by auto
  next
    case Dispose then show ?thesis using st dispose_step [OF inv] by auto
  next
    case RemoveFolder then show ?thesis using assms(5) by simp
  qed
qed

section \<open>The sessions of a folder\<close>

definition folder_ok :: "('u \<Rightarrow> 'c set) \<Rightarrow> 'u folder \<Rightarrow> bool" where
  "folder_ok c w \<longleftrightarrow> distinct (map sid (snd w))
     \<and> (\<forall>j < length (snd w). session_ok c (fst w) (snd w ! j)
          \<and> (\<forall>n \<in> dom (map_of (fst w)) \<union> (\<Union>k < length (snd w). mentioned (snd w ! k)). below (snd w ! j) n))"

lemma kept_nth:
  "kept c (d, ss) = onDisk c d (\<Union>k < length ss. removing (writer (ss ! k))) \<union> (\<Union>k < length ss. held c (ss ! k))"
proof -
  have "set ss = (\<lambda>k. ss ! k) ` {..<length ss}" by (auto simp: set_conv_nth)
  then show ?thesis by (simp add: kept_def image_image)
qed

lemma removing_mentioned: "removing (writer s) \<subseteq> mentioned s"
  by (cases "writer s") (auto simp: mentioned_def)

lemma writing_form:
  "session_ok c d s \<Longrightarrow> writingName (writer s) = Some n \<Longrightarrow> \<exists>e. n = LogName (sid s) (bound s) e"
  unfolding session_ok_def by blast

lemma writing_not_below:
  "session_ok c d s \<Longrightarrow> writingName (writer s) = Some n \<Longrightarrow> \<not> below s n"
  by (auto simp: session_ok_def below_def)

lemma session_ok_sub:
  assumes "session_ok c d t"
    and "\<And>m u. map_of d' m = Some u \<Longrightarrow> m \<in> set (seen t) \<union> oldNames (writer t) \<Longrightarrow> map_of d m = Some u"
  shows "session_ok c d' t"
proof -
  have "c u \<subseteq> inDoc c t \<union> readOut c t" if "n \<in> set (seen t)" "map_of d' n = Some u" for n u
    using seen_in_doc [OF assms(1) that(1)] assms(2) [OF that(2)] that(1) by blast
  moreover have "held c t \<subseteq> inDoc c t"
    "\<And>n. writingName (writer t) = Some n \<Longrightarrow> 0 < seqNo t \<and> (\<exists>e. n = LogName (sid t) (bound t) e)"
    using assms(1) unfolding session_ok_def by blast+
  moreover have "c st \<subseteq> inDoc c t \<and> (\<forall>f \<in> set old. \<forall>u. map_of d' f = Some u \<longrightarrow> c u \<subseteq> c st)"
    if w: "writer t = WritingState a n old st" for a n old st
  proof -
    have "set old = oldNames (writer t)" by (simp add: w)
    then show ?thesis using assms(1) w assms(2) unfolding session_ok_def by blast
  qed
  ultimately show ?thesis unfolding session_ok_def by blast
qed

lemma other_session_ok:
  assumes "session_ok c d t" "sid s \<noteq> sid t" "session_ok c d s" "\<And>m. m \<in> mentioned t \<Longrightarrow> below s m"
    and new: "\<And>m u. map_of d' m = Some u \<Longrightarrow> map_of d m = Some u \<or> writingName (writer s) = Some m"
  shows "session_ok c d' t"
proof -
  have old: "map_of d m = Some u"
    if "map_of d' m = Some u" "m \<in> set (seen t) \<union> oldNames (writer t)" for m u
  proof (rule ccontr)
    assume "map_of d m \<noteq> Some u"
    then have w: "writingName (writer s) = Some m" using new that(1) by blast
    then have "m \<notin> mentioned t" using assms(4) writing_not_below [OF assms(3)] by blast
    then have "writingName (writer t) = Some m" using that(2) by (auto simp: mentioned_def)
    then have "\<exists>e. m = LogName (sid t) (bound t) e" using assms(1) unfolding session_ok_def by blast
    moreover have "\<exists>e. m = LogName (sid s) (bound s) e" using w assms(3) unfolding session_ok_def by blast
    ultimately have "sid t = sid s" by auto
    then show False using assms(2) by simp
  qed
  show ?thesis by (rule session_ok_sub [OF assms(1) old])
qed

lemma below_mono:
  "below s n \<Longrightarrow> sid s' = sid s \<Longrightarrow> bound s \<le> bound s' \<Longrightarrow> below s' n"
  by (auto simp: below_def split: file_name.splits)

lemma UN_update:
  assumes "i < length ss"
  shows "(\<Union>k < length ss. f (ss[i := s'] ! k)) = (\<Union>k \<in> {..<length ss} - {i}. f (ss ! k)) \<union> f s'"
  using assms by (auto simp: nth_list_update split: if_splits)

lemma UN_split:
  "i < length ss \<Longrightarrow>
     (\<Union>k < length ss. f (ss ! k)) = (\<Union>k \<in> {..<length ss} - {i}. f (ss ! k)) \<union> f (ss ! i)"
  using UN_update [of i ss f "ss ! i"] by simp

lemma Un_frame: "A \<union> h \<subseteq> B \<union> h' \<Longrightarrow> A \<union> (H \<union> h) \<subseteq> B \<union> (H \<union> h')"
  by blast

lemma folderStep_ok:
  assumes "lawful y c" and ok: "folder_ok c (d, ss)" and st: "folderStep y (i, e) (d, ss) = Some (d', ss')"
    and "e \<noteq> RemoveFolder" "startsCompaction (ss ! i) (ss' ! i) \<longrightarrow> undelivered (ss ! i) = []"
  shows "folder_ok c (d', ss')" "kept c (d, ss) \<subseteq> kept c (d', ss')"
proof -
  let ?s = "ss ! i"
  obtain s' where i: "i < length ss" and s: "sessionStep y e (d, ?s) = Some (d', s')" and ss': "ss' = ss[i := s']"
    using st by (auto simp: folderStep_def split: if_splits option.splits)
  have inv: "\<And>j. j < length ss \<Longrightarrow> session_ok c d (ss ! j)"
    and be: "\<And>j n. j < length ss \<Longrightarrow> n \<in> dom (map_of d) \<Longrightarrow> below (ss ! j) n"
    and bm: "\<And>j k n. j < length ss \<Longrightarrow> k < length ss \<Longrightarrow> n \<in> mentioned (ss ! k) \<Longrightarrow> below (ss ! j) n"
    and dist: "distinct (map sid ss)"
    using ok by (auto simp: folder_ok_def)
  have "names_ok d ?s" using be [OF i] bm [OF i i] by (auto simp: names_ok_def)
  then have so: "step_ok c d ?s d' s'"
    using sessionStep_ok [OF assms(1) inv [OF i] _ s assms(4)] assms(5) i by (simp add: ss')
  have sid: "sid s' = sid ?s" and bo: "bound ?s \<le> bound s'" and ok': "session_ok c d' s'" "names_ok d' s'"
    and men: "\<And>n. n \<in> mentioned s' \<Longrightarrow> n \<in> mentioned ?s \<union> dom (map_of d) \<or> writingName (writer ?s) = Some n"
    and new: "\<And>n u. map_of d' n = Some u \<Longrightarrow> map_of d n = Some u \<or> writingName (writer ?s) = Some n"
    and kp: "\<And>r. r \<inter> set_option (writingName (writer ?s)) = {} \<Longrightarrow>
      onDisk c d (r \<union> removing (writer ?s)) \<union> held c ?s \<subseteq> onDisk c d' (r \<union> removing (writer s')) \<union> held c s'"
    using so by (simp_all add: step_ok_def)
  have ne: "sid ?s \<noteq> sid (ss ! j)" if "j < length ss" "j \<noteq> i" for j
    using nth_eq_iff_index_eq [OF dist, of i j] i that by simp
  have wn: "below (ss ! j) n" if "writingName (writer ?s) = Some n" "j < length ss" "j \<noteq> i" for j n
    using ne [OF that(2,3)] writing_form [OF inv [OF i] that(1)] by (auto simp: below_def)
  have ot: "session_ok c d' (ss ! j)" if "j < length ss" "j \<noteq> i" for j
    by (rule other_session_ok [OF inv [OF that(1)] ne [OF that] inv [OF i] bm [OF i that(1)] new])
  have all: "below (ss' ! j) n" if j: "j < length ss" and n: "n \<in> dom (map_of d') \<or> (\<exists>k < length ss. n \<in> mentioned (ss' ! k))" for j n
  proof (cases "n \<in> dom (map_of d') \<union> mentioned s'")
    case True
    show ?thesis
    proof (cases "j = i")
      case True
      then show ?thesis using ok'(2) \<open>n \<in> dom (map_of d') \<union> mentioned s'\<close> i by (simp add: ss' names_ok_def)
    next
      case False
      have "n \<in> mentioned ?s \<union> dom (map_of d) \<or> writingName (writer ?s) = Some n"
        using True men new by blast
      then show ?thesis using False j be [OF j] bm [OF j i] wn [OF _ j False] by (auto simp: ss')
    qed
  next
    case False
    then obtain k where k: "k < length ss" "k \<noteq> i" "n \<in> mentioned (ss ! k)"
      using n i by (auto simp: ss' nth_list_update split: if_splits)
    show ?thesis
      using bm [OF j k(1,3)] below_mono [OF _ sid bo] i by (cases "j = i") (simp_all add: ss')
  qed
  have "map sid ss' = map sid ss"
    using i sid list_update_id [of "map sid ss" i] by (simp add: ss' map_update)
  then show "folder_ok c (d', ss')"
    unfolding folder_ok_def fst_conv snd_conv
  proof (intro conjI allI impI ballI)
    fix j
    assume j: "j < length ss'"
    show "session_ok c d' (ss' ! j)" using j ot ok'(1) i by (cases "j = i") (simp_all add: ss')
    fix n
    assume "n \<in> dom (map_of d') \<union> (\<Union>k < length ss'. mentioned (ss' ! k))"
    then have "n \<in> dom (map_of d') \<or> (\<exists>k < length ss. n \<in> mentioned (ss' ! k))" by (auto simp: ss')
    then show "below (ss' ! j) n" using all j by (simp add: ss')
  qed (use dist in simp)
  let ?r = "\<Union>k \<in> {..<length ss} - {i}. removing (writer (ss ! k))"
  have "?r \<inter> set_option (writingName (writer ?s)) = {}"
  proof (rule ccontr)
    assume "?r \<inter> set_option (writingName (writer ?s)) \<noteq> {}"
    then obtain n k where n: "writingName (writer ?s) = Some n" "k < length ss" "n \<in> removing (writer (ss ! k))"
      by auto
    then show False
      using bm [OF i n(2)] removing_mentioned [of "ss ! k"] writing_not_below [OF inv [OF i] n(1)] by blast
  qed
  note kr = kp [OF this]
  have len: "length ss' = length ss" by (simp add: ss')
  show "kept c (d, ss) \<subseteq> kept c (d', ss')"
    unfolding kept_nth len unfolding ss' UN_update [OF i, of "held c"] UN_split [OF i, of "held c"]
      UN_update [OF i, of "\<lambda>s. removing (writer s)"] UN_split [OF i, of "\<lambda>s. removing (writer s)"]
    using kr by (rule Un_frame)
qed

section \<open>Nothing is lost\<close>

text \<open>A run in which no compaction starts while a session has read something that is not in its
  document yet, and no session removes the folder.\<close>

fun quietRun :: "'u yjs \<Rightarrow> (nat \<times> 'u event) list \<Rightarrow> 'u folder \<Rightarrow> bool" where
  "quietRun y [] w = True"
| "quietRun y ((i, e) # xs) w =
     (case folderStep y (i, e) w of
        None \<Rightarrow> True
      | Some w' \<Rightarrow> e \<noteq> RemoveFolder
          \<and> (startsCompaction (snd w ! i) (snd w' ! i) \<longrightarrow> undelivered (snd w ! i) = [])
          \<and> quietRun y xs w')"

text \<open>The updates that local edits gave to a journal still in use.\<close>

fun editsOf :: "'u yjs \<Rightarrow> (nat \<times> 'u event) list \<Rightarrow> 'u folder \<Rightarrow> 'u list" where
  "editsOf y [] w = []"
| "editsOf y ((i, e) # xs) w =
     (case e of Edit u \<Rightarrow> if i < length (snd w) \<and> \<not> isDisposed (snd w ! i) then [u] else [] | _ \<Rightarrow> [])
     @ (case folderStep y (i, e) w of None \<Rightarrow> [] | Some w' \<Rightarrow> editsOf y xs w')"

definition openFolder :: "'u disk \<Rightarrow> jsstr list \<Rightarrow> 'u folder" where
  "openFolder d ids = (d, map newSession ids)"

definition settled :: "'u folder \<Rightarrow> bool" where
  "settled w \<longleftrightarrow> list_all (\<lambda>s. pending s = [] \<and> writer s = Idle) (snd w)"

lemma settled_kept: "settled w \<Longrightarrow> kept c w = onDisk c (fst w) {}"
  unfolding settled_def kept_def held_def list_all_iff by simp

lemma openFolder_ok:
  assumes "distinct ids" "\<And>i k e. i \<in> set ids \<Longrightarrow> LogName i k e \<notin> set (map fst d)"
  shows "folder_ok c (openFolder d ids)" "onDisk c d {} \<subseteq> kept c (openFolder d ids)"
proof -
  have m: "mentioned (newSession i) = {}" for i :: jsstr by (simp add: newSession_def mentioned_def)
  have "below (newSession (ids ! j)) n" if "j < length ids" "n \<in> dom (map_of d)" for j n
    using that assms(2) [of "ids ! j"] unfolding below_def dom_map_of_conv_image_fst
    by (cases n) (auto simp: newSession_def)
  moreover have "session_ok c d (newSession i)" for i
    by (simp add: session_ok_def newSession_def held_def)
  moreover have "map sid (map newSession ids) = ids"
    by (induction ids) (simp_all add: newSession_def)
  then have "distinct (map sid (map newSession ids))" using assms(1) by (rule ssubst)
  ultimately show "folder_ok c (openFolder d ids)"
    by (auto simp: folder_ok_def openFolder_def m)
  show "onDisk c d {} \<subseteq> kept c (openFolder d ids)"
    by (simp add: kept_def openFolder_def newSession_def)
qed

lemma edit_kept:
  assumes "folderStep y (i, Edit u) (d, ss) = Some (d', ss')" "\<not> isDisposed (ss ! i)"
  shows "c u \<subseteq> kept c (d', ss')"
proof -
  have i: "i < length ss" and ss': "ss' = ss[i := appendUpdate u ((ss ! i)\<lparr>applied := applied (ss ! i) @ [u]\<rparr>)]"
    using assms(1) by (auto simp: folderStep_def split: if_splits)
  have "i < length ss'" using i ss' by simp
  then have "ss' ! i \<in> set ss'" by (rule nth_mem)
  moreover have "c u \<subseteq> held c (ss' ! i)" using i assms(2) by (auto simp: ss' held_def appendUpdate_def)
  ultimately show ?thesis by (auto simp: kept_def)
qed

lemma run_kept:
  assumes "lawful y c"
  shows "folder_ok c w \<Longrightarrow> runFolder y xs w = Some w' \<Longrightarrow> quietRun y xs w \<Longrightarrow>
    kept c w \<union> \<Union> (c ` set (editsOf y xs w)) \<subseteq> kept c w'"
proof (induction xs arbitrary: w)
  case (Cons x xs)
  obtain i e where x: "x = (i, e)" by (cases x)
  obtain d ss where w: "w = (d, ss)" by (cases w)
  obtain d1 ss1 where st: "folderStep y (i, e) (d, ss) = Some (d1, ss1)" and run: "runFolder y xs (d1, ss1) = Some w'"
    using Cons.prems(2) by (auto simp: x w split: option.splits)
  have q: "e \<noteq> RemoveFolder" "startsCompaction (ss ! i) (ss1 ! i) \<longrightarrow> undelivered (ss ! i) = []"
    "quietRun y xs (d1, ss1)"
    using Cons.prems(3) st by (simp_all add: x w)
  note step = folderStep_ok [OF assms Cons.prems(1) [unfolded w] st q(1,2)]
  have IH: "kept c (d1, ss1) \<union> \<Union> (c ` set (editsOf y xs (d1, ss1))) \<subseteq> kept c w'"
    by (rule Cons.IH [OF step(1) run q(3)])
  have "\<Union> (c ` set (case e of Edit u \<Rightarrow> if i < length ss \<and> \<not> isDisposed (ss ! i) then [u] else [] | _ \<Rightarrow> []))
      \<subseteq> kept c (d1, ss1)"
    using st edit_kept [of y i _ d ss d1 ss1 c] by (cases e) auto
  then show ?case using IH step(2) st by (auto simp: x w)
qed simp

text \<open>C35: journals never lose a change.  Whatever the sessions of a folder do, in any order of their
  steps, with writes and removals that may fail: every change that was on the disk at first, or
  that an edit gave to a journal, is carried by a file that no session is removing, or waits to
  be written again; once everything is written it is on the disk.  This holds for the runs in
  which no compaction starts while what the session has read is not in its document yet.\<close>

theorem journal_keeps_changes:
  assumes "lawful y c" "distinct ids" "\<And>i k e. i \<in> set ids \<Longrightarrow> LogName i k e \<notin> set (map fst d)"
    and "runFolder y xs (openFolder d ids) = Some w" "quietRun y xs (openFolder d ids)"
  shows "onDisk c d {} \<union> \<Union> (c ` set (editsOf y xs (openFolder d ids))) \<subseteq> kept c w
    \<and> (settled w \<longrightarrow> onDisk c d {} \<union> \<Union> (c ` set (editsOf y xs (openFolder d ids))) \<subseteq> onDisk c (fst w) {})"
proof -
  have "onDisk c d {} \<union> \<Union> (c ` set (editsOf y xs (openFolder d ids))) \<subseteq> kept c w"
    using run_kept [OF assms(1) openFolder_ok(1) [OF assms(2,3)] assms(4,5)]
      openFolder_ok(2) [OF assms(2,3), of c] by blast
  then show ?thesis using settled_kept [of w c] by blast
qed

section \<open>A read in progress\<close>

text \<open>Updates as sets of changes, for the examples.\<close>

definition demoYjs :: "nat list yjs" where
  "demoYjs = \<lparr>mergeUpdates = concat, encodeState = concat\<rparr>"

lemma demoYjs_lawful: "lawful demoYjs set"
  by (simp add: lawful_def demoYjs_def)

text \<open>Session 0 edits and compacts; session 1 edits and writes.\<close>

definition demoWrites :: "(nat \<times> nat list event) list" where
  "demoWrites = [(0, Edit [1]), (0, CallFlush), (0, StartJob), (0, WriteOk),
     (1, Edit [2]), (1, CallFlush), (1, StartJob), (1, WriteOk)]"

definition demoRead :: "(nat \<times> nat list event) list" where
  "demoRead = [(0, StartRead), (0, ReadNext 0), (0, ReadNext 0), (0, ReadEnds 0)]"

definition demoCompact :: "(nat \<times> nat list event) list" where
  "demoCompact = [(0, CallCompact True), (0, StartJob), (0, WriteOk), (0, RemoveEnds True), (0, RemoveEnds True)]"

definition demoClose :: "(nat \<times> nat list event) list" where
  "demoClose = [(1, CallCompact True), (1, StartJob), (1, Dispose), (0, CallCompact True), (0, StartJob), (0, Dispose)]"

definition demoFolder :: "nat list folder" where
  "demoFolder = openFolder [] [[1], [2]]"

lemmas demo_defs = demoWrites_def demoRead_def demoCompact_def demoClose_def demoFolder_def demoYjs_def
  openFolder_def newSession_def folderStep_def appendUpdate_def flushLog_def compactLog_def disposeLog_def
  startJob_def startPending_def afterPending_def startCompacted_def startRemoving_def nextName_def
  writeDone_def removeDone_def startRead_def readNext_def readDone_def deliver_def setAdd_def
  compactAfter_def Let_def

definition demoRun :: "(nat \<times> nat list event) list" where
  "demoRun = demoWrites @ demoRead @ [(0, Deliver 0)] @ demoCompact @ demoClose"


lemma demoRun_result:
  "\<exists>ss. runFolder demoYjs demoRun demoFolder = Some ([(LogName [1] 1 StateExt, [1, 2])], ss)
     \<and> settled ([(LogName [1] 1 StateExt, [1, 2])], ss)"
  by (simp add: demoRun_def demo_defs settled_def)

lemma demoRun_quiet: "quietRun demoYjs demoRun demoFolder"
  by (simp add: demoRun_def demo_defs startsCompaction_def undelivered_def)

theorem journal_keeps_changes_witness:
  "\<exists>ss. runFolder demoYjs demoRun demoFolder = Some ([(LogName [1] 1 StateExt, [1, 2])], ss)
     \<and> \<Union> (set ` set (editsOf demoYjs demoRun demoFolder)) \<subseteq> {1, 2}
     \<and> [2] \<in> set (editsOf demoYjs demoRun demoFolder)"
proof -
  obtain ss where r: "runFolder demoYjs demoRun demoFolder = Some ([(LogName [1] 1 StateExt, [1, 2])], ss)"
    and s: "settled ([(LogName [1] 1 StateExt, [1, 2])], ss)"
    using demoRun_result by blast
  have "\<Union> (set ` set (editsOf demoYjs demoRun (openFolder [] [[1], [2]])))
      \<subseteq> onDisk set [(LogName [1] 1 StateExt, [1, 2])] {}"
    using journal_keeps_changes [OF demoYjs_lawful _ _ r [unfolded demoFolder_def] demoRun_quiet [unfolded demoFolder_def]] s
    by simp
  moreover have "onDisk set [(LogName [1] 1 StateExt, [1, 2 :: nat])] {} = {1, 2}"
    by (auto simp: onDisk_def)
  moreover have "[2] \<in> set (editsOf demoYjs demoRun demoFolder)"
    by (simp add: demoRun_def demo_defs)
  ultimately show ?thesis using r by (simp add: demoFolder_def)
qed


end
