(* ===== verification/Leases.thy ===== *)
theory Leases
  imports Prelude
begin

text \<open>
  Shared resources that live as long as somebody holds them: the pool of leases with a grace
  period (\<open>infrastructure-sync/src/GracePool.ts\<close>) and the counted openings of a document
  (\<open>application/src/DocumentRefCount.ts\<close>).  A pool entry is an object shared by the map and by
  the leases, so entries live in a store by number; a timer is pending until it fires or is
  cleared.  The value of an entry is created by the caller and disposed of by the host.
\<close>

section \<open>The pool\<close>

record 'v pool_entry =
  enValue :: 'v
  refs :: int
  enTimer :: "nat option"

record 'k lease =
  lsKey :: 'k
  lsEntry :: nat
  released :: bool

text \<open>\<open>entries\<close> is the map, \<open>store\<close> every entry made so far; \<open>timers\<close> are the timeouts set and not
  cleared; \<open>disposed\<close> the entries given to the disposer.\<close>

record ('k, 'v) pool =
  entries :: "('k \<times> nat) list"
  store :: "'v pool_entry list"
  leases :: "'k lease list"
  timers :: "(nat \<times> 'k \<times> nat) list"
  nextTimer :: nat
  disposed :: "nat list"

definition newPool :: "('k, 'v) pool" where
  "newPool = \<lparr>entries = [], store = [], leases = [], timers = [], nextTimer = 0, disposed = []\<rparr>"

definition clearTimer :: "nat option \<Rightarrow> ('k, 'v) pool \<Rightarrow> ('k, 'v) pool" where
  "clearTimer t p = (case t of None \<Rightarrow> p | Some i \<Rightarrow> p\<lparr>timers := filter (\<lambda>(j, _). j \<noteq> i) (timers p)\<rparr>)"

text \<open>\<open>v\<close> is what \<open>create\<close> returns, if it is called.  The lease is the last one of the result.\<close>

definition acquire :: "'k \<Rightarrow> 'v \<Rightarrow> ('k, 'v) pool \<Rightarrow> ('k, 'v) pool" where
  "acquire k v p =
     (let (n, p) = (case map_of (entries p) k of
            Some n \<Rightarrow> (n, p)
          | None \<Rightarrow> (length (store p), p\<lparr>store := store p @ [\<lparr>enValue = v, refs = 0, enTimer = None\<rparr>],
              entries := AList.update k (length (store p)) (entries p)\<rparr>));
          e = store p ! n;
          p = clearTimer (enTimer e) p
      in p\<lparr>store := (store p)[n := e\<lparr>enTimer := None, refs := refs e + 1\<rparr>],
           leases := leases p @ [\<lparr>lsKey = k, lsEntry = n, released = False\<rparr>]\<rparr>)"

definition releaseEntry :: "'k \<Rightarrow> nat \<Rightarrow> ('k, 'v) pool \<Rightarrow> ('k, 'v) pool" where
  "releaseEntry k n p =
     (let e = store p ! n; e' = e\<lparr>refs := refs e - 1\<rparr>
      in if 0 < refs e' then p\<lparr>store := (store p)[n := e']\<rparr>
         else p\<lparr>store := (store p)[n := e'\<lparr>enTimer := Some (nextTimer p)\<rparr>],
                timers := timers p @ [(nextTimer p, k, n)], nextTimer := Suc (nextTimer p)\<rparr>)"

text \<open>\<open>release\<close> of the lease number \<open>i\<close>.\<close>

definition releaseLease :: "nat \<Rightarrow> ('k, 'v) pool \<Rightarrow> ('k, 'v) pool" where
  "releaseLease i p =
     (if i < length (leases p) then
        (let l = leases p ! i
         in if released l then p
            else releaseEntry (lsKey l) (lsEntry l) (p\<lparr>leases := (leases p)[i := l\<lparr>released := True\<rparr>]\<rparr>))
      else p)"

text \<open>\<open>same\<close>: the condition on the value, \<open>ifValue === undefined || entry.value === ifValue\<close>.\<close>

definition evict :: "'k \<Rightarrow> ('v \<Rightarrow> bool) \<Rightarrow> ('k, 'v) pool \<Rightarrow> ('k, 'v) pool" where
  "evict k same p =
     (case map_of (entries p) k of
        None \<Rightarrow> p
      | Some n \<Rightarrow>
          if \<not> same (enValue (store p ! n)) then p
          else (let p = clearTimer (enTimer (store p ! n)) p
                in p\<lparr>entries := AList.delete k (entries p)\<rparr>))"

text \<open>The timeout \<open>t\<close> fires.\<close>

definition fireTimer :: "nat \<Rightarrow> ('k, 'v) pool \<Rightarrow> ('k, 'v) pool" where
  "fireTimer t p =
     (case map_of (timers p) t of
        None \<Rightarrow> p
      | Some (k, n) \<Rightarrow>
          p\<lparr>timers := filter (\<lambda>(j, _). j \<noteq> t) (timers p),
            entries := (if map_of (entries p) k = Some n then AList.delete k (entries p) else entries p),
            disposed := disposed p @ [n]\<rparr>)"

datatype ('k, 'v) pool_event =
    Acquire 'k 'v | Release nat | Evict 'k "'v \<Rightarrow> bool" | Fire nat

fun poolStep :: "('k, 'v) pool_event \<Rightarrow> ('k, 'v) pool \<Rightarrow> ('k, 'v) pool" where
  "poolStep (Acquire k v) p = acquire k v p"
| "poolStep (Release i) p = releaseLease i p"
| "poolStep (Evict k same) p = evict k same p"
| "poolStep (Fire t) p = fireTimer t p"

section \<open>Counted openings\<close>

text \<open>\<open>opened\<close> are the documents the session underneath has open.  \<open>openFails\<close>: its
  \<open>openDocument\<close> throws.\<close>

record doc_counts =
  counts :: "(jsstr \<times> nat) list"
  opened :: "jsstr list"

definition countedEmpty :: doc_counts where
  "countedEmpty = \<lparr>counts = [], opened = []\<rparr>"

definition countOf :: "doc_counts \<Rightarrow> jsstr \<Rightarrow> nat" where
  "countOf c d = (case map_of (counts c) d of None \<Rightarrow> 0 | Some n \<Rightarrow> n)"

definition openDocument :: "bool \<Rightarrow> jsstr \<Rightarrow> doc_counts \<Rightarrow> doc_counts option" where
  "openDocument openFails d c =
     (if openFails then None
      else Some (c\<lparr>opened := setAdd d (opened c), counts := AList.update d (countOf c d + 1) (counts c)\<rparr>))"

definition closeDocument :: "jsstr \<Rightarrow> doc_counts \<Rightarrow> doc_counts" where
  "closeDocument d c =
     (let n = int (countOf c d) - 1
      in if 0 < n then c\<lparr>counts := AList.update d (nat n) (counts c)\<rparr>
         else c\<lparr>counts := AList.delete d (counts c), opened := removeAll d (opened c)\<rparr>)"

definition documentOpenCount :: "doc_counts \<Rightarrow> jsstr \<Rightarrow> nat" where
  "documentOpenCount c d = countOf c d"

section \<open>Leases are counted\<close>

text \<open>The leases of an entry that were not released.\<close>

definition holders :: "('k, 'v) pool \<Rightarrow> nat \<Rightarrow> nat" where
  "holders p n = length (filter (\<lambda>l. lsEntry l = n \<and> \<not> released l) (leases p))"

text \<open>The map points at entries that are not disposed of, each under one key; an entry nobody holds
  waits for its timer there.\<close>

definition map_ok :: "('k, 'v) pool \<Rightarrow> bool" where
  "map_ok p \<longleftrightarrow> (\<forall>k n. map_of (entries p) k = Some n \<longrightarrow> n < length (store p) \<and> n \<notin> set (disposed p)
     \<and> (\<forall>k'. map_of (entries p) k' = Some n \<longrightarrow> k' = k)
     \<and> (holders p n = 0 \<longrightarrow> (\<exists>t. (t, k, n) \<in> set (timers p))))"

definition counts_ok :: "('k, 'v) pool \<Rightarrow> bool" where
  "counts_ok p \<longleftrightarrow> (\<forall>n < length (store p). refs (store p ! n) = int (holders p n))
     \<and> (\<forall>l \<in> set (leases p). lsEntry l < length (store p))"

text \<open>A pending timer is the one its entry remembers, and nobody holds the entry.  Entries never
  share a timer.\<close>

definition timers_ok :: "('k, 'v) pool \<Rightarrow> bool" where
  "timers_ok p \<longleftrightarrow> distinct (map fst (timers p))
     \<and> (\<forall>t k n. (t, k, n) \<in> set (timers p) \<longrightarrow> n < length (store p)
          \<and> holders p n = 0 \<and> enTimer (store p ! n) = Some t \<and> n \<notin> set (disposed p)
          \<and> (\<forall>k'. map_of (entries p) k' = Some n \<longrightarrow> k' = k))"

definition stamps_ok :: "('k, 'v) pool \<Rightarrow> bool" where
  "stamps_ok p \<longleftrightarrow> (\<forall>m t. m < length (store p) \<longrightarrow> enTimer (store p ! m) = Some t \<longrightarrow> t < nextTimer p)
     \<and> (\<forall>m n t. m < length (store p) \<longrightarrow> n < length (store p) \<longrightarrow> enTimer (store p ! m) = Some t
          \<longrightarrow> enTimer (store p ! n) = Some t \<longrightarrow> n = m)"

definition disposed_ok :: "('k, 'v) pool \<Rightarrow> bool" where
  "disposed_ok p \<longleftrightarrow> distinct (disposed p)
     \<and> (\<forall>n \<in> set (disposed p). n < length (store p) \<and> holders p n = 0)"

text \<open>A lease has the key of its entry.\<close>

definition keys_ok :: "('k, 'v) pool \<Rightarrow> bool" where
  "keys_ok p \<longleftrightarrow> (\<forall>l k. l \<in> set (leases p) \<longrightarrow> map_of (entries p) k = Some (lsEntry l) \<longrightarrow> k = lsKey l)"

definition pool_ok :: "('k, 'v) pool \<Rightarrow> bool" where
  "pool_ok p \<longleftrightarrow> keys_ok p \<and> counts_ok p \<and> map_ok p \<and> timers_ok p \<and> stamps_ok p \<and> disposed_ok p"

lemma holders_simps [simp]:
  "holders (p\<lparr>store := s\<rparr>) = holders p" "holders (p\<lparr>entries := es\<rparr>) = holders p"
  "holders (p\<lparr>timers := ts\<rparr>) = holders p" "holders (p\<lparr>nextTimer := i\<rparr>) = holders p"
  "holders (p\<lparr>disposed := d\<rparr>) = holders p"
  by (simp_all add: holders_def [abs_def])

lemma holders_snoc:
  "holders (p\<lparr>leases := leases p @ [\<lparr>lsKey = k, lsEntry = n, released = False\<rparr>]\<rparr>) m =
     holders p m + (if m = n then 1 else 0)"
  by (simp add: holders_def)

lemma filter_update_less:
  assumes "i < length xs" "P (xs ! i)" "\<not> P x"
  shows "length (filter P xs) = Suc (length (filter P (xs[i := x])))"
proof -
  have "xs = take i xs @ xs ! i # drop (Suc i) xs" using assms(1) by (rule id_take_nth_drop)
  then have "length (filter P xs) = length (filter P (take i xs)) + 1 + length (filter P (drop (Suc i) xs))"
    using assms(2) by (metis (no_types, lifting) Suc_eq_plus1 add_Suc_right add_Suc_shift filter.simps(2) filter_append length_Cons length_append)
  moreover have "xs[i := x] = take i xs @ x # drop (Suc i) xs" using assms(1) by (rule upd_conv_take_nth_drop)
  ultimately show ?thesis using assms(3) by simp
qed

lemma filter_update_same:
  assumes "i < length xs" "\<not> P (xs ! i)" "\<not> P x"
  shows "length (filter P (xs[i := x])) = length (filter P xs)"
proof -
  have e: "xs = take i xs @ xs ! i # drop (Suc i) xs" using assms(1) by (rule id_take_nth_drop)
  have "xs[i := x] = take i xs @ x # drop (Suc i) xs" using assms(1) by (rule upd_conv_take_nth_drop)
  then have "length (filter P (xs[i := x])) = length (filter P (take i xs @ drop (Suc i) xs))"
    using assms(3) by simp
  also have "\<dots> = length (filter P xs)" using assms(2) by (subst (3) e) simp
  finally show ?thesis .
qed

lemma holders_release:
  assumes "i < length (leases p)" "\<not> released (leases p ! i)"
  defines "l \<equiv> leases p ! i"
  shows "holders p m = holders (p\<lparr>leases := (leases p)[i := l\<lparr>released := True\<rparr>]\<rparr>) m
    + (if m = lsEntry l then 1 else 0)"
proof (cases "m = lsEntry l")
  case True
  then show ?thesis
    using filter_update_less [of i "leases p" "\<lambda>l. lsEntry l = m \<and> \<not> released l" "l\<lparr>released := True\<rparr>"] assms
    by (simp add: holders_def)
next
  case False
  then show ?thesis
    using filter_update_same [of i "leases p" "\<lambda>l. lsEntry l = m \<and> \<not> released l" "l\<lparr>released := True\<rparr>"] assms
    by (simp add: holders_def)
qed

text \<open>Taking away a timer by its number.\<close>

lemma clearTimer_simps [simp]:
  "entries (clearTimer t p) = entries p" "store (clearTimer t p) = store p"
  "leases (clearTimer t p) = leases p" "nextTimer (clearTimer t p) = nextTimer p"
  "disposed (clearTimer t p) = disposed p" "holders (clearTimer t p) = holders p"
  by (simp_all add: clearTimer_def holders_def [abs_def] split: option.splits)

lemma timers_clear:
  "(t, k, n) \<in> set (timers (clearTimer x p)) \<longleftrightarrow> (t, k, n) \<in> set (timers p) \<and> x \<noteq> Some t"
  by (auto simp: clearTimer_def split: option.splits)

lemma distinct_clear: "distinct (map fst (timers p)) \<Longrightarrow> distinct (map fst (timers (clearTimer x p)))"
  by (auto simp: clearTimer_def distinct_map_filter split: option.splits)

lemma timers_okD:
  assumes "timers_ok p" "(t, k, n) \<in> set (timers p)"
  shows "n < length (store p)" "holders p n = 0" "enTimer (store p ! n) = Some t" "n \<notin> set (disposed p)"
    "map_of (entries p) k' = Some n \<Longrightarrow> k' = k"
  using assms unfolding timers_ok_def by blast+

lemma timers_okI:
  assumes "distinct (map fst (timers p))"
    "\<And>t k n. (t, k, n) \<in> set (timers p) \<Longrightarrow> n < length (store p) \<and> holders p n = 0
       \<and> enTimer (store p ! n) = Some t \<and> n \<notin> set (disposed p)"
    "\<And>t k n k'. (t, k, n) \<in> set (timers p) \<Longrightarrow> map_of (entries p) k' = Some n \<Longrightarrow> k' = k"
  shows "timers_ok p"
  unfolding timers_ok_def using assms by blast

lemma map_okD:
  assumes "map_ok p" "map_of (entries p) k = Some n"
  shows "n < length (store p)" "n \<notin> set (disposed p)" "map_of (entries p) k' = Some n \<Longrightarrow> k' = k"
    "holders p n = 0 \<Longrightarrow> \<exists>t. (t, k, n) \<in> set (timers p)"
  using assms unfolding map_ok_def by blast+

lemma map_okI:
  assumes "\<And>k n. map_of (entries p) k = Some n \<Longrightarrow> n < length (store p) \<and> n \<notin> set (disposed p)"
    "\<And>k k' n. map_of (entries p) k = Some n \<Longrightarrow> map_of (entries p) k' = Some n \<Longrightarrow> k' = k"
    "\<And>k n. map_of (entries p) k = Some n \<Longrightarrow> holders p n = 0 \<Longrightarrow> \<exists>t. (t, k, n) \<in> set (timers p)"
  shows "map_ok p"
  unfolding map_ok_def using assms by blast

lemma stamps_okD:
  assumes "stamps_ok p" "m < length (store p)" "enTimer (store p ! m) = Some t"
  shows "t < nextTimer p" "n < length (store p) \<Longrightarrow> enTimer (store p ! n) = Some t \<Longrightarrow> n = m"
  using assms unfolding stamps_ok_def by blast+

lemma stamps_okI:
  assumes "\<And>m t. m < length (store p) \<Longrightarrow> enTimer (store p ! m) = Some t \<Longrightarrow> t < nextTimer p"
    "\<And>m n t. m < length (store p) \<Longrightarrow> n < length (store p) \<Longrightarrow> enTimer (store p ! m) = Some t
       \<Longrightarrow> enTimer (store p ! n) = Some t \<Longrightarrow> n = m"
  shows "stamps_ok p"
  unfolding stamps_ok_def using assms by blast

lemma clear_entry:
  assumes "timers_ok p"
  shows "(t, k, n) \<notin> set (timers (clearTimer (enTimer (store p ! n)) p))"
  using assms by (auto simp: timers_clear timers_ok_def)

text \<open>Taking a lease on an entry: its timer goes, the others stay.\<close>

definition takeLease :: "'k \<Rightarrow> nat \<Rightarrow> ('k, 'v) pool \<Rightarrow> ('k, 'v) pool" where
  "takeLease k n p = (clearTimer (enTimer (store p ! n)) p)
     \<lparr>store := (store p)[n := (store p ! n)\<lparr>enTimer := None, refs := refs (store p ! n) + 1\<rparr>],
      leases := leases p @ [\<lparr>lsKey = k, lsEntry = n, released = False\<rparr>]\<rparr>"

lemma acquire_known: "map_of (entries p) k = Some n \<Longrightarrow> acquire k v p = takeLease k n p"
  by (simp add: acquire_def takeLease_def Let_def)

definition newEntry :: "'k \<Rightarrow> 'v \<Rightarrow> ('k, 'v) pool \<Rightarrow> ('k, 'v) pool" where
  "newEntry k v p = p\<lparr>store := store p @ [\<lparr>enValue = v, refs = 0, enTimer = None\<rparr>],
     entries := AList.update k (length (store p)) (entries p)\<rparr>"

lemma acquire_new: "map_of (entries p) k = None \<Longrightarrow>
    acquire k v p = takeLease k (length (store p)) (newEntry k v p)"
  by (simp add: acquire_def takeLease_def newEntry_def Let_def)

lemma takeLease_simps [simp]:
  "entries (takeLease k n p) = entries p" "disposed (takeLease k n p) = disposed p"
  "nextTimer (takeLease k n p) = nextTimer p" "length (store (takeLease k n p)) = length (store p)"
  "leases (takeLease k n p) = leases p @ [\<lparr>lsKey = k, lsEntry = n, released = False\<rparr>]"
  by (simp_all add: takeLease_def)

lemma takeLease_holders: "holders (takeLease k n p) m = holders p m + (if m = n then 1 else 0)"
  by (simp add: takeLease_def holders_def)

lemma takeLease_store: "m < length (store p) \<Longrightarrow> n < length (store p) \<Longrightarrow> store (takeLease k n p) ! m =
    (if m = n then (store p ! n)\<lparr>enTimer := None, refs := refs (store p ! n) + 1\<rparr> else store p ! m)"
  by (simp add: takeLease_def)

lemma takeLease_timers: "(t, j, m) \<in> set (timers (takeLease k n p)) \<longleftrightarrow>
    (t, j, m) \<in> set (timers p) \<and> enTimer (store p ! n) \<noteq> Some t"
  by (simp add: takeLease_def timers_clear)

lemma takeLease_distinct: "distinct (map fst (timers p)) \<Longrightarrow> distinct (map fst (timers (takeLease k n p)))"
  using distinct_clear [of p "enTimer (store p ! n)"] by (simp add: takeLease_def)

lemma takeLease_ok:
  assumes c: "counts_ok p" and t: "timers_ok p" and s: "stamps_ok p" and d: "disposed_ok p" and ky: "keys_ok p"
    and n: "n < length (store p)" "n \<notin> set (disposed p)" "map_of (entries p) k = Some n"
    and m: "\<And>k m. map_of (entries p) k = Some m \<Longrightarrow> m < length (store p) \<and> m \<notin> set (disposed p)"
    and u: "\<And>k k' m. map_of (entries p) k = Some m \<Longrightarrow> map_of (entries p) k' = Some m \<Longrightarrow> k' = k"
    and w: "\<And>k m. map_of (entries p) k = Some m \<Longrightarrow> m \<noteq> n \<Longrightarrow> holders p m = 0
      \<Longrightarrow> \<exists>t. (t, k, m) \<in> set (timers p)"
  shows "pool_ok (takeLease k n p)"
proof -
  let ?q = "takeLease k n p"
  have tm: "(x, j, i) \<in> set (timers p) \<and> i \<noteq> n" if "(x, j, i) \<in> set (timers ?q)" for x j i
  proof -
    have "(x, j, i) \<in> set (timers p)" "enTimer (store p ! n) \<noteq> Some x" using that by (simp_all add: takeLease_timers)
    then show ?thesis using timers_okD(3) [OF t, of x j i] by auto
  qed
  have tk: "(x, j, i) \<in> set (timers ?q)" if "(x, j, i) \<in> set (timers p)" "i \<noteq> n" for x j i
  proof -
    have "enTimer (store p ! n) \<noteq> Some x"
      using stamps_okD(2) [OF s timers_okD(1,3) [OF t that(1)], of n] n(1) that(2) by auto
    then show ?thesis using that by (simp add: takeLease_timers)
  qed
  have "counts_ok ?q" using c n(1)
    by (auto simp: counts_ok_def takeLease_holders takeLease_store)
  moreover have "map_ok ?q"
  proof (rule map_okI)
    fix j i assume j: "map_of (entries ?q) j = Some i"
    show "i < length (store ?q) \<and> i \<notin> set (disposed ?q)" using m [of j i] j by simp
    show "k' = j" if "map_of (entries ?q) k' = Some i" for k' using u [of j i k'] j that by simp
    assume h: "holders ?q i = 0"
    then have "i \<noteq> n" "holders p i = 0" by (simp_all add: takeLease_holders split: if_splits)
    then obtain x where "(x, j, i) \<in> set (timers p)" using w [of j i] j by auto
    then show "\<exists>x. (x, j, i) \<in> set (timers ?q)" using tk \<open>i \<noteq> n\<close> by blast
  qed
  moreover have "timers_ok ?q"
  proof (rule timers_okI)
    show "distinct (map fst (timers ?q))" using t by (simp add: timers_ok_def takeLease_distinct)
    fix x j i assume "(x, j, i) \<in> set (timers ?q)"
    then have a: "(x, j, i) \<in> set (timers p)" and i: "i \<noteq> n" using tm by auto
    show "i < length (store ?q) \<and> holders ?q i = 0 \<and> enTimer (store ?q ! i) = Some x \<and> i \<notin> set (disposed ?q)"
      using timers_okD(1-4) [OF t a] i n(1) by (simp add: takeLease_holders takeLease_store)
    show "k' = j" if "map_of (entries ?q) k' = Some i" for k' using timers_okD(5) [OF t a] that by simp
  qed
  moreover have "stamps_ok ?q"
  proof (rule stamps_okI)
    fix i x assume i: "i < length (store ?q)" "enTimer (store ?q ! i) = Some x"
    then have i': "i < length (store p)" "enTimer (store p ! i) = Some x"
      using n(1) by (simp_all add: takeLease_store split: if_splits)
    show "x < nextTimer ?q" using stamps_okD(1) [OF s i'] by simp
    fix j assume j: "j < length (store ?q)" "enTimer (store ?q ! j) = Some x"
    then have "j < length (store p)" "enTimer (store p ! j) = Some x"
      using n(1) by (simp_all add: takeLease_store split: if_splits)
    then show "j = i" by (rule stamps_okD(2) [OF s i'])
  qed
  moreover have "disposed_ok ?q" using d n(2)
    by (auto simp: disposed_ok_def takeLease_holders)
  moreover have "keys_ok ?q" unfolding keys_ok_def
  proof (intro allI impI)
    fix l j assume l: "l \<in> set (leases ?q)" "map_of (entries ?q) j = Some (lsEntry l)"
    show "j = lsKey l"
    proof (cases "l \<in> set (leases p)")
      case True then show ?thesis using ky l(2) by (simp add: keys_ok_def)
    next
      case False then have "l = \<lparr>lsKey = k, lsEntry = n, released = False\<rparr>" using l(1) by simp
      then show ?thesis using u [OF n(3)] l(2) by simp
    qed
  qed
  ultimately show ?thesis by (simp add: pool_ok_def)
qed

lemma newEntry_holders: "counts_ok p \<Longrightarrow> holders p (length (store p)) = 0"
  by (fastforce simp: counts_ok_def holders_def filter_empty_conv)

lemma pool_okD:
  assumes "pool_ok p"
  shows "counts_ok p" "map_ok p" "timers_ok p" "stamps_ok p" "disposed_ok p" "keys_ok p"
  using assms by (simp_all add: pool_ok_def)

lemma newEntry_simps [simp]:
  "timers (newEntry k v p) = timers p" "disposed (newEntry k v p) = disposed p"
  "holders (newEntry k v p) = holders p" "nextTimer (newEntry k v p) = nextTimer p"
  "leases (newEntry k v p) = leases p" "length (store (newEntry k v p)) = Suc (length (store p))"
  "m < length (store p) \<Longrightarrow> store (newEntry k v p) ! m = store p ! m"
  "store (newEntry k v p) ! length (store p) = \<lparr>enValue = v, refs = 0, enTimer = None\<rparr>"
  "map_of (entries (newEntry k v p)) j = (if j = k then Some (length (store p)) else map_of (entries p) j)"
  by (simp_all add: newEntry_def nth_append update_conv')

lemma newEntry_map:
  assumes "map_ok p" "map_of (entries (newEntry k v p)) j = Some i"
  obtains "j = k" "i = length (store p)" | "map_of (entries p) j = Some i" "i < length (store p)"
  using assms(2) map_okD(1) [OF assms(1), of j i] by (cases "j = k") simp_all

lemma acquire_ok:
  assumes "pool_ok p" shows "pool_ok (acquire k v p)"
proof (cases "map_of (entries p) k")
  case (Some n)
  note m = map_okD [OF pool_okD(2) [OF assms]]
  have "pool_ok (takeLease k n p)"
  proof (rule takeLease_ok)
    show "counts_ok p" "timers_ok p" "stamps_ok p" "disposed_ok p" "keys_ok p" using pool_okD [OF assms] by blast+
    show "n < length (store p)" "n \<notin> set (disposed p)" using m(1,2) [OF Some] by blast+
    show "map_of (entries p) k = Some n" by (rule Some)
    fix j i assume j: "map_of (entries p) j = Some i"
    show "i < length (store p) \<and> i \<notin> set (disposed p)" using m(1,2) [OF j] by simp
    show "k' = j" if "map_of (entries p) k' = Some i" for k' using m(3) [OF j that] .
    assume "holders p i = 0"
    then show "\<exists>x. (x, j, i) \<in> set (timers p)" by (rule m(4) [OF j])
  qed
  then show ?thesis by (simp add: acquire_known [OF Some])
next
  case None
  let ?n = "length (store p)" and ?q = "newEntry k v p"
  note ok = pool_okD [OF assms]
  note m = map_okD [OF ok(2)]
  have nd: "?n \<notin> set (disposed p)" using ok(5) by (auto simp: disposed_ok_def)
  have "pool_ok (takeLease k ?n ?q)"
  proof (rule takeLease_ok)
    show "counts_ok ?q" using ok(1) newEntry_holders [OF ok(1)]
      by (auto simp: counts_ok_def less_Suc_eq)
    show "timers_ok ?q"
    proof (rule timers_okI)
      show "distinct (map fst (timers ?q))" using ok(3) by (simp add: timers_ok_def)
      fix x j i assume "(x, j, i) \<in> set (timers ?q)"
      then have a: "(x, j, i) \<in> set (timers p)" by simp
      show "i < length (store ?q) \<and> holders ?q i = 0 \<and> enTimer (store ?q ! i) = Some x \<and> i \<notin> set (disposed ?q)"
        using timers_okD(1-4) [OF ok(3) a] by simp
      fix k' assume "map_of (entries ?q) k' = Some i"
      then show "k' = j"
      proof (rule newEntry_map [OF ok(2)])
        assume "i = ?n" then show ?thesis using timers_okD(1) [OF ok(3) a] by simp
      next
        assume "map_of (entries p) k' = Some i" then show ?thesis by (rule timers_okD(5) [OF ok(3) a])
      qed
    qed
    show "stamps_ok ?q"
    proof (rule stamps_okI)
      fix i x assume i: "i < length (store ?q)" "enTimer (store ?q ! i) = Some x"
      then have i': "i < length (store p)" "enTimer (store p ! i) = Some x"
        by (auto simp: less_Suc_eq)
      show "x < nextTimer ?q" using stamps_okD(1) [OF ok(4) i'] by simp
      fix j assume j: "j < length (store ?q)" "enTimer (store ?q ! j) = Some x"
      then have "j < length (store p)" "enTimer (store p ! j) = Some x"
        by (auto simp: less_Suc_eq)
      then show "j = i" by (rule stamps_okD(2) [OF ok(4) i'])
    qed
    show "disposed_ok ?q" using ok(5) by (auto simp: disposed_ok_def)
    show "?n < length (store ?q)" "?n \<notin> set (disposed ?q)" "map_of (entries ?q) k = Some ?n" using nd by simp_all
    have lt: "lsEntry l < ?n" if "l \<in> set (leases p)" for l using ok(1) that by (simp add: counts_ok_def)
    show "keys_ok ?q" unfolding keys_ok_def
    proof (intro allI impI)
      fix l j assume l: "l \<in> set (leases ?q)" "map_of (entries ?q) j = Some (lsEntry l)"
      from newEntry_map [OF ok(2) l(2)] show "j = lsKey l"
        by cases (use l(1) lt [of l] ok(6) in \<open>auto simp: keys_ok_def\<close>)
    qed
    fix j i assume j: "map_of (entries ?q) j = Some i"
    from newEntry_map [OF ok(2) j]
    show "i < length (store ?q) \<and> i \<notin> set (disposed ?q)"
      by cases (use nd m(2) in auto)
    show "k' = j" if k': "map_of (entries ?q) k' = Some i" for k'
      using newEntry_map [OF ok(2) j]
    proof cases
      case 1 then show ?thesis using newEntry_map [OF ok(2) k'] by auto
    next
      case 2 note j' = this
      from newEntry_map [OF ok(2) k'] show ?thesis
      proof cases
        case 1 then show ?thesis using j'(2) by simp
      next
        case 2 then show ?thesis using m(3) [OF j'(1)] by blast
      qed
    qed
    assume h: "i \<noteq> ?n" "holders ?q i = 0"
    from newEntry_map [OF ok(2) j] show "\<exists>x. (x, j, i) \<in> set (timers ?q)"
      by cases (use h m(4) in auto)
  qed
  then show ?thesis by (simp add: acquire_new [OF None])
qed

text \<open>Giving a lease back: \<open>p\<close> before, \<open>p'\<close> with the lease marked.\<close>

lemma releaseEntry_ok:
  assumes ok: "pool_ok p" and l: "l \<in> set (leases p)" "lsEntry l = n" "lsKey l = k"
    and p': "p' = p\<lparr>leases := ls\<rparr>" "map lsEntry ls = map lsEntry (leases p)" "map lsKey ls = map lsKey (leases p)"
    and h: "\<And>m. holders p m = holders p' m + (if m = n then 1 else 0)"
  shows "pool_ok (releaseEntry k n p')"
proof -
  let ?q = "releaseEntry k n p'"
  note ok' = pool_okD [OF ok]
  have ls: "\<exists>l \<in> set (leases p). lsEntry l = lsEntry l' \<and> lsKey l = lsKey l'" if "l' \<in> set ls" for l'
  proof -
    obtain i where "i < length ls" "l' = ls ! i" using \<open>l' \<in> set ls\<close> by (auto simp: in_set_conv_nth)
    then show ?thesis using p'(2,3) by (metis length_map nth_map nth_mem)
  qed
  have n: "n < length (store p)" using ok'(1) l by (auto simp: counts_ok_def)
  have hn: "holders p n \<noteq> 0" using h [of n] by simp
  have nd: "n \<notin> set (disposed p)" using ok'(5) hn by (auto simp: disposed_ok_def)
  have nt: "i \<noteq> n" if "(x, j, i) \<in> set (timers p)" for x j i
    using timers_okD(2) [OF ok'(3) that] hn by auto
  have q: "entries ?q = entries p" "disposed ?q = disposed p" "leases ?q = ls" "length (store ?q) = length (store p)"
    "holders ?q = holders p'"
    using p'(1) by (simp_all add: releaseEntry_def Let_def holders_def [abs_def])
  have qs: "refs (store ?q ! m) = refs (store p ! m) - (if m = n then 1 else 0)" if "m < length (store p)" for m
    using p'(1) that n by (simp add: releaseEntry_def Let_def)
  have ref: "refs (store p ! n) = int (holders p' n) + 1" using ok'(1) n h [of n] by (simp add: counts_ok_def)
  have qt: "enTimer (store ?q ! m) = (if m = n \<and> holders p' n = 0 then Some (nextTimer p) else enTimer (store p ! m))"
    if "m < length (store p)" for m
    using p'(1) that n ref by (auto simp: releaseEntry_def Let_def nth_list_update)
  have qtm: "timers ?q = timers p @ (if holders p' n = 0 then [(nextTimer p, k, n)] else [])"
    "nextTimer ?q = nextTimer p + (if holders p' n = 0 then 1 else 0)"
    using p'(1) ref by (simp_all add: releaseEntry_def Let_def)
  have old: "x < nextTimer p" if "(x, j, i) \<in> set (timers p)" for x j i
    using stamps_okD(1) [OF ok'(4) timers_okD(1,3) [OF ok'(3) that]] .
  have "counts_ok ?q" unfolding counts_ok_def q
  proof (intro conjI allI impI ballI)
    fix m assume m: "m < length (store p)"
    then show "refs (store ?q ! m) = int (holders p' m)"
      using ok'(1) h [of m] qs [OF m] by (simp add: counts_ok_def split: if_splits)
  next
    fix l' assume "l' \<in> set ls" then show "lsEntry l' < length (store p)"
      using ls [of l'] ok'(1) by (auto simp: counts_ok_def)
  qed
  moreover have "map_ok ?q"
  proof (rule map_okI)
    fix j i assume j: "map_of (entries ?q) j = Some i"
    then have j': "map_of (entries p) j = Some i" by (simp add: q)
    show "i < length (store ?q) \<and> i \<notin> set (disposed ?q)" using map_okD(1,2) [OF ok'(2) j'] by (simp add: q)
    show "k' = j" if "map_of (entries ?q) k' = Some i" for k' using map_okD(3) [OF ok'(2) j'] that by (simp add: q)
    assume e: "holders ?q i = 0"
    show "\<exists>x. (x, j, i) \<in> set (timers ?q)"
    proof (cases "i = n")
      case True
      then have "j = k" using ok'(6) l j' by (auto simp: keys_ok_def)
      then show ?thesis using e True by (auto simp: q qtm)
    next
      case False
      then have "holders p i = 0" using e h [of i] by (simp add: q)
      then show ?thesis using map_okD(4) [OF ok'(2) j'] by (auto simp: qtm)
    qed
  qed
  moreover have "timers_ok ?q"
  proof (rule timers_okI)
    show "distinct (map fst (timers ?q))" using ok'(3) old by (fastforce simp: timers_ok_def qtm)
    fix x j i assume a: "(x, j, i) \<in> set (timers ?q)"
    have a': "(x, j, i) \<in> set (timers p) \<and> i \<noteq> n \<or> (x = nextTimer p \<and> j = k \<and> i = n \<and> holders p' n = 0)"
      using a nt by (auto simp: qtm split: if_splits)
    then show "i < length (store ?q) \<and> holders ?q i = 0 \<and> enTimer (store ?q ! i) = Some x \<and> i \<notin> set (disposed ?q)"
    proof
      assume b: "(x, j, i) \<in> set (timers p) \<and> i \<noteq> n"
      then show ?thesis using timers_okD(1-4) [OF ok'(3), of x j i] h [of i] by (simp add: q qt)
    qed (use n nd in \<open>simp add: q qt\<close>)
    fix k' assume m: "map_of (entries ?q) k' = Some i"
    from a' show "k' = j"
    proof
      assume "(x, j, i) \<in> set (timers p) \<and> i \<noteq> n"
      then show ?thesis using timers_okD(5) [OF ok'(3), of x j i k'] m by (simp add: q)
    next
      assume "x = nextTimer p \<and> j = k \<and> i = n \<and> holders p' n = 0"
      then show ?thesis using ok'(6) l m by (auto simp: keys_ok_def q)
    qed
  qed
  moreover have "stamps_ok ?q"
  proof (rule stamps_okI)
    fix i x assume i: "i < length (store ?q)" "enTimer (store ?q ! i) = Some x"
    then have i': "i < length (store p)" by (simp add: q)
    have e: "enTimer (store p ! i) = Some x \<and> x < nextTimer p \<or> i = n \<and> x = nextTimer p \<and> holders p' n = 0"
      using i(2) qt [OF i'] stamps_okD(1) [OF ok'(4) i'] by (auto split: if_splits)
    then show "x < nextTimer ?q" by (auto simp: qtm)
    fix j assume j: "j < length (store ?q)" "enTimer (store ?q ! j) = Some x"
    then have j': "j < length (store p)" by (simp add: q)
    have f: "enTimer (store p ! j) = Some x \<and> x < nextTimer p \<or> j = n \<and> x = nextTimer p \<and> holders p' n = 0"
      using j(2) qt [OF j'] stamps_okD(1) [OF ok'(4) j'] by (auto split: if_splits)
    show "j = i" using e f stamps_okD(2) [OF ok'(4) i' _ j', of x] by auto
  qed
  moreover have "disposed_ok ?q" unfolding disposed_ok_def q
    using ok'(5) h nd by (force simp: disposed_ok_def)
  moreover have "keys_ok ?q" unfolding keys_ok_def q
    using ok'(6) ls unfolding keys_ok_def by metis
  ultimately show ?thesis by (simp add: pool_ok_def)
qed

lemma releaseLease_ok:
  assumes "pool_ok p" shows "pool_ok (releaseLease i p)"
proof (cases "i < length (leases p) \<and> \<not> released (leases p ! i)")
  case True
  let ?l = "leases p ! i"
  let ?ls = "(leases p)[i := ?l\<lparr>released := True\<rparr>]"
  have "pool_ok (releaseEntry (lsKey ?l) (lsEntry ?l) (p\<lparr>leases := ?ls\<rparr>))"
  proof (rule releaseEntry_ok [OF assms, where l = ?l])
    show "?l \<in> set (leases p)" using True by simp
    show "map lsEntry ?ls = map lsEntry (leases p)" "map lsKey ?ls = map lsKey (leases p)"
      using True by (simp_all add: map_update list_update_same_conv)
    show "holders p m = holders (p\<lparr>leases := ?ls\<rparr>) m + (if m = lsEntry ?l then 1 else 0)" for m
      using True by (intro holders_release) auto
  qed simp_all
  then show ?thesis using True by (simp add: releaseLease_def Let_def)
next
  case False
  then have "releaseLease i p = p" by (auto simp: releaseLease_def Let_def)
  then show ?thesis using assms by simp
qed

lemma evict_ok:
  assumes "pool_ok p" shows "pool_ok (evict k same p)"
proof (cases "map_of (entries p) k")
  case None
  then show ?thesis using assms by (simp add: evict_def)
next
  case (Some n)
  note ok = pool_okD [OF assms]
  show ?thesis
  proof (cases "same (enValue (store p ! n))")
    case False
    then show ?thesis using assms Some by (simp add: evict_def)
  next
    case True
    let ?c = "clearTimer (enTimer (store p ! n)) p" and ?q = "evict k same p"
    have q: "?q = ?c\<lparr>entries := AList.delete k (entries p)\<rparr>" using True Some by (simp add: evict_def Let_def)
    have em: "map_of (entries ?q) j = (if j = k then None else map_of (entries p) j)" for j
      unfolding q by (simp add: delete_conv')
    have qs [simp]: "store ?q = store p" "leases ?q = leases p" "disposed ?q = disposed p"
      "nextTimer ?q = nextTimer p" "holders ?q = holders p" "timers ?q = timers ?c" by (simp_all add: q)
    have n: "n < length (store p)" using map_okD(1) [OF ok(2) Some] .
    have sub: "(x, j, i) \<in> set (timers p)" if "(x, j, i) \<in> set (timers ?c)" for x j i
      using that by (simp add: timers_clear)
    have "map_ok ?q"
    proof (rule map_okI)
      fix j i assume "map_of (entries ?q) j = Some i"
      then have j: "map_of (entries p) j = Some i" "j \<noteq> k" by (simp_all add: em split: if_splits)
      show "i < length (store ?q) \<and> i \<notin> set (disposed ?q)" using map_okD(1,2) [OF ok(2) j(1)] by simp
      show "k' = j" if "map_of (entries ?q) k' = Some i" for k'
        using map_okD(3) [OF ok(2) j(1)] that by (simp add: em split: if_splits)
      assume "holders ?q i = 0"
      then obtain x where x: "(x, j, i) \<in> set (timers p)" using map_okD(4) [OF ok(2) j(1)] by auto
      have "i \<noteq> n" using map_okD(3) [OF ok(2) Some, of j] j by auto
      then have "enTimer (store p ! n) \<noteq> Some x"
        using stamps_okD(2) [OF ok(4) timers_okD(1,3) [OF ok(3) x] n] by auto
      then show "\<exists>x. (x, j, i) \<in> set (timers ?q)" using x by (auto simp: timers_clear)
    qed
    moreover have "timers_ok ?q"
    proof (rule timers_okI)
      show "distinct (map fst (timers ?q))" using ok(3) distinct_clear by (auto simp: timers_ok_def)
      fix x j i assume "(x, j, i) \<in> set (timers ?q)"
      then have a: "(x, j, i) \<in> set (timers p)" using sub by simp
      show "i < length (store ?q) \<and> holders ?q i = 0 \<and> enTimer (store ?q ! i) = Some x \<and> i \<notin> set (disposed ?q)"
        using timers_okD(1-4) [OF ok(3) a] by simp
      show "k' = j" if "map_of (entries ?q) k' = Some i" for k'
        using timers_okD(5) [OF ok(3) a] that by (simp add: em split: if_splits)
    qed
    moreover have "counts_ok ?q" "stamps_ok ?q" "disposed_ok ?q"
      using ok(1,4,5) by (simp_all add: counts_ok_def stamps_ok_def disposed_ok_def)
    moreover have "keys_ok ?q" using ok(6) by (simp add: keys_ok_def em)
    ultimately show ?thesis by (simp add: pool_ok_def)
  qed
qed

lemma fireTimer_ok:
  assumes "pool_ok p" shows "pool_ok (fireTimer t p)"
proof (cases "map_of (timers p) t")
  case None
  then show ?thesis using assms by (simp add: fireTimer_def)
next
  case (Some a)
  obtain k n where a: "a = (k, n)" by (cases a)
  note ok = pool_okD [OF assms]
  have mem: "(t, k, n) \<in> set (timers p)" using Some a by (auto dest: map_of_SomeD)
  note tn = timers_okD [OF ok(3) mem]
  let ?q = "fireTimer t p"
  have q: "?q = p\<lparr>timers := filter (\<lambda>(j, _). j \<noteq> t) (timers p),
      entries := (if map_of (entries p) k = Some n then AList.delete k (entries p) else entries p),
      disposed := disposed p @ [n]\<rparr>" using Some a by (simp add: fireTimer_def)
  have qs [simp]: "store ?q = store p" "leases ?q = leases p" "disposed ?q = disposed p @ [n]"
    "nextTimer ?q = nextTimer p" "holders ?q = holders p" by (simp_all add: q)
  have em: "map_of (entries p) j = Some i \<and> i \<noteq> n" if "map_of (entries ?q) j = Some i" for j i
  proof -
    have "map_of (entries p) j = Some i" using that by (simp add: q delete_conv' split: if_splits)
    moreover have "i \<noteq> n"
    proof
      assume "i = n"
      then have "j = k" using tn(5) calculation by simp
      then show False using that calculation \<open>i = n\<close> by (simp add: q delete_conv' split: if_splits)
    qed
    ultimately show ?thesis by simp
  qed
  have tm: "(x, j, i) \<in> set (timers ?q) \<longleftrightarrow> (x, j, i) \<in> set (timers p) \<and> x \<noteq> t" for x j i
    by (auto simp: q)
  have other: "i \<noteq> n" if "(x, j, i) \<in> set (timers p)" "x \<noteq> t" for x j i
    using timers_okD(3) [OF ok(3) that(1)] tn(3) that(2) by auto
  have "map_ok ?q"
  proof (rule map_okI)
    fix j i assume "map_of (entries ?q) j = Some i"
    then have j: "map_of (entries p) j = Some i" "i \<noteq> n" using em by blast+
    show "i < length (store ?q) \<and> i \<notin> set (disposed ?q)" using map_okD(1,2) [OF ok(2) j(1)] j(2) by simp
    show "k' = j" if "map_of (entries ?q) k' = Some i" for k'
      using map_okD(3) [OF ok(2) j(1)] em [OF that] by simp
    assume "holders ?q i = 0"
    then obtain x where x: "(x, j, i) \<in> set (timers p)" using map_okD(4) [OF ok(2) j(1)] by auto
    then have "x \<noteq> t" using timers_okD(1,3) [OF ok(3) x] stamps_okD(2) [OF ok(4) tn(1,3)] j(2) by blast
    then show "\<exists>x. (x, j, i) \<in> set (timers ?q)" using x tm by blast
  qed
  moreover have "timers_ok ?q"
  proof (rule timers_okI)
    show "distinct (map fst (timers ?q))" using ok(3) by (auto simp: timers_ok_def q distinct_map_filter)
    fix x j i assume "(x, j, i) \<in> set (timers ?q)"
    then have b: "(x, j, i) \<in> set (timers p)" "x \<noteq> t" using tm by blast+
    show "i < length (store ?q) \<and> holders ?q i = 0 \<and> enTimer (store ?q ! i) = Some x \<and> i \<notin> set (disposed ?q)"
      using timers_okD(1-4) [OF ok(3) b(1)] other [OF b] by simp
    show "k' = j" if "map_of (entries ?q) k' = Some i" for k'
      using timers_okD(5) [OF ok(3) b(1)] em [OF that] by simp
  qed
  moreover have "counts_ok ?q" "stamps_ok ?q" using ok(1,4) by (simp_all add: counts_ok_def stamps_ok_def)
  moreover have "disposed_ok ?q" using ok(5) tn by (auto simp: disposed_ok_def)
  moreover have "keys_ok ?q" unfolding keys_ok_def
  proof (intro allI impI)
    fix l j assume "l \<in> set (leases ?q)" "map_of (entries ?q) j = Some (lsEntry l)"
    then show "j = lsKey l" using ok(6) em [of j "lsEntry l"] by (simp add: keys_ok_def)
  qed
  ultimately show ?thesis by (simp add: pool_ok_def)
qed

lemma newPool_ok: "pool_ok newPool"
  by (simp add: newPool_def pool_ok_def map_ok_def counts_ok_def timers_ok_def stamps_ok_def disposed_ok_def keys_ok_def)

lemma poolStep_ok: "pool_ok p \<Longrightarrow> pool_ok (poolStep e p)"
  by (cases e) (simp_all add: acquire_ok releaseLease_ok evict_ok fireTimer_ok)

lemma run_ok: "pool_ok p \<Longrightarrow> pool_ok (fold poolStep es p)"
  by (induction es arbitrary: p) (simp_all add: poolStep_ok)

section \<open>The properties\<close>

text \<open>A key still in the map: its entry is not disposed of, and it is held or a timer waits for it.\<close>

definition alive :: "('k, 'v) pool \<Rightarrow> nat \<Rightarrow> bool" where
  "alive p n \<longleftrightarrow> n < length (store p) \<and> n \<notin> set (disposed p) \<and> (holders p n = 0 \<longrightarrow> list_ex (\<lambda>(_, _, m). m = n) (timers p))"

lemma alive_entry: "pool_ok p \<Longrightarrow> map_of (entries p) k = Some n \<Longrightarrow> alive p n"
  using map_okD(1,2,4) [of p k n] pool_okD(2) [of p] by (fastforce simp: alive_def list_ex_iff)

lemma held_entry: "pool_ok p \<Longrightarrow> l \<in> set (leases p) \<Longrightarrow> \<not> released l \<Longrightarrow> lsEntry l \<notin> set (disposed p)"
  using pool_okD(5) [of p] by (fastforce simp: disposed_ok_def holders_def filter_empty_conv)

lemma acquire_lease:
  fixes k :: 'k and v :: 'v and p :: "('k, 'v) pool"
  assumes "pool_ok p"
  defines "q \<equiv> acquire k v p"
  shows "leases q \<noteq> [] \<and> lsKey (List.last (leases q)) = k \<and> \<not> released (List.last (leases q))
    \<and> map_of (entries q) k = Some (lsEntry (List.last (leases q)))"
  by (cases "map_of (entries p) k") (simp_all add: q_def acquire_known acquire_new)

text \<open>C37: whatever acquires, releases, evictions and expired timers a pool has seen, no value is
  disposed of twice, and none while somebody holds it: the entry of a lease that was not released
  is never given to the disposer.  Every entry of the map is alive (held, or its grace period runs),
  and \<open>acquire\<close> returns a lease on the entry of its key.\<close>

theorem leases_protect_values:
  fixes es :: "('k, 'v) pool_event list"
  defines "p \<equiv> fold poolStep es newPool"
  shows "distinct (disposed p) \<and> list_all (\<lambda>l. released l \<or> lsEntry l \<notin> set (disposed p)) (leases p)
    \<and> list_all (\<lambda>k. alive p (the (map_of (entries p) k))) (map fst (entries p))
    \<and> (let q = acquire k v p; l = List.last (leases q)
       in lsKey l = k \<and> \<not> released l \<and> map_of (entries q) k = Some (lsEntry l) \<and> alive q (lsEntry l))"
proof -
  have ok: "pool_ok p" unfolding p_def by (rule run_ok [OF newPool_ok])
  have "alive p (the (map_of (entries p) x))" if x: "x \<in> set (map fst (entries p))" for x
  proof -
    obtain n where "map_of (entries p) x = Some n"
      using x map_of_eq_None_iff [of "entries p" x] by (cases "map_of (entries p) x") auto
    then show ?thesis using alive_entry [OF ok] by simp
  qed
  then show ?thesis
    using pool_okD(5) [OF ok] held_entry [OF ok] acquire_lease [OF ok, of k v]
      alive_entry [OF acquire_ok [OF ok, of k v], of k]
    by (auto simp: list_all_iff disposed_ok_def Let_def)
qed

definition demoEvents :: "(nat, nat) pool_event list" where
  "demoEvents = [Acquire 1 10, Acquire 1 20, Release 0, Acquire 2 30, Release 1, Release 2, Fire 0, Acquire 1 40]"

text \<open>Two holders of key 1 and one of key 2; the grace period of key 1 ends, then key 1 is taken again.\<close>

theorem leases_protect_values_witness:
  "let p = fold poolStep demoEvents newPool
   in disposed p = [0] \<and> map enValue (store p) = [10, 30, 40] \<and> distinct (disposed p)
      \<and> list_all (\<lambda>l. released l \<or> lsEntry l \<notin> set (disposed p)) (leases p)"
proof -
  have "disposed (fold poolStep demoEvents newPool) = [0]
      \<and> map enValue (store (fold poolStep demoEvents newPool)) = [10, 30, 40]" by code_simp
  then show ?thesis using leases_protect_values [of demoEvents 1 0] by (simp only: Let_def)
qed

section \<open>Openings are counted\<close>

text \<open>A document is open underneath exactly while more openings than closings were asked for; a
  failed opening and a closing too many count for nothing.\<close>

datatype count_event = Open jsstr bool | Close jsstr

fun countStep :: "count_event \<Rightarrow> doc_counts \<Rightarrow> doc_counts" where
  "countStep (Open d openFails) c = (case openDocument openFails d c of None \<Rightarrow> c | Some c' \<Rightarrow> c')"
| "countStep (Close d) c = closeDocument d c"

fun balance :: "jsstr \<Rightarrow> count_event \<Rightarrow> nat \<Rightarrow> nat" where
  "balance d (Open d' openFails) n = (if d' = d \<and> \<not> openFails then n + 1 else n)"
| "balance d (Close d') n = (if d' = d then n - 1 else n)"

lemma countOf_step: "countOf (countStep e c) d = balance d e (countOf c d)"
  by (cases e) (auto simp: openDocument_def closeDocument_def countOf_def update_conv' delete_conv' Let_def
      split: option.splits)

lemma countOf_fold: "countOf (fold countStep es c) d = fold (balance d) es (countOf c d)"
  by (induction es arbitrary: c) (simp_all add: countOf_step)

definition counted_ok :: "doc_counts \<Rightarrow> bool" where
  "counted_ok c \<longleftrightarrow> (\<forall>d. d \<in> set (opened c) \<longleftrightarrow> 0 < countOf c d)"

lemma opened_step: "d \<in> set (opened (countStep e c)) \<longleftrightarrow>
    (case e of Open d' openFails \<Rightarrow> d \<in> set (opened c) \<or> d = d' \<and> \<not> openFails
     | Close d' \<Rightarrow> d \<in> set (opened c) \<and> (d = d' \<longrightarrow> 1 < countOf c d))"
  by (cases e) (auto simp: openDocument_def closeDocument_def countOf_def Let_def)

lemma counted_ok_step:
  assumes "counted_ok c" shows "counted_ok (countStep e c)"
  unfolding counted_ok_def
proof
  fix d
  have "d \<in> set (opened c) \<longleftrightarrow> 0 < countOf c d" using assms by (simp add: counted_ok_def)
  then show "d \<in> set (opened (countStep e c)) \<longleftrightarrow> 0 < countOf (countStep e c) d"
    unfolding opened_step countOf_step by (cases e) auto
qed

lemma counted_ok_fold: "counted_ok c \<Longrightarrow> counted_ok (fold countStep es c)"
  by (induction es arbitrary: c) (simp_all add: counted_ok_step)

lemma open_while_counted:
  "documentOpenCount (fold countStep es countedEmpty) d = fold (balance d) es 0
   \<and> (d \<in> set (opened (fold countStep es countedEmpty)) \<longleftrightarrow> 0 < fold (balance d) es 0)"
proof -
  have "counted_ok countedEmpty" by (simp add: counted_ok_def countedEmpty_def countOf_def)
  then have "counted_ok (fold countStep es countedEmpty)" by (rule counted_ok_fold)
  moreover have "countOf countedEmpty d = 0" by (simp add: countedEmpty_def countOf_def)
  ultimately show ?thesis by (simp add: counted_ok_def documentOpenCount_def countOf_fold)
qed

end
