(* ===== verification/Frontmatter.thy ===== *)
theory Frontmatter
  imports FormulaEval
begin

text \<open>
  The reading of the front matter of a note (\<open>domain-index/src/frontmatter.ts\<close>): the block between
  the \<open>---\<close> lines, the lines of the block, the scalars and the lists.  The regular expressions are
  written out as functions on code units; \<open>\<s>\<close> and \<open>trim\<close> are \<open>isSpace\<close>, and the line terminators
  of \<open>.\<close>, \<open>^\<close> and \<open>$\<close> are \<open>isEol\<close>.  A \<open>FrontmatterValue\<close> is a \<open>pval\<close> (the same type as
  \<open>PropertyValue\<close>, as the source says), a number is a double of \<open>Doubles\<close>.
\<close>

section \<open>The block\<close>

definition isEol :: "cu \<Rightarrow> bool" where
  "isEol c \<longleftrightarrow> c = 10 \<or> c = 13 \<or> c = 0x2028 \<or> c = 0x2029"

definition isBlank :: "cu \<Rightarrow> bool" where
  "isBlank c \<longleftrightarrow> c = 32 \<or> c = 9"

text \<open>\<open>\r?\n\<close> at the start of a text: the length of the match.\<close>

definition lineBreak :: "jsstr \<Rightarrow> nat option" where
  "lineBreak xs = (if take 2 xs = [13, 10] then Some 2 else if take 1 xs = [10] then Some 1 else None)"

text \<open>\<open>^---[ \t]*\r?\n\<close> at the start of the text.\<close>

definition openMark :: "jsstr \<Rightarrow> nat option" where
  "openMark md =
     (if take 3 md = js ''---''
      then (let n = 3 + length (takeWhile isBlank (drop 3 md))
            in map_option (\<lambda>k. n + k) (lineBreak (drop n md)))
      else None)"

text \<open>\<open>(?:---|\.\.\.)[ \t]*(?:\r?\n|$)\<close>, where \<open>$\<close> also holds before a line terminator.\<close>

definition closeMark :: "jsstr \<Rightarrow> nat option" where
  "closeMark xs =
     (if take 3 xs = js ''---'' \<or> take 3 xs = js ''...''
      then (let n = 3 + length (takeWhile isBlank (drop 3 xs))
            in case lineBreak (drop n xs) of
                 Some k \<Rightarrow> Some (n + k)
               | None \<Rightarrow> if drop n xs = [] \<or> isEol (hd (drop n xs)) then Some n else None)
      else None)"

text \<open>\<open>(?:\r?\n)?^\<close> and the closing mark; \<open>bol\<close> says that the text starts a line.\<close>

definition closeAt :: "bool \<Rightarrow> jsstr \<Rightarrow> nat option" where
  "closeAt bol xs =
     (let here = (if bol then closeMark xs else None)
      in case lineBreak xs of
           None \<Rightarrow> here
         | Some k \<Rightarrow> (case closeMark (drop k xs) of Some e \<Rightarrow> Some (k + e) | None \<Rightarrow> here))"

text \<open>The lazy \<open>[\s\S]*?\<close>: the shortest body followed by the closing mark.  The result is its length
  and the end of the match.\<close>

fun findBody :: "bool \<Rightarrow> jsstr \<Rightarrow> (nat \<times> nat) option" where
  "findBody bol [] = map_option (\<lambda>e. (0, e)) (closeAt bol [])"
| "findBody bol (c # cs) =
     (case closeAt bol (c # cs) of
        Some e \<Rightarrow> Some (0, e)
      | None \<Rightarrow> map_option (\<lambda>(n, e). (Suc n, Suc e)) (findBody (isEol c) cs))"

text \<open>A block: its YAML and its end (its start is 0).\<close>

definition findFrontmatter :: "jsstr \<Rightarrow> (jsstr \<times> nat) option" where
  "findFrontmatter md =
     (case openMark md of
        None \<Rightarrow> None
      | Some o1 \<Rightarrow> map_option (\<lambda>(n, e). (take n (drop o1 md), o1 + e)) (findBody True (drop o1 md)))"

definition stripFrontmatter :: "jsstr \<Rightarrow> jsstr" where
  "stripFrontmatter md = (case findFrontmatter md of None \<Rightarrow> md | Some (_, e) \<Rightarrow> drop e md)"

section \<open>Scalars\<close>

definition quoteChar :: "cu \<Rightarrow> bool" where
  "quoteChar c \<longleftrightarrow> c = 34 \<or> c = 39"

definition quoted :: "jsstr \<Rightarrow> bool" where
  "quoted s \<longleftrightarrow> s \<noteq> [] \<and> quoteChar (hd s)"

definition trimEnd :: "jsstr \<Rightarrow> jsstr" where
  "trimEnd s = rev (dropWhile isSpace (rev s))"

fun unescape :: "jsstr \<Rightarrow> jsstr" where
  "unescape [] = []"
| "unescape [c] = [c]"
| "unescape (c # d # cs) =
     (if c = 92 \<and> (d = 34 \<or> d = 92 \<or> d = 110 \<or> d = 116)
      then (if d = 110 then 10 else if d = 116 then 9 else d) # unescape cs
      else c # unescape (d # cs))"

fun undouble :: "jsstr \<Rightarrow> jsstr" where
  "undouble [] = []"
| "undouble [c] = [c]"
| "undouble (c # d # cs) = (if c = 39 \<and> d = 39 then 39 # undouble cs else c # undouble (d # cs))"

definition unquote :: "jsstr \<Rightarrow> jsstr option" where
  "unquote s =
     (if 2 \<le> length s \<and> hd s = 34 \<and> List.last s = 34 then Some (unescape (butlast (tl s)))
      else if 2 \<le> length s \<and> hd s = 39 \<and> List.last s = 39 then Some (undouble (butlast (tl s)))
      else None)"

text \<open>\<open>s.search(/\s#/)\<close>.\<close>

fun commentAt :: "jsstr \<Rightarrow> nat option" where
  "commentAt [] = None"
| "commentAt [c] = None"
| "commentAt (c # d # cs) = (if isSpace c \<and> d = 35 then Some 0 else map_option Suc (commentAt (d # cs)))"

definition stripComment :: "jsstr \<Rightarrow> jsstr" where
  "stripComment s = (if quoted s then s
     else case commentAt s of None \<Rightarrow> s | Some i \<Rightarrow> trimEnd (take i s))"

text \<open>\<open>/^[-+]?(\d+\.?\d*|\.\d+)([eE][-+]?\d+)?$/\<close>.\<close>

definition isDigits :: "jsstr \<Rightarrow> bool" where
  "isDigits s \<longleftrightarrow> s \<noteq> [] \<and> list_all isDigit s"

definition dropSign :: "jsstr \<Rightarrow> jsstr" where
  "dropSign s = (if s \<noteq> [] \<and> (hd s = 43 \<or> hd s = 45) then tl s else s)"

definition isExponent :: "jsstr \<Rightarrow> bool" where
  "isExponent s \<longleftrightarrow> s = [] \<or> (hd s = 101 \<or> hd s = 69) \<and> isDigits (dropSign (tl s))"

definition isNumber :: "jsstr \<Rightarrow> bool" where
  "isNumber s =
     (let u = dropSign s; r = dropWhile isDigit u
      in if isDigit (hd (u @ [0])) then isExponent (if take 1 r = [46] then dropWhile isDigit (tl r) else r)
         else take 1 u = [46] \<and> isDigit (hd (tl u @ [0])) \<and> isExponent (dropWhile isDigit (tl u)))"

definition parseScalar :: "jsstr \<Rightarrow> pval" where
  "parseScalar raw =
     (let s = stripComment (trim raw)
      in case unquote s of
           Some q \<Rightarrow> PStr q
         | None \<Rightarrow>
             if s \<in> set (map js ['''', ''~'', ''null'', ''Null'', ''NULL'']) then PNull
             else if s \<in> set (map js [''true'', ''True'', ''TRUE'']) then PBool True
             else if s \<in> set (map js [''false'', ''False'', ''FALSE'']) then PBool False
             else if isNumber s then PNum (numberOf s)
             else PStr s)"

text \<open>\<open>String(v)\<close>.\<close>

definition scalarText :: "pval \<Rightarrow> jsstr" where
  "scalarText v = (case v of PNum d \<Rightarrow> numText d | PStr s \<Rightarrow> s
     | PBool b \<Rightarrow> (if b then js ''true'' else js ''false'') | PNull \<Rightarrow> js ''null'' | PList xs \<Rightarrow> joinWith 44 xs)"

definition listItem :: "jsstr \<Rightarrow> jsstr option" where
  "listItem raw = (case parseScalar raw of PNull \<Rightarrow> None | v \<Rightarrow> Some (scalarText v))"

text \<open>The state of \<open>splitInlineList\<close>: the items, the current one and the open quote.\<close>

definition splitChar :: "cu \<Rightarrow> jsstr list \<times> jsstr \<times> cu option \<Rightarrow> jsstr list \<times> jsstr \<times> cu option" where
  "splitChar ch st =
     (case st of (out, cur, q) \<Rightarrow>
        if q \<noteq> None then (out, cur @ [ch], if Some ch = q then None else q)
        else if quoteChar ch then (out, cur @ [ch], Some ch)
        else if ch = 44 then (out @ [cur], [], None)
        else (out, cur @ [ch], None))"

definition splitInlineList :: "jsstr \<Rightarrow> jsstr list" where
  "splitInlineList inner =
     (case fold splitChar inner ([], [], None) of
        (out, cur, _) \<Rightarrow> filter (\<lambda>s. s \<noteq> []) (map trim (out @ [cur])))"

section \<open>The lines\<close>

text \<open>The object under construction.  Its own properties are a list without repeated keys; assigning
  to \<open>__proto__\<close> changes the prototype instead, until the prototype is null.\<close>

datatype fm_proto = ObjectProto | NullProto | ListProto "jsstr list"

record fm_props =
  own :: "(jsstr \<times> pval) list"
  proto :: fm_proto

definition noProps :: fm_props where
  "noProps = \<lparr>own = [], proto = ObjectProto\<rparr>"

definition setProp :: "jsstr \<Rightarrow> pval \<Rightarrow> fm_props \<Rightarrow> fm_props" where
  "setProp k v r =
     (if k = js ''__proto__'' \<and> proto r \<noteq> NullProto
      then (case v of PNull \<Rightarrow> r\<lparr>proto := NullProto\<rparr> | PList xs \<Rightarrow> r\<lparr>proto := ListProto xs\<rparr> | _ \<Rightarrow> r)
      else r\<lparr>own := AList.update k v (own r)\<rparr>)"

text \<open>\<open>const arr = Array.isArray(cur) ? cur : []\<close>.\<close>

definition listAt :: "jsstr \<Rightarrow> fm_props \<Rightarrow> jsstr list" where
  "listAt k r =
     (if k = js ''__proto__'' \<and> proto r \<noteq> NullProto then (case proto r of ListProto xs \<Rightarrow> xs | _ \<Rightarrow> [])
      else (case map_of (own r) k of Some (PList xs) \<Rightarrow> xs | _ \<Rightarrow> []))"

text \<open>\<open>:(?:\s+(.*)|\s*)$\<close> after the key: the value, if there is one.\<close>

definition afterColon :: "jsstr \<Rightarrow> jsstr option option" where
  "afterColon r =
     (if r = [] then Some None
      else if isSpace (hd r) \<and> \<not> list_ex isEol (dropWhile isSpace r) then Some (Some (dropWhile isSpace r))
      else None)"

definition keyWith :: "nat \<Rightarrow> jsstr \<Rightarrow> (jsstr \<times> jsstr option) option" where
  "keyWith n line =
     (if take 1 (drop n line) = [58] then map_option (Pair (take n line)) (afterColon (drop (Suc n) line)) else None)"

text \<open>\<open>/^([^\s:#-][^:]*?|"[^"]+"|'[^']+'):(?:\s+(.*)|\s*)$/\<close>: the key as written and the value.\<close>

definition bareKey :: "jsstr \<Rightarrow> (jsstr \<times> jsstr option) option" where
  "bareKey line =
     (if line = [] \<or> isSpace (hd line) \<or> hd line = 58 \<or> hd line = 35 \<or> hd line = 45 then None
      else keyWith (length (takeWhile (\<lambda>c. c \<noteq> 58) line)) line)"

definition quotedKey :: "jsstr \<Rightarrow> (jsstr \<times> jsstr option) option" where
  "quotedKey line =
     (if quoted line
      then (let n = length (takeWhile (\<lambda>c. c \<noteq> hd line) (tl line))
            in if n = 0 \<or> length line \<le> Suc n then None else keyWith (n + 2) line)
      else None)"

definition keyLine :: "jsstr \<Rightarrow> (jsstr \<times> jsstr option) option" where
  "keyLine line = (case bareKey line of Some kv \<Rightarrow> Some kv | None \<Rightarrow> quotedKey line)"

text \<open>\<open>/^\s*-\s+(.*)$/\<close>, else \<open>/^\s*-$/\<close>.\<close>

definition itemLine :: "jsstr \<Rightarrow> jsstr option" where
  "itemLine line =
     (let s = dropWhile isSpace line
      in if take 1 s \<noteq> [45] then None
         else if tl s = [] then Some []
         else if isSpace (hd (tl s)) \<and> \<not> list_ex isEol (dropWhile isSpace (tl s))
         then Some (dropWhile isSpace (tl s)) else None)"

text \<open>\<open>/^\s*#/\<close>.\<close>

definition isComment :: "jsstr \<Rightarrow> bool" where
  "isComment line \<longleftrightarrow> take 1 (dropWhile isSpace line) = [35]"

definition skipped :: "jsstr \<Rightarrow> bool" where
  "skipped line \<longleftrightarrow> trim line = [] \<or> isComment line"

definition readKeyOf :: "jsstr \<Rightarrow> jsstr" where
  "readKeyOf token = (case unquote token of Some k \<Rightarrow> k | None \<Rightarrow> trim token)"

definition readValue :: "jsstr \<Rightarrow> jsstr \<Rightarrow> fm_props \<Rightarrow> fm_props \<times> jsstr option" where
  "readValue key value r =
     (if value = [] then (setProp key PNull r, Some key)
      else if value = js ''[]'' then (setProp key (PList []) r, None)
      else if hd value = 91 \<and> List.last value = 93
      then (setProp key (PList (List.map_filter listItem (splitInlineList (butlast (tl value))))) r, None)
      else if hd value = 124 \<or> hd value = 62 then (r, None)
      else (setProp key (parseScalar value) r, None))"

definition readLine :: "jsstr \<Rightarrow> fm_props \<times> jsstr option \<Rightarrow> fm_props \<times> jsstr option" where
  "readLine line st =
     (case st of (r, listKey) \<Rightarrow>
        if skipped line then st
        else case (listKey, itemLine line) of
               (Some (c # cs), Some item) \<Rightarrow>
                 (setProp (c # cs) (PList (listAt (c # cs) r @ (case listItem item of None \<Rightarrow> [] | Some v \<Rightarrow> [v]))) r, listKey)
             | _ \<Rightarrow>
                 if isSpace (hd line) then st
                 else case keyLine line of
                        None \<Rightarrow> (r, None)
                      | Some (token, v) \<Rightarrow> readValue (readKeyOf token) (case v of None \<Rightarrow> [] | Some v \<Rightarrow> trim v) r)"

text \<open>\<open>yaml.split(/\r?\n/)\<close>.\<close>

definition stripCR :: "jsstr \<Rightarrow> jsstr" where
  "stripCR s = (if s \<noteq> [] \<and> List.last s = 13 then butlast s else s)"

definition yamlLines :: "jsstr \<Rightarrow> jsstr list" where
  "yamlLines yaml = (let ls = splitOn 10 yaml in map stripCR (butlast ls) @ [List.last ls])"

definition parseFrontmatterYaml :: "jsstr \<Rightarrow> fm_props" where
  "parseFrontmatterYaml yaml = fst (fold readLine (yamlLines yaml) (noProps, None))"

definition parseFrontmatter :: "jsstr \<Rightarrow> fm_props" where
  "parseFrontmatter md = (case findFrontmatter md of None \<Rightarrow> noProps | Some (yaml, _) \<Rightarrow> parseFrontmatterYaml yaml)"

end
