(* ===== verification/FrontmatterEdit.thy ===== *)
theory FrontmatterEdit
  imports Frontmatter
begin

text \<open>
  The editing of the front matter (\<open>domain-index/src/frontmatterEdit.ts\<close>): the entries of the block
  with their positions, the writing of scalars, lists and keys, and the operations on the text of a
  note.
\<close>

section \<open>The entries of the block\<close>

record fm_entry =
  feKey :: jsstr
  feKeyStart :: nat
  feKeyEnd :: nat
  feLineStart :: nat
  feInline :: jsstr
  feEnd :: nat
  feItemPrefix :: "jsstr option"

record fm_scan =
  yamlStart :: nat
  yamlEnd :: nat
  blockEnd :: nat
  eolText :: jsstr
  fmEntries :: "fm_entry list"

definition eolOf :: "jsstr \<Rightarrow> jsstr" where
  "eolOf t = (if list_ex (\<lambda>i. take 2 (drop i t) = [13, 10]) [0..<length t] then [13, 10] else [10])"

definition readKey :: "jsstr \<Rightarrow> jsstr" where
  "readKey token = (if quoted token then scalarText (parseScalar token) else trim token)"

text \<open>\<open>/^(\s*-\s+)/\<close>.\<close>

definition itemPrefix :: "jsstr \<Rightarrow> jsstr option" where
  "itemPrefix line =
     (let sp = takeWhile isSpace line; r = drop (length sp) line
      in if take 1 r = [45] \<and> takeWhile isSpace (tl r) \<noteq> [] then Some (sp @ [45] @ takeWhile isSpace (tl r)) else None)"

text \<open>\<open>line.trim() && !/^#/.test(line) && (/^\s/.test(line) || /^-(\s|$)/.test(line))\<close>.\<close>

definition isContinuation :: "jsstr \<Rightarrow> bool" where
  "isContinuation line \<longleftrightarrow> trim line \<noteq> [] \<and> hd line \<noteq> 35
     \<and> (isSpace (hd line) \<or> hd line = 45 \<and> (tl line = [] \<or> isSpace (hd (tl line))))"

text \<open>One line at \<open>pos\<close>.  The current entry is the last of the list, when there is one.\<close>

definition continueEntry :: "nat \<Rightarrow> jsstr \<Rightarrow> fm_entry \<Rightarrow> fm_entry" where
  "continueEntry contentEnd line e =
     e\<lparr>feEnd := contentEnd,
       feItemPrefix := (if itemPrefix line \<noteq> None \<and> feItemPrefix e = None \<and> feInline e = []
                        then itemPrefix line else feItemPrefix e)\<rparr>"

definition scanLine :: "nat \<Rightarrow> jsstr \<Rightarrow> fm_entry list \<times> bool \<Rightarrow> fm_entry list \<times> bool" where
  "scanLine pos line st =
     (case st of (es, current) \<Rightarrow>
        (case keyLine line of
           Some (token, v) \<Rightarrow>
             (es @ [\<lparr>feKey = readKey token, feKeyStart = pos, feKeyEnd = pos + length token, feLineStart = pos,
                     feInline = (case v of None \<Rightarrow> [] | Some v \<Rightarrow> trim v), feEnd = pos + length line,
                     feItemPrefix = None\<rparr>], True)
         | None \<Rightarrow>
             if current \<and> isContinuation line
             then (butlast es @ [continueEntry (pos + length line) line (List.last es)], current)
             else if trim line \<noteq> [] \<and> \<not> isComment line then (es, False)
             else (es, current)))"

text \<open>\<open>md.indexOf('\n', pos)\<close>.\<close>

definition indexFrom :: "nat \<Rightarrow> jsstr \<Rightarrow> nat option" where
  "indexFrom pos md = map_option ((+) pos) (indexOf 10 (drop pos md))"

function scanLoop :: "jsstr \<Rightarrow> nat \<Rightarrow> nat \<Rightarrow> fm_entry list \<times> bool \<Rightarrow> fm_entry list" where
  "scanLoop md stop pos st =
     (if pos < stop then
        (let lineEnd = (case indexFrom pos md of None \<Rightarrow> stop | Some nl \<Rightarrow> if stop < nl then stop else nl);
             st' = scanLine pos (stripCR (jsSlice pos lineEnd md)) st
         in if stop \<le> lineEnd then fst st' else scanLoop md stop (lineEnd + 1) st')
      else fst st)"
  by pat_completeness auto
termination
  by (relation "measure (\<lambda>(md, stop, pos, st). stop - pos)")
     (auto simp: indexFrom_def split: option.splits if_splits)

declare scanLoop.simps [simp del]

definition scan :: "jsstr \<Rightarrow> fm_scan option" where
  "scan md =
     (case findFrontmatter md of
        None \<Rightarrow> None
      | Some (yaml, e) \<Rightarrow>
          (case openMark md of
             None \<Rightarrow> None
           | Some start \<Rightarrow>
               Some \<lparr>yamlStart = start, yamlEnd = start + length yaml, blockEnd = e, eolText = eolOf md,
                     fmEntries = scanLoop md (start + length yaml) start ([], False)\<rparr>))"

definition findEntry :: "fm_scan \<Rightarrow> jsstr \<Rightarrow> fm_entry option" where
  "findEntry s key = find (\<lambda>e. feKey e = key) (rev (fmEntries s))"

section \<open>Writing values\<close>

text \<open>The four replacements of \<open>quote\<close>, one code unit at a time.\<close>

definition escapeChar :: "cu \<Rightarrow> jsstr" where
  "escapeChar c = (if c = 92 then [92, 92] else if c = 34 then [92, 34]
     else if c = 10 then [92, 110] else if c = 9 then [92, 116] else [c])"

definition quoteText :: "jsstr \<Rightarrow> jsstr" where
  "quoteText s = [34] @ concat (map escapeChar s) @ [34]"

definition specialStart :: "jsstr \<Rightarrow> bool" where
  "specialStart s \<longleftrightarrow> take 2 s = [45, 32] \<or> s = [45]
     \<or> s \<noteq> [] \<and> hd s \<in> set (js ''?:,[]{}#&*!|>'' @ [39, 34] @ js ''%@`'')"

text \<open>\<open>/:(\s|$)/\<close>.\<close>

fun colonSpace :: "jsstr \<Rightarrow> bool" where
  "colonSpace [] = False"
| "colonSpace (c # cs) = (c = 58 \<and> (cs = [] \<or> isSpace (hd cs)) \<or> colonSpace cs)"

definition needsQuotes :: "jsstr \<Rightarrow> bool \<Rightarrow> bool" where
  "needsQuotes s inList =
     (if s = [] \<or> s \<noteq> trim s then True
      else if list_ex (\<lambda>c. c = 10 \<or> c = 13 \<or> c = 9) s then True
      else if specialStart s then True
      else if colonSpace s \<or> commentAt s \<noteq> None then True
      else \<not> inList \<and> parseScalar s \<noteq> PStr s)"

definition formatYamlScalar :: "pval \<Rightarrow> jsstr" where
  "formatYamlScalar v =
     (case v of PNull \<Rightarrow> [] | PBool b \<Rightarrow> (if b then js ''true'' else js ''false'')
      | PNum d \<Rightarrow> (if isFinite d then numText d else [])
      | PStr s \<Rightarrow> (if needsQuotes s False then quoteText s else s)
      | PList xs \<Rightarrow> [])"

definition formatListItem :: "jsstr \<Rightarrow> bool \<Rightarrow> jsstr" where
  "formatListItem s inline =
     (if needsQuotes s True \<or> inline \<and> list_ex (\<lambda>c. c \<in> set (js '',[]{}'')) s then quoteText s else s)"

definition plainKey :: "jsstr \<Rightarrow> bool" where
  "plainKey key \<longleftrightarrow> key \<noteq> [] \<and> key = trim key
     \<and> \<not> (isSpace (hd key) \<or> hd key = 58 \<or> hd key = 35 \<or> hd key = 45 \<or> quoteChar (hd key))
     \<and> 58 \<notin> set (tl key) \<and> commentAt key = None"

definition formatYamlKey :: "jsstr \<Rightarrow> jsstr" where
  "formatYamlKey key =
     (if plainKey key then key
      else if 34 \<in> set key \<and> 39 \<notin> set key then [39] @ key @ [39]
      else [34] @ filter (\<lambda>c. c \<noteq> 34) key @ [34])"

definition trailingComment :: "jsstr \<Rightarrow> jsstr" where
  "trailingComment inline =
     (if quoted inline then []
      else case commentAt inline of None \<Rightarrow> [] | Some i \<Rightarrow> [32] @ trim (drop i inline))"

text \<open>\<open>lines.join(eol)\<close> and \<open>parts.join(', ')\<close>.\<close>

fun joinSep :: "jsstr \<Rightarrow> jsstr list \<Rightarrow> jsstr" where
  "joinSep sep [] = []"
| "joinSep sep [l] = l"
| "joinSep sep (l # l' # ls) = l @ sep @ joinSep sep (l' # ls)"

text \<open>What is kept of the previous value: its style of list, the prefix of its items, its comment.\<close>

definition wasInline :: "fm_entry option \<Rightarrow> bool" where
  "wasInline previous =
     (case previous of None \<Rightarrow> False | Some e \<Rightarrow> take 1 (feInline e) = [91] \<and> feInline e \<noteq> js ''[]'')"

definition keptPrefix :: "fm_entry option \<Rightarrow> jsstr" where
  "keptPrefix previous = (case Option.bind previous feItemPrefix of None \<Rightarrow> js ''  - '' | Some p \<Rightarrow> p)"

definition keptComment :: "fm_entry option \<Rightarrow> jsstr" where
  "keptComment previous =
     (case previous of None \<Rightarrow> [] | Some e \<Rightarrow> if feItemPrefix e = None then trailingComment (feInline e) else [])"

definition formatEntry :: "jsstr \<Rightarrow> pval \<Rightarrow> jsstr \<Rightarrow> fm_entry option \<Rightarrow> jsstr" where
  "formatEntry token v eol previous =
     (case v of
        PList xs \<Rightarrow>
          if xs = [] then token @ js '': []''
          else if wasInline previous
          then token @ js '': ['' @ joinSep (js '', '') (map (\<lambda>x. formatListItem x True) xs) @ js '']''
          else joinSep eol ((token @ js '':'') # map (\<lambda>x. keptPrefix previous @ formatListItem x False) xs)
      | _ \<Rightarrow>
          let scalar = formatYamlScalar v
          in (if scalar = [] then token @ js '':'' else token @ js '': '' @ scalar) @ keptComment previous)"

section \<open>Operations\<close>

definition setFrontmatterValue :: "jsstr \<Rightarrow> jsstr \<Rightarrow> pval \<Rightarrow> jsstr" where
  "setFrontmatterValue md key v =
     (case scan md of
        None \<Rightarrow> (let eol = eolOf md
                 in js ''---'' @ eol @ formatEntry (formatYamlKey key) v eol None @ eol @ js ''---'' @ eol @ md)
      | Some s \<Rightarrow>
          (case findEntry s key of
             Some e \<Rightarrow>
               take (feLineStart e) md @ formatEntry (jsSlice (feKeyStart e) (feKeyEnd e) md) v (eolText s) (Some e)
                 @ drop (feEnd e) md
           | None \<Rightarrow>
               let t = formatEntry (formatYamlKey key) v (eolText s) None
               in if yamlEnd s = yamlStart s then take (yamlStart s) md @ t @ eolText s @ drop (yamlStart s) md
                  else take (yamlEnd s) md @ eolText s @ t @ drop (yamlEnd s) md))"

text \<open>\<open>md.lastIndexOf('\n', i)\<close>.\<close>

definition lastIndexUpTo :: "nat \<Rightarrow> jsstr \<Rightarrow> nat option" where
  "lastIndexUpTo i md = find (\<lambda>j. j < length md \<and> md ! j = 10) (rev [0..<Suc i])"

definition removeRange :: "jsstr \<Rightarrow> fm_scan \<Rightarrow> fm_entry \<Rightarrow> nat \<times> nat" where
  "removeRange md s e =
     (if feEnd e < yamlEnd s
      then (feLineStart e, case indexFrom (feEnd e) md of None \<Rightarrow> 0 | Some i \<Rightarrow> i + 1)
      else if yamlStart s < feLineStart e
      then (case lastIndexUpTo (feLineStart e - 1) md of
              None \<Rightarrow> (length md - 1, feEnd e)
            | Some i \<Rightarrow> (if 0 < i \<and> md ! (i - 1) = 13 then i - 1 else i, feEnd e))
      else (feLineStart e, feEnd e))"

definition removeFrontmatterKey :: "jsstr \<Rightarrow> jsstr \<Rightarrow> jsstr" where
  "removeFrontmatterKey md key =
     (case scan md of
        None \<Rightarrow> md
      | Some s \<Rightarrow>
          (case findEntry s key of
             None \<Rightarrow> md
           | Some e \<Rightarrow>
               (case removeRange md s e of (from1, to1) \<Rightarrow>
                  let next = take from1 md @ drop to1 md
                  in case scan next of
                       None \<Rightarrow> next
                     | Some r \<Rightarrow> if trim (jsSlice (yamlStart r) (yamlEnd r) next) = [] then drop (blockEnd r) next
                                else next)))"

definition renameFrontmatterKey :: "jsstr \<Rightarrow> jsstr \<Rightarrow> jsstr \<Rightarrow> jsstr" where
  "renameFrontmatterKey md old new =
     (case scan md of
        None \<Rightarrow> md
      | Some s \<Rightarrow>
          if old = new \<or> trim new = [] then md
          else if findEntry s new \<noteq> None then md
          else case findEntry s old of
                 None \<Rightarrow> md
               | Some e \<Rightarrow> take (feKeyStart e) md @ formatYamlKey (trim new) @ drop (feKeyEnd e) md)"

definition frontmatterKeys :: "jsstr \<Rightarrow> jsstr list" where
  "frontmatterKeys md = (case scan md of None \<Rightarrow> [] | Some s \<Rightarrow> setOf (map feKey (fmEntries s)))"

end
