(* ===== verification/FrontmatterWrite.thy ===== *)
theory FrontmatterWrite
  imports FrontmatterEdit
begin

text \<open>
  What is written in the front matter is read back: scalars, numbers, keys, and the lines of an
  entry in its three styles (on the line of the key, as an inline list, as a list below the key).
\<close>

section \<open>Scalars\<close>

lemma dropWhile_id: "xs \<noteq> [] \<Longrightarrow> \<not> P (hd xs) \<Longrightarrow> dropWhile P xs = xs"
  by (cases xs) auto

lemma trim_id: "s \<noteq> [] \<Longrightarrow> \<not> isSpace (hd s) \<Longrightarrow> \<not> isSpace (List.last s) \<Longrightarrow> trim s = s"
  by (simp add: trim_def dropWhile_id hd_rev)

lemma trim_ends:
  assumes "trim s = s" "s \<noteq> []"
  shows "\<not> isSpace (hd s) \<and> \<not> isSpace (List.last s)"
proof -
  let ?u = "dropWhile isSpace s"
  have t: "trim s = rev (dropWhile isSpace (rev ?u))" by (simp add: trim_def)
  have "length (trim s) \<le> length ?u" unfolding t by (metis length_dropWhile_le length_rev)
  then have "length s \<le> length ?u" using assms(1) by simp
  moreover have "s = takeWhile isSpace s @ ?u" by simp
  ultimately have us: "?u = s"
    by (metis append_self_conv2 length_append length_0_conv add_le_same_cancel2 le_zero_eq)
  then have h: "\<not> isSpace (hd s)" using hd_dropWhile [of isSpace s] assms(2) by metis
  have "rev (dropWhile isSpace (rev s)) = s" using t us assms(1) by simp
  then have "dropWhile isSpace (rev s) = rev s" by (metis rev_rev_ident)
  then have "\<not> isSpace (hd (rev s))" using hd_dropWhile [of isSpace "rev s"] assms(2) by (metis rev_is_Nil_conv)
  then show ?thesis using h assms(2) by (simp add: hd_rev)
qed

lemma unescape_escape: "unescape (concat (map escapeChar s)) = s"
proof (induction s)
  case (Cons c s)
  have p: "unescape (c # xs) = c # unescape xs" if "c \<noteq> 92" for xs using that by (cases xs) auto
  show ?case using Cons p by (auto simp: escapeChar_def)
qed simp

lemma quoteText_simps [simp]:
  "quoteText s \<noteq> []" "hd (quoteText s) = 34" "List.last (quoteText s) = 34" "quoted (quoteText s)"
  "trim (quoteText s) = quoteText s" "2 \<le> length (quoteText s)"
  "butlast (tl (quoteText s)) = concat (map escapeChar s)"
proof -
  show h: "quoteText s \<noteq> []" "hd (quoteText s) = 34" "List.last (quoteText s) = 34" "2 \<le> length (quoteText s)"
    "butlast (tl (quoteText s)) = concat (map escapeChar s)" by (simp_all add: quoteText_def)
  show "quoted (quoteText s)" using h by (simp add: quoted_def quoteChar_def)
  show "trim (quoteText s) = quoteText s" by (rule trim_id) (simp_all add: h isSpace_def)
qed

lemma unquote_quoteText [simp]: "unquote (quoteText s) = Some s"
  by (simp add: unquote_def unescape_escape)

lemma parseScalar_quoteText [simp]: "parseScalar (quoteText s) = PStr s"
  by (simp add: parseScalar_def stripComment_def)

lemma parseScalar_roundtrip: "parseScalar (formatYamlScalar (PStr s)) = PStr s"
  by (simp add: formatYamlScalar_def needsQuotes_def split: if_splits)

lemma listItem_quoteText [simp]: "listItem (quoteText s) = Some s"
  by (simp add: listItem_def scalarText_def)

text \<open>A bare text: trimmed, without a comment, and not a quoted one.\<close>

definition bareText :: "jsstr \<Rightarrow> bool" where
  "bareText s \<longleftrightarrow> s \<noteq> [] \<and> trim s = s \<and> commentAt s = None \<and> \<not> quoted s \<and> hd s \<notin> {91, 124, 62}"

lemma commentAt_append:
  assumes "commentAt s = None" "s \<noteq> []" "\<not> isSpace (List.last s)" "isSpace c"
  shows "commentAt (s @ c # 35 # cs) = Some (length s)"
  using assms(1-3)
proof (induction s rule: commentAt.induct)
  case (2 c')
  then show ?case using assms(4) by (simp add: isSpace_def)
next
  case (3 c' d cs')
  then show ?case using assms(4) by (auto split: if_splits)
qed simp

lemma parseScalar_comment:
  assumes "bareText s" "c = [] \<or> \<not> isSpace (List.last c)"
  shows "parseScalar (s @ 32 # 35 # c) = parseScalar s"
proof -
  have s: "s \<noteq> []" "trim s = s" "commentAt s = None" "\<not> quoted s" using assms(1) by (simp_all add: bareText_def)
  have e: "\<not> isSpace (hd s)" "\<not> isSpace (List.last s)" using trim_ends [OF s(2,1)] by auto
  let ?t = "s @ 32 # 35 # c"
  have "isSpace 35 = False" "isSpace 32" by (simp_all add: isSpace_def)
  then have t: "trim ?t = ?t" using s(1) e(1) assms(2) by (intro trim_id) auto
  have q: "\<not> quoted ?t" using s(1,4) by (simp add: quoted_def)
  have ca: "commentAt ?t = Some (length s)" using commentAt_append [OF s(3,1) e(2) \<open>isSpace 32\<close>] .
  have te: "trimEnd s = s" using s(1) e(2) by (cases s rule: rev_cases) (simp_all add: trimEnd_def)
  have "stripComment (trim ?t) = s" using t q ca te by (simp add: stripComment_def)
  moreover have "stripComment (trim s) = s" using s by (simp add: stripComment_def)
  ultimately show ?thesis by (simp add: parseScalar_def)
qed

section \<open>Key lines\<close>

lemma keyWith_iff: "keyWith n line = Some (t, v) \<longleftrightarrow>
    (\<exists>r. line = t @ 58 # r \<and> length t = n \<and> afterColon r = Some v)"
proof
  assume a: "keyWith n line = Some (t, v)"
  then have c: "take 1 (drop n line) = [58]" "t = take n line" "afterColon (drop (Suc n) line) = Some v"
    by (auto simp: keyWith_def split: if_splits)
  then have n: "n < length line" by (metis drop_eq_Nil linorder_not_le not_Cons_self2 take_Nil)
  then have "drop n line = 58 # drop (Suc n) line" using c(1) by (simp add: Cons_nth_drop_Suc [symmetric])
  then show "\<exists>r. line = t @ 58 # r \<and> length t = n \<and> afterColon r = Some v"
    using c n by (intro exI [of _ "drop (Suc n) line"]) (metis append_take_drop_id length_take min.absorb2 less_imp_le)
next
  assume "\<exists>r. line = t @ 58 # r \<and> length t = n \<and> afterColon r = Some v"
  then show "keyWith n line = Some (t, v)" by (auto simp: keyWith_def)
qed

text \<open>A key as it stands on a line of its own: what \<open>keyLine\<close> finds there.\<close>

definition bareToken :: "jsstr \<Rightarrow> bool" where
  "bareToken t \<longleftrightarrow> t \<noteq> [] \<and> \<not> isSpace (hd t) \<and> hd t \<noteq> 35 \<and> hd t \<noteq> 45 \<and> 58 \<notin> set t"

lemma takeWhile_until: "x \<notin> set t \<Longrightarrow> takeWhile (\<lambda>c. c \<noteq> x) (t @ x # r) = t"
  by (induction t) auto

lemma dropWhile_until: "x \<notin> set t \<Longrightarrow> dropWhile (\<lambda>c. c \<noteq> x) (t @ x # r) = x # r"
  by (induction t) auto

lemma takeWhile_free: "x \<notin> set (takeWhile (\<lambda>c. c \<noteq> x) xs)"
  using set_takeWhileD [of x "\<lambda>c. c \<noteq> x" xs] by blast

lemma bareKey_token: "bareToken t \<Longrightarrow> bareKey (t @ 58 # r) = map_option (Pair t) (afterColon r)"
proof -
  assume t: "bareToken t"
  then have "hd t \<noteq> 58" by (cases t) (auto simp: bareToken_def)
  then show ?thesis using t takeWhile_until [of 58 t r]
    by (simp add: bareKey_def bareToken_def keyWith_def)
qed

lemma bareKey_Some:
  assumes "bareKey line = Some (t, v)"
  obtains r where "line = t @ 58 # r" "bareToken t" "afterColon r = Some v"
proof -
  have h: "line \<noteq> []" "\<not> isSpace (hd line)" "hd line \<noteq> 58" "hd line \<noteq> 35" "hd line \<noteq> 45"
    and k: "keyWith (length (takeWhile (\<lambda>c. c \<noteq> 58) line)) line = Some (t, v)"
    using assms by (simp_all add: bareKey_def split: if_splits)
  from k obtain r where r: "line = t @ 58 # r" "length t = length (takeWhile (\<lambda>c. c \<noteq> 58) line)" "afterColon r = Some v"
    unfolding keyWith_iff by blast
  have "t = takeWhile (\<lambda>c. c \<noteq> 58) line" using r(1,2) by (metis append_eq_conv_conj takeWhile_eq_take)
  then have "58 \<notin> set t" using takeWhile_free by metis
  moreover have "t \<noteq> []" using h(3) r(1) by auto
  ultimately show ?thesis using that [OF r(1) _ r(3)] h r(1) by (simp add: bareToken_def)
qed

text \<open>A quoted key with a colon inside: the colon must not be followed by a space.\<close>

definition quotedToken :: "jsstr \<Rightarrow> bool" where
  "quotedToken t \<longleftrightarrow> (\<exists>q b. t = [q] @ b @ [q] \<and> quoteChar q \<and> b \<noteq> [] \<and> q \<notin> set b
     \<and> (58 \<in> set b \<longrightarrow> \<not> isSpace (hd (tl (dropWhile (\<lambda>c. c \<noteq> 58) (b @ [q]))))))"

lemma quotedKey_token:
  assumes "quoteChar q" "b \<noteq> []" "q \<notin> set b"
  shows "quotedKey (([q] @ b @ [q]) @ 58 # r) = map_option (Pair ([q] @ b @ [q])) (afterColon r)"
  using assms takeWhile_until [of q b "58 # r"] by (simp add: quotedKey_def quoted_def keyWith_def)

lemma quotedKey_Some:
  assumes "quotedKey line = Some (t, v)"
  obtains q b r where "line = ([q] @ b @ [q]) @ 58 # r" "t = [q] @ b @ [q]" "quoteChar q" "b \<noteq> []" "q \<notin> set b"
    "afterColon r = Some v"
proof -
  let ?b = "takeWhile (\<lambda>c. c \<noteq> hd line) (tl line)"
  have h: "quoted line" "length ?b \<noteq> 0" "Suc (length ?b) < length line"
    and k: "keyWith (length ?b + 2) line = Some (t, v)"
    using assms by (simp_all add: quotedKey_def Let_def split: if_splits)
  from k obtain r where r: "line = t @ 58 # r" "length t = length ?b + 2" "afterColon r = Some v"
    unfolding keyWith_iff by blast
  obtain q cs where l: "line = q # cs" using h(1) by (cases line) (auto simp: quoted_def)
  have "length ?b < length cs" using h(3) l by simp
  then have "cs ! length ?b = q" using nth_length_takeWhile [of "\<lambda>c. c \<noteq> q" cs] l by simp
  then have "take (Suc (length ?b)) cs = ?b @ [q]"
    using \<open>length ?b < length cs\<close> l by (simp add: take_Suc_conv_app_nth takeWhile_eq_take [symmetric])
  moreover have "t = take (length ?b + 2) line" using r(1,2) by (metis append_eq_conv_conj)
  ultimately have "t = [q] @ ?b @ [q]" using l by (simp add: take_Suc)
  moreover have "quoteChar q" "?b \<noteq> []" "q \<notin> set ?b"
    using h(1,2) l takeWhile_free [of q cs] by (simp_all add: quoted_def)
  ultimately show ?thesis using that [of q ?b r] r(1,3) by blast
qed


text \<open>A token that is read back whatever value follows.\<close>

definition goodToken :: "jsstr \<Rightarrow> bool" where
  "goodToken t \<longleftrightarrow> t \<noteq> [] \<and> \<not> isSpace (hd t) \<and> hd t \<noteq> 35 \<and> hd t \<noteq> 45
     \<and> (\<forall>r v. \<not> list_ex isEol r \<longrightarrow> afterColon r = Some v \<longrightarrow> keyLine (t @ 58 # r) = Some (t, v))"

lemma bareToken_good: "bareToken t \<Longrightarrow> goodToken t"
  by (simp add: goodToken_def keyLine_def bareKey_token) (simp add: bareToken_def)

lemma bareKey_colon:
  assumes "\<not> isSpace q" "q \<noteq> 58" "q \<noteq> 35" "q \<noteq> 45" "58 \<notin> set b1"
  shows "bareKey (q # b1 @ 58 # r) = map_option (Pair (q # b1)) (afterColon r)"
  using bareKey_token [of "q # b1" r] assms by (simp add: bareToken_def)

lemma quoteChar_plain: "quoteChar q \<Longrightarrow> \<not> isSpace q \<and> q \<noteq> 58 \<and> q \<noteq> 35 \<and> q \<noteq> 45"
  by (auto simp: quoteChar_def isSpace_def)

lemma quotedToken_good:
  assumes "quotedToken t" shows "goodToken t"
proof -
  obtain q b where t: "t = [q] @ b @ [q]" and q: "quoteChar q" and b: "b \<noteq> []" "q \<notin> set b"
    and c: "58 \<in> set b \<longrightarrow> \<not> isSpace (hd (tl (dropWhile (\<lambda>c. c \<noteq> 58) (b @ [q]))))"
    using assms unfolding quotedToken_def by blast
  note qp = quoteChar_plain [OF q]
  have "keyLine (t @ 58 # r) = Some (t, v)" if v: "afterColon r = Some v" for r v
  proof (cases "58 \<in> set b")
    case False
    then have "bareKey (t @ 58 # r) = Some (t, v)" using bareKey_token [of t r] qp v t by (simp add: bareToken_def)
    then show ?thesis by (simp add: keyLine_def)
  next
    case True
    then obtain b1 b2 where s: "b = b1 @ 58 # b2" "58 \<notin> set b1" by (metis split_list_first)
    have "dropWhile (\<lambda>c. c \<noteq> 58) (b @ [q]) = 58 # b2 @ [q]" using s dropWhile_until [of 58 b1 "b2 @ [q]"] by simp
    then have "\<not> isSpace (hd (b2 @ [q]))" using c True by simp
    then have "afterColon (b2 @ [q] @ 58 # r) = None"
      by (cases b2) (simp_all add: afterColon_def)
    then have "bareKey (t @ 58 # r) = None"
      using bareKey_colon [of q b1 "b2 @ [q] @ 58 # r"] qp s t by simp
    then show ?thesis using quotedKey_token [OF q b, of r] v t by (simp add: keyLine_def)
  qed
  then show ?thesis using qp t by (simp add: goodToken_def)
qed

text \<open>The key of every key line without line terminators is such a token.\<close>

lemma keyLine_token:
  assumes "keyLine line = Some (t, v)" "\<not> list_ex isEol line"
  obtains r where "line = t @ 58 # r" "afterColon r = Some v" "goodToken t"
proof (cases "bareKey line")
  case (Some kv)
  then have "bareKey line = Some (t, v)" using assms(1) by (simp add: keyLine_def)
  then obtain r where "line = t @ 58 # r" "bareToken t" "afterColon r = Some v" by (rule bareKey_Some)
  then show ?thesis using that bareToken_good by blast
next
  case None
  then have "quotedKey line = Some (t, v)" using assms(1) by (simp add: keyLine_def)
  then obtain q b r where l: "line = ([q] @ b @ [q]) @ 58 # r" "t = [q] @ b @ [q]" "quoteChar q" "b \<noteq> []" "q \<notin> set b"
    "afterColon r = Some v" by (rule quotedKey_Some)
  have "\<not> isSpace (hd (tl (dropWhile (\<lambda>c. c \<noteq> 58) (b @ [q]))))" if "58 \<in> set b"
  proof -
    from that obtain b1 b2 where s: "b = b1 @ 58 # b2" "58 \<notin> set b1" by (metis split_list_first)
    have d: "dropWhile (\<lambda>c. c \<noteq> 58) (b @ [q]) = 58 # b2 @ [q]" using s dropWhile_until [of 58 b1 "b2 @ [q]"] by simp
    have "afterColon (b2 @ [q] @ 58 # r) = None"
      using None bareKey_colon [of q b1 "b2 @ [q] @ 58 # r"] quoteChar_plain [OF l(3)] s l(1) by simp
    moreover have "\<not> list_ex isEol (dropWhile isSpace (b2 @ [q] @ 58 # r))"
      using assms(2) l(1) s by (auto simp: list_ex_iff dest!: set_dropWhileD)
    ultimately have "\<not> isSpace (hd (b2 @ [q] @ 58 # r))" by (cases b2) (auto simp: afterColon_def split: if_splits)
    then show ?thesis using d by (cases b2) simp_all
  qed
  then have "quotedToken t" unfolding quotedToken_def using l by blast
  then show ?thesis using that l quotedToken_good by blast
qed

text \<open>A key line is no other kind of line.\<close>

lemma keyLine_first:
  assumes "keyLine line = Some (t, v)"
  shows "line \<noteq> []" "\<not> isSpace (hd line)" "hd line \<noteq> 35" "hd line \<noteq> 45"
proof -
  have "line \<noteq> [] \<and> \<not> isSpace (hd line) \<and> hd line \<noteq> 35 \<and> hd line \<noteq> 45"
  proof (cases "bareKey line")
    case (Some kv)
    then show ?thesis by (simp add: bareKey_def split: if_splits)
  next
    case None
    then have "quoted line" using assms by (simp add: keyLine_def quotedKey_def split: if_splits)
    then show ?thesis using quoteChar_plain [of "hd line"] by (simp add: quoted_def)
  qed
  then show "line \<noteq> []" "\<not> isSpace (hd line)" "hd line \<noteq> 35" "hd line \<noteq> 45" by blast+
qed

lemma trim_Nil_iff: "trim s = [] \<longleftrightarrow> list_all isSpace s"
  by (induction s) (auto simp: trim_def list_all_iff)

lemma keyLine_kind:
  assumes "keyLine line = Some (t, v)"
  shows "\<not> skipped line" "itemLine line = None" "\<not> isContinuation line"
proof -
  note k = keyLine_first [OF assms]
  obtain c cs where l: "line = c # cs" using k(1) by (cases line) auto
  show "\<not> skipped line" using k l by (simp add: skipped_def trim_Nil_iff isComment_def)
  show "itemLine line = None" using k l by (simp add: itemLine_def)
  show "\<not> isContinuation line" using k l by (simp add: isContinuation_def)
qed

section \<open>Keys as they are written\<close>

definition goodYamlKey :: "jsstr \<Rightarrow> bool" where
  "goodYamlKey key \<longleftrightarrow> key \<noteq> [] \<and> key \<noteq> js ''__proto__'' \<and> \<not> list_ex isEol key \<and> \<not> colonSpace (key @ [34])
     \<and> (plainKey key \<or> 34 \<notin> set key \<and> 92 \<notin> set key \<or> 34 \<in> set key \<and> 39 \<notin> set key)"

lemma unescape_plain: "92 \<notin> set s \<Longrightarrow> unescape s = s"
  by (induction s rule: unescape.induct) auto

lemma undouble_plain: "39 \<notin> set s \<Longrightarrow> undouble s = s"
  by (induction s rule: undouble.induct) auto

lemma colonSpace_at: "\<not> colonSpace (a @ 58 # b) \<Longrightarrow> b \<noteq> [] \<and> \<not> isSpace (hd b)"
  by (induction a) auto

lemma quoted_key_token:
  assumes "key \<noteq> []" "q = 34 \<or> q = 39" "q \<notin> set key" "\<not> colonSpace (key @ [34])"
    "q = 34 \<Longrightarrow> 92 \<notin> set key"
  shows "goodToken ([q] @ key @ [q]) \<and> readKeyOf ([q] @ key @ [q]) = key \<and> readKey ([q] @ key @ [q]) = key"
proof -
  let ?t = "[q] @ key @ [q]"
  have "\<not> isSpace (hd (tl (dropWhile (\<lambda>c. c \<noteq> 58) (key @ [q]))))" if c: "58 \<in> set key"
  proof -
    from c obtain b1 b2 where s: "key = b1 @ 58 # b2" "58 \<notin> set b1" by (metis split_list_first)
    have "dropWhile (\<lambda>c. c \<noteq> 58) (key @ [q]) = 58 # b2 @ [q]" using s dropWhile_until [of 58 b1 "b2 @ [q]"] by simp
    moreover have "\<not> isSpace (hd (b2 @ [34]))" using assms(4) s colonSpace_at [of b1 "b2 @ [34]"] by simp
    ultimately show ?thesis using assms(2) by (cases b2) (auto simp: isSpace_def)
  qed
  moreover have qc: "quoteChar q" using assms(2) by (auto simp: quoteChar_def)
  ultimately have "quotedToken ?t" unfolding quotedToken_def using assms(1,3) by blast
  moreover have u: "unquote ?t = Some key" using assms(2,3,5)
    by (auto simp: unquote_def unescape_plain undouble_plain)
  moreover have "trim ?t = ?t" using quoteChar_plain [OF qc] by (intro trim_id) simp_all
  moreover have "quoted ?t" using qc by (simp add: quoted_def)
  ultimately show ?thesis
    by (simp add: quotedToken_good readKeyOf_def readKey_def parseScalar_def stripComment_def scalarText_def)
qed

lemma formatYamlKey_good:
  assumes "goodYamlKey key"
  shows "goodToken (formatYamlKey key) \<and> readKeyOf (formatYamlKey key) = key \<and> readKey (formatYamlKey key) = key
    \<and> \<not> list_ex isEol (formatYamlKey key)"
proof -
  have k: "key \<noteq> []" "\<not> list_ex isEol key" "\<not> colonSpace (key @ [34])" using assms by (simp_all add: goodYamlKey_def)
  show ?thesis
  proof (cases "plainKey key")
    case True
    then have "key = trim key" "\<not> isSpace (hd key)" "hd key \<noteq> 58" "hd key \<noteq> 35" "hd key \<noteq> 45" "\<not> quoteChar (hd key)"
      "58 \<notin> set (tl key)" by (simp_all add: plainKey_def)
    note p = this
    have f: "formatYamlKey key = key" using True by (simp add: formatYamlKey_def)
    have "58 \<notin> set key" using p k(1) by (cases key) auto
    then have "bareToken key" using p k(1) by (simp add: bareToken_def)
    moreover have "unquote key = None" using p(6) by (auto simp: unquote_def quoteChar_def)
    moreover have "\<not> quoted key" using p(6) by (simp add: quoted_def)
    ultimately show ?thesis using p(1) k(2) by (simp add: f bareToken_good readKeyOf_def readKey_def)
  next
    case False
    then have f: "formatYamlKey key = (if 34 \<in> set key \<and> 39 \<notin> set key then [39] @ key @ [39]
        else [34] @ filter (\<lambda>c. c \<noteq> 34) key @ [34])"
      by (simp add: formatYamlKey_def)
    show ?thesis
    proof (cases "34 \<in> set key")
      case True
      then have "39 \<notin> set key" using assms False by (auto simp: goodYamlKey_def)
      then show ?thesis using quoted_key_token [of key 39] k f True by (simp add: isEol_def)
    next
      case q: False
      then have "92 \<notin> set key" using assms False by (auto simp: goodYamlKey_def)
      moreover have "filter (\<lambda>c. c \<noteq> 34) key = key" using q by (induction key) auto
      ultimately show ?thesis using quoted_key_token [of key 34] k f q by (simp add: isEol_def)
    qed
  qed
qed

section \<open>Numbers as they are written\<close>

definition numChar :: "cu \<Rightarrow> bool" where
  "numChar c \<longleftrightarrow> isDigit c \<or> c = 43 \<or> c = 45 \<or> c = 46 \<or> c = 101"

lemma numChar_digit: "0 \<le> n \<Longrightarrow> n < 10 \<Longrightarrow> numChar (of_int (48 + n))"
proof -
  assume "0 \<le> n" "n < 10"
  then have "n = 0 \<or> n = 1 \<or> n = 2 \<or> n = 3 \<or> n = 4 \<or> n = 5 \<or> n = 6 \<or> n = 7 \<or> n = 8 \<or> n = 9"
    by presburger
  then show ?thesis by (auto simp: numChar_def isDigit_def)
qed

lemma digitsOf_chars: "0 \<le> n \<Longrightarrow> digitsOf n \<noteq> [] \<and> list_all numChar (digitsOf n)"
proof (induction n rule: digitsOf.induct)
  case (1 n)
  show ?case
  proof (cases "n < 10")
    case True
    then show ?thesis using numChar_digit [of n] 1(2) by (simp add: digitsOf.simps)
  next
    case False
    then show ?thesis using 1 numChar_digit [of "n mod 10"]
      by (simp add: digitsOf.simps [of n] del: of_int_add)
  qed
qed

lemma shortestDigits_nonneg:
  assumes "shortestDigits q = (s, k, n)" shows "0 \<le> s"
proof -
  have "0 \<le> the (digitsTry q m j)" if "digitsTry q m j \<noteq> None" for m j
  proof -
    from that obtain x where "digitsTry q m j = Some x" by auto
    then have "10 ^ (j - 1) \<le> x" unfolding digitsTry_def Let_def by (auto simp: find_Some_iff)
    then have "0 \<le> x" by (meson order_trans zero_le_numeral zero_le_power)
    then show ?thesis using \<open>digitsTry q m j = Some x\<close> by simp
  qed
  then show ?thesis using assms
    by (auto simp: shortestDigits_def Let_def split: if_splits option.splits dest!: find_Some_iff [THEN iffD1])
qed

lemma magText_chars: "magText q \<noteq> [] \<and> list_all numChar (magText q)"
proof -
  obtain s k n where s: "shortestDigits q = (s, k, n)" by (cases "shortestDigits q") auto
  have d: "digitsOf s \<noteq> []" "list_all numChar (digitsOf s)"
    using digitsOf_chars shortestDigits_nonneg [OF s] by blast+
  have e: "list_all numChar (digitsOf \<bar>n - 1\<bar>)" using digitsOf_chars by simp
  have z: "list_all numChar (zeros m)" for m by (simp add: zeros_def list_all_iff numChar_def isDigit_def)
  have t: "list_all numChar (take m (digitsOf s))" "list_all numChar (drop m (digitsOf s))" for m
    using d(2) by (metis append_take_drop_id list_all_append)+
  have c: "numChar 46" "numChar 48" "numChar 43" "numChar 45" "numChar 101" by (simp_all add: numChar_def isDigit_def)
  show ?thesis unfolding magText_def s prod.case Let_def
    using d e z t c by (simp add: Let_def)
qed

lemma numText_chars: "isFinite d \<Longrightarrow> numText d \<noteq> [] \<and> list_all numChar (numText d)"
  using magText_chars by (cases d) (auto simp: numText_def numChar_def isDigit_def)

lemma numChar_plain: "numChar c \<Longrightarrow> \<not> isSpace c \<and> \<not> isEol c \<and> \<not> quoteChar c \<and> c \<notin> {91, 124, 62} \<and> c \<noteq> 10"
proof -
  assume "numChar c"
  then consider "48 \<le> c" "c \<le> 57" | "c \<in> {43, 45, 46, 101}" by (auto simp: numChar_def isDigit_def)
  then show ?thesis
  proof cases
    case 1
    then have "48 \<le> unat c" "unat c \<le> 57" by (simp_all add: word_le_nat_alt)
    then show ?thesis by (auto simp: isSpace_def isEol_def quoteChar_def word_le_nat_alt)
  next
    case 2
    then show ?thesis by (auto simp: isSpace_def isEol_def quoteChar_def)
  qed
qed

lemma commentAt_spaceless: "list_all (\<lambda>c. \<not> isSpace c) s \<Longrightarrow> commentAt s = None"
  by (induction s rule: commentAt.induct) auto

lemma numText_bare: "isFinite d \<Longrightarrow> bareText (numText d) \<and> \<not> list_ex isEol (numText d)"
proof -
  assume "isFinite d"
  then have n: "numText d \<noteq> []" "list_all numChar (numText d)" using numText_chars by blast+
  have p: "\<not> isSpace c \<and> \<not> isEol c \<and> \<not> quoteChar c \<and> c \<notin> {91, 124, 62}" if "c \<in> set (numText d)" for c
    using n(2) that numChar_plain [of c] by (auto simp: list_all_iff)
  have h: "hd (numText d) \<in> set (numText d)" "List.last (numText d) \<in> set (numText d)" using n(1) by simp_all
  have "trim (numText d) = numText d" using p h by (intro trim_id n) auto
  moreover have "commentAt (numText d) = None" by (rule commentAt_spaceless) (use p in \<open>auto simp: list_all_iff\<close>)
  ultimately show ?thesis using n(1) p h by (auto simp: bareText_def quoted_def list_ex_iff)
qed

section \<open>Writing a value and reading it back\<close>

lemma js_chars [simp]: "js ''---'' = [45, 45, 45]" "js ''...'' = [46, 46, 46]" "js '': '' = [58, 32]"
  "js '':'' = [58]" "js '': []'' = [58, 32, 91, 93]" "js '': ['' = [58, 32, 91]" "js '']'' = [93]"
  "js '', '' = [44, 32]" "js ''[]'' = [91, 93]" "js ''  - '' = [32, 32, 45, 32]"
  by code_simp+

text \<open>The lines of a new entry.\<close>

definition entryLines :: "jsstr \<Rightarrow> pval \<Rightarrow> fm_entry option \<Rightarrow> jsstr list" where
  "entryLines token v previous =
     (case v of
        PList xs \<Rightarrow>
          if xs = [] then [token @ [58, 32, 91, 93]]
          else if wasInline previous
          then [token @ [58, 32, 91] @ joinSep [44, 32] (map (\<lambda>x. formatListItem x True) xs) @ [93]]
          else (token @ [58]) # map (\<lambda>x. keptPrefix previous @ formatListItem x False) xs
      | _ \<Rightarrow>
          let scalar = formatYamlScalar v
          in [(if scalar = [] then token @ [58] else token @ [58, 32] @ scalar) @ keptComment previous])"

lemma formatEntry_lines: "formatEntry t v eol prev = joinSep eol (entryLines t v prev)"
  by (cases v) (simp_all add: formatEntry_def entryLines_def Let_def)

lemma entryLines_ne [simp]: "entryLines t v prev \<noteq> []"
  by (cases v) (simp_all add: entryLines_def Let_def)

text \<open>What a value becomes: a number goes through its text, an infinity is dropped.\<close>

definition storedValue :: "pval \<Rightarrow> pval" where
  "storedValue v = (case v of PNum d \<Rightarrow> (if isFinite d then parseScalar (numText d) else PNull) | _ \<Rightarrow> v)"

text \<open>The items of an inline list are separated by the commas between them.\<close>

definition separable :: "jsstr \<Rightarrow> bool" where
  "separable s \<longleftrightarrow> fold splitChar s ([], [], None) = ([], s, None)"

text \<open>What can be written and read back at the place of \<open>previous\<close>: no line terminator reaches the
  text, a comment is kept after a bare scalar only, every item of a list reads back as itself.\<close>

definition writableItem :: "bool \<Rightarrow> jsstr \<Rightarrow> bool" where
  "writableItem inline x \<longleftrightarrow> listItem (formatListItem x inline) = Some x \<and> \<not> list_ex isEol (formatListItem x inline)
     \<and> (\<not> inline \<or> separable (formatListItem x inline))"

definition writable :: "fm_entry option \<Rightarrow> pval \<Rightarrow> bool" where
  "writable previous v \<longleftrightarrow>
     (case v of
        PList xs \<Rightarrow> list_all (writableItem (wasInline previous)) xs
      | _ \<Rightarrow> \<not> list_ex isEol (formatYamlScalar v)
          \<and> (keptComment previous = [] \<or> formatYamlScalar v \<noteq> [] \<and> \<not> quoted (formatYamlScalar v)))"

lemma setProp_own:
  assumes "k \<noteq> js ''__proto__''"
  shows "map_of (own (setProp k v r)) k' = (if k' = k then Some v else map_of (own r) k')" "proto (setProp k v r) = proto r"
  using assms by (simp_all add: setProp_def update_conv')

lemma listAt_own: "k \<noteq> js ''__proto__'' \<Longrightarrow> map_of (own r) k = Some (PList xs) \<Longrightarrow> listAt k r = xs"
  by (simp add: listAt_def)

lemma goodToken_key:
  "goodToken t \<Longrightarrow> \<not> list_ex isEol r \<Longrightarrow> afterColon r = Some v \<Longrightarrow> keyLine (t @ 58 # r) = Some (t, v)"
  by (simp add: goodToken_def)

lemma readLine_key:
  assumes "keyLine line = Some (t, v)"
  shows "readLine line (r, lk) = readValue (readKeyOf t) (case v of None \<Rightarrow> [] | Some v \<Rightarrow> trim v) r"
  using keyLine_kind [OF assms] keyLine_first [OF assms] assms
  by (simp add: readLine_def split: option.splits list.splits)

lemma afterColon_value:
  assumes "s \<noteq> []" "\<not> isSpace (hd s)" "\<not> list_ex isEol s"
  shows "afterColon (32 # s) = Some (Some s)"
  using assms by (simp add: afterColon_def isSpace_def dropWhile_id)

lemma afterColon_Nil: "afterColon [] = Some None"
  by (simp add: afterColon_def)

text \<open>A value on the line of the key.\<close>

lemma read_value_line:
  assumes "goodToken t" "s \<noteq> []" "trim s = s" "\<not> list_ex isEol s"
  shows "readLine (t @ [58, 32] @ s) (r, lk) = readValue (readKeyOf t) s r"
proof -
  have "afterColon (32 # s) = Some (Some s)" using assms trim_ends [of s] by (intro afterColon_value) simp_all
  moreover have "\<not> list_ex isEol (32 # s)" using assms(4) by (simp add: isEol_def)
  ultimately have "keyLine (t @ 58 # 32 # s) = Some (t, Some s)" using goodToken_key [OF assms(1)] by blast
  from readLine_key [OF this] show ?thesis using assms(3) by simp
qed

lemma read_key_alone:
  assumes "goodToken t" shows "readLine (t @ [58]) (r, lk) = (setProp (readKeyOf t) PNull r, Some (readKeyOf t))"
proof -
  have "keyLine (t @ 58 # []) = Some (t, None)" using goodToken_key [OF assms, of "[]"] by (simp add: afterColon_Nil)
  from readLine_key [OF this] show ?thesis by (simp add: readValue_def)
qed

lemma readValue_scalar:
  assumes "s \<noteq> []" "hd s \<notin> {91, 124, 62}"
  shows "readValue K s r = (setProp K (parseScalar s) r, None)"
  using assms by (auto simp: readValue_def)

text \<open>The comments that are kept.\<close>

lemma commentAt_drop: "commentAt s = Some i \<Longrightarrow> \<exists>c r. drop i s = c # 35 # r \<and> isSpace c"
  by (induction s arbitrary: i rule: commentAt.induct) (auto split: if_splits)

lemma set_trim: "set (trim s) \<subseteq> set s"
  by (auto simp: trim_def dest!: set_dropWhileD)

lemma keptComment_shape:
  assumes "case prev of None \<Rightarrow> True | Some e \<Rightarrow> \<not> list_ex isEol (feInline e)" "keptComment prev \<noteq> []"
  obtains c where "keptComment prev = 32 # 35 # c" "c = [] \<or> \<not> isSpace (List.last c)" "\<not> list_ex isEol c"
proof -
  obtain e where e: "prev = Some e" "keptComment prev = trailingComment (feInline e)"
    using assms(2) by (auto simp: keptComment_def split: option.splits if_splits)
  then obtain i where i: "commentAt (feInline e) = Some i" "keptComment prev = 32 # trim (drop i (feInline e))"
    using assms(2) by (auto simp: trailingComment_def split: if_splits option.splits)
  obtain sp r where d: "drop i (feInline e) = sp # 35 # r" "isSpace sp" using commentAt_drop [OF i(1)] by blast
  have n35: "\<not> isSpace 35" by (simp add: isSpace_def)
  have "trim (sp # 35 # r) = rev (dropWhile isSpace (rev r @ [35]))" using d(2) n35 by (simp add: trim_def)
  also have "\<dots> = 35 # rev (dropWhile isSpace (rev r))"
    using n35 by (cases "list_all isSpace (rev r)") (auto simp: dropWhile_append list_all_iff)
  finally have t: "trim (sp # 35 # r) = 35 # rev (dropWhile isSpace (rev r))" .
  let ?c = "rev (dropWhile isSpace (rev r))"
  have "?c = [] \<or> \<not> isSpace (List.last ?c)" using hd_dropWhile [of isSpace "rev r"] by (auto simp: last_rev)
  moreover have "set ?c \<subseteq> set (feInline e)"
  proof -
    have "set ?c \<subseteq> set r" by (auto dest!: set_dropWhileD)
    moreover have "set r \<subseteq> set (feInline e)" using d(1) by (metis set_drop_subset set_subset_Cons subset_trans)
    ultimately show ?thesis by blast
  qed
  then have "\<not> list_ex isEol ?c" using assms(1) e(1) by (auto simp: list_ex_iff)
  ultimately show ?thesis using that [of ?c] i(2) d(1) t by simp
qed

lemma bare_string:
  assumes "\<not> needsQuotes s l" shows "s \<noteq> [] \<and> trim s = s \<and> commentAt s = None \<and> \<not> quoted s \<and> bareText s"
proof -
  have "s \<noteq> []" "trim s = s" "\<not> specialStart s" "commentAt s = None"
    using assms by (auto simp: needsQuotes_def split: if_splits)
  moreover from this have "hd s \<notin> set (js ''?:,[]{}#&*!|>'' @ [39, 34] @ js ''%@`'')" by (simp add: specialStart_def)
  then have "hd s \<notin> {91, 124, 62}" "\<not> quoteChar (hd s)" by (auto simp: js_def quoteChar_def)
  ultimately show ?thesis by (auto simp: bareText_def quoted_def)
qed

lemma formatYamlScalar_cases:
  assumes "\<And>xs. v \<noteq> PList xs"
  obtains "formatYamlScalar v = []" "storedValue v = PNull"
  | "bareText (formatYamlScalar v)" "parseScalar (formatYamlScalar v) = storedValue v"
  | s where "v = PStr s" "formatYamlScalar v = quoteText s"
proof (cases v)
  case (PNum d)
  show ?thesis
  proof (cases "isFinite d")
    case True
    then show ?thesis using that(2) numText_bare [OF True] PNum by (simp add: formatYamlScalar_def storedValue_def)
  next
    case False
    then show ?thesis using that(1) PNum by (simp add: formatYamlScalar_def storedValue_def)
  qed
next
  case (PStr s)
  show ?thesis
  proof (cases "needsQuotes s False")
    case True
    then show ?thesis using that(3) PStr by (simp add: formatYamlScalar_def)
  next
    case False
    then have "formatYamlScalar v = s" using PStr by (simp add: formatYamlScalar_def)
    then show ?thesis using that(2) bare_string [OF False] parseScalar_roundtrip [of s] PStr
      by (simp add: storedValue_def)
  qed
next
  case (PBool b)
  have "bareText (js ''true'')" "bareText (js ''false'')" "parseScalar (js ''true'') = PBool True"
    "parseScalar (js ''false'') = PBool False" by code_simp+
  then show ?thesis using that(2) PBool by (cases b) (simp_all add: formatYamlScalar_def storedValue_def)
next
  case PNull
  then show ?thesis using that(1) by (simp add: formatYamlScalar_def storedValue_def)
next
  case (PList xs)
  then show ?thesis using assms by blast
qed

text \<open>A list on the line of the key.\<close>

lemma splitChar_shift:
  "fold splitChar s (out, cur, q) =
     (case fold splitChar s ([], [], q) of (o', c', q') \<Rightarrow>
        if o' = [] then (out, cur @ c', q') else (out @ (cur @ hd o') # tl o', c', q'))"
proof (induction s arbitrary: out cur q)
  case (Cons c s)
  define st where "st = splitChar c ([], [], q)"
  obtain o1 c1 q1 where st: "st = (o1, c1, q1)" by (cases st) auto
  have two: "o1 = [] \<or> o1 = [[]] \<and> c1 = []" "splitChar c (out, cur, q) = (if o1 = [] then (out, cur @ c1, q1) else (out @ [cur], [], q1))"
    using st by (auto simp: st_def splitChar_def split: if_splits)
  obtain o2 c2 q2 where r: "fold splitChar s ([], [], q1) = (o2, c2, q2)" by (cases "fold splitChar s ([], [], q1)") auto
  have a: "splitChar c ([], [], q) = (o1, c1, q1)" using st by (simp add: st_def)
  show ?case
  proof (cases "o1 = []")
    case True
    then show ?thesis using Cons.IH [of out "cur @ c1" q1] Cons.IH [of "[]" c1 q1] two r
      by (cases o2) (simp_all add: a)
  next
    case False
    then have "o1 = [[]]" "c1 = []" using two(1) by auto
    then show ?thesis using Cons.IH [of "out @ [cur]" "[]" q1] Cons.IH [of "[[]]" "[]" q1] two r
      by (cases o2) (simp_all add: a)
  qed
qed simp

lemma split_separable: "separable s \<Longrightarrow> fold splitChar s (out, cur, None) = (out, cur @ s, None)"
  by (subst splitChar_shift) (simp add: separable_def)

lemma split_joined:
  assumes "list_all separable (i # is)"
  shows "\<exists>out' cur'. fold splitChar (joinSep [44, 32] (i # is)) (out, cur, None) = (out', cur', None)
    \<and> out' @ [cur'] = out @ (cur @ i) # map ((#) 32) is"
  using assms
proof (induction "is" arbitrary: i out cur)
  case Nil
  then show ?case by (simp add: split_separable)
next
  case (Cons j js)
  have i: "fold splitChar i (out, cur, None) = (out, cur @ i, None)" using Cons.prems by (simp add: split_separable)
  have c: "splitChar 44 (out, cur @ i, None) = (out @ [cur @ i], [], None)" "splitChar 32 (o2, [], None) = (o2, [32], None)" for o2
    by (simp_all add: splitChar_def quoteChar_def)
  have "fold splitChar (joinSep [44, 32] (i # j # js)) (out, cur, None)
      = fold splitChar (joinSep [44, 32] (j # js)) (out @ [cur @ i], [32], None)"
    by (simp add: i c)
  then show ?case using Cons.IH [of j "out @ [cur @ i]" "[32]"] Cons.prems by simp
qed

lemma splitInlineList_joined:
  assumes "list_all separable xs" "xs \<noteq> []" "list_all (\<lambda>x. x \<noteq> [] \<and> trim x = x) xs"
  shows "splitInlineList (joinSep [44, 32] xs) = xs"
proof -
  obtain i "is" where x: "xs = i # is" using assms(2) by (cases xs) auto
  obtain out' cur' where f: "fold splitChar (joinSep [44, 32] xs) ([], [], None) = (out', cur', None)"
    "out' @ [cur'] = i # map ((#) 32) is"
    using split_joined [of i "is" "[]" "[]"] assms(1) x by auto
  have "trim (32 # y) = trim y" for y by (simp add: trim_def isSpace_def)
  then have "map trim (i # map ((#) 32) is) = i # is" using assms(3) x by (simp add: map_idI list_all_iff o_def)
  moreover have "splitInlineList (joinSep [44, 32] xs) = filter (\<lambda>s. s \<noteq> []) (map trim (out' @ [cur']))"
    by (simp add: splitInlineList_def f(1) del: map_append filter_append)
  ultimately show ?thesis using assms(3) x f(2) by (auto simp: list_all_iff simp del: map_append filter_append)
qed

lemma formatListItem_text: "formatListItem x l \<noteq> [] \<and> trim (formatListItem x l) = formatListItem x l"
proof (cases "formatListItem x l = quoteText x")
  case False
  then have "\<not> needsQuotes x True" "formatListItem x l = x" by (auto simp: formatListItem_def split: if_splits)
  then show ?thesis using bare_string [of x True] by simp
qed simp

lemma map_filter_items: "list_all (\<lambda>x. listItem (f x) = Some x) xs \<Longrightarrow> List.map_filter listItem (map f xs) = xs"
  by (induction xs) (simp_all add: List.map_filter_def)

text \<open>A list below the key.\<close>

definition prefixOk :: "jsstr \<Rightarrow> bool" where
  "prefixOk p \<longleftrightarrow> (\<exists>a b. p = a @ 45 # b \<and> list_all isSpace a \<and> b \<noteq> [] \<and> list_all isSpace b) \<and> \<not> list_ex isEol p"

lemma dropWhile_all_append: "list_all P a \<Longrightarrow> dropWhile P (a @ b) = dropWhile P b"
  by (induction a) auto

lemma item_line:
  assumes "prefixOk p" "s \<noteq> []" "trim s = s" "\<not> list_ex isEol s"
  shows "itemLine (p @ s) = Some s" "\<not> skipped (p @ s)"
proof -
  obtain a b where p: "p = a @ 45 # b" "list_all isSpace a" "b \<noteq> []" "list_all isSpace b"
    using assms(1) by (auto simp: prefixOk_def)
  have h: "\<not> isSpace (hd s)" using trim_ends [of s] assms by simp
  have n45: "\<not> isSpace 45" by (simp add: isSpace_def)
  have d: "dropWhile isSpace (p @ s) = 45 # b @ s" using p n45 by (simp add: dropWhile_all_append)
  have hb: "isSpace (hd (b @ s))" using p(3,4) by (cases b) auto
  have ds: "dropWhile isSpace (b @ s) = s" using p(4) h assms(2) by (simp add: dropWhile_all_append dropWhile_id)
  show "itemLine (p @ s) = Some s" using d hb ds p(3) assms(4) by (simp add: itemLine_def)
  show "\<not> skipped (p @ s)" using d p(1) n45 by (simp add: skipped_def isComment_def trim_Nil_iff)
qed

lemma read_items:
  assumes "prefixOk p" "k \<noteq> []" "k \<noteq> js ''__proto__''" "list_all (writableItem False) xs"
    "map_of (own r) k = Some (PList ys) \<or> ys = [] \<and> map_of (own r) k = Some PNull"
  shows "\<exists>r'. fold readLine (map (\<lambda>x. p @ formatListItem x False) xs) (r, Some k) = (r', Some k)
    \<and> proto r' = proto r \<and> (\<forall>k'. k' \<noteq> k \<longrightarrow> map_of (own r') k' = map_of (own r) k')
    \<and> (xs \<noteq> [] \<longrightarrow> map_of (own r') k = Some (PList (ys @ xs)))"
  using assms(4,5)
proof (induction xs arbitrary: r ys)
  case (Cons x xs)
  let ?s = "formatListItem x False"
  have w: "listItem ?s = Some x" "\<not> list_ex isEol ?s" using Cons.prems(1) by (simp_all add: writableItem_def)
  note s = formatListItem_text [of x False]
  obtain c cs where k: "k = c # cs" using assms(2) by (cases k) auto
  have l: "listAt k r = ys" using Cons.prems(2) assms(3) by (auto simp: listAt_def)
  let ?r = "setProp k (PList (ys @ [x])) r"
  have step: "readLine (p @ ?s) (r, Some k) = (?r, Some k)"
    using item_line [OF assms(1) _ _ w(2)] s w(1) l k by (simp add: readLine_def)
  note o = setProp_own [OF assms(3), of "PList (ys @ [x])" r]
  from Cons.IH [of ?r "ys @ [x]"] Cons.prems(1) o(1) [of k]
  obtain r' where r': "fold readLine (map (\<lambda>x. p @ formatListItem x False) xs) (?r, Some k) = (r', Some k)"
    "proto r' = proto ?r" "\<forall>k'. k' \<noteq> k \<longrightarrow> map_of (own r') k' = map_of (own ?r) k'"
    "xs \<noteq> [] \<longrightarrow> map_of (own r') k = Some (PList ((ys @ [x]) @ xs))" by auto
  have "map_of (own r') k = Some (PList (ys @ x # xs))"
    using r'(1,4) o(1) [of k] by (cases "xs = []") auto
  then show ?case using r' o step by (intro exI [of _ r']) simp
qed simp

text \<open>All styles together.\<close>

lemma read_entryLines:
  assumes t: "goodToken t" "readKeyOf t = k" "k \<noteq> []" "k \<noteq> js ''__proto__''"
    and w: "writable prev v" and p: "prefixOk (keptPrefix prev)"
    and e: "case prev of None \<Rightarrow> True | Some e \<Rightarrow> \<not> list_ex isEol (feInline e)"
  shows "\<exists>r' lk'. fold readLine (entryLines t v prev) (r, lk) = (r', lk') \<and> proto r' = proto r
    \<and> (\<forall>k'. map_of (own r') k' = (if k' = k then Some (storedValue v) else map_of (own r) k'))"
proof (cases "\<exists>xs. v = PList xs")
  case False
  then have nl: "\<And>xs. v \<noteq> PList xs" by blast
  let ?s = "formatYamlScalar v" and ?c = "keptComment prev"
  have w': "\<not> list_ex isEol ?s" "?c = [] \<or> ?s \<noteq> [] \<and> \<not> quoted ?s"
    using w False by (cases v; simp add: writable_def)+
  have l: "entryLines t v prev = [(if ?s = [] then t @ [58] else t @ [58, 32] @ ?s) @ ?c]"
    using False by (cases v) (simp_all add: entryLines_def Let_def)
  note o = setProp_own [OF t(4)]
  from nl show ?thesis
  proof (cases v rule: formatYamlScalar_cases)
    case 1
    then have "?c = []" using w'(2) by simp
    then show ?thesis using 1 read_key_alone [OF t(1)] o t(2) by (simp add: l)
  next
    case 2
    note b = 2(1) [unfolded bareText_def]
    have "\<exists>z. ?s @ ?c = z \<and> z \<noteq> [] \<and> hd z = hd ?s \<and> trim z = z \<and> \<not> list_ex isEol z \<and> parseScalar z = parseScalar ?s"
    proof (cases "?c = []")
      case True
      then show ?thesis using b w'(1) by simp
    next
      case False
      obtain c where c: "?c = 32 # 35 # c" "c = [] \<or> \<not> isSpace (List.last c)" "\<not> list_ex isEol c"
        using keptComment_shape [OF e False] .
      have "trim (?s @ 32 # 35 # c) = ?s @ 32 # 35 # c"
        using b trim_ends [of ?s] c(2) by (intro trim_id) (auto simp: isSpace_def)
      moreover have "\<not> list_ex isEol (?s @ 32 # 35 # c)" using w'(1) c(3) by (simp add: isEol_def)
      ultimately show ?thesis using c(1) b parseScalar_comment [OF 2(1) c(2)] by simp
    qed
    then obtain z where z: "?s @ ?c = z" "z \<noteq> []" "hd z = hd ?s" "trim z = z" "\<not> list_ex isEol z" "parseScalar z = parseScalar ?s"
      by blast
    have "entryLines t v prev = [t @ [58, 32] @ z]" using b z(1) by (simp add: l)
    then show ?thesis using read_value_line [OF t(1) z(2,4,5)] readValue_scalar [of z] z(2,3,6) b 2(2) o t(2) by simp
  next
    case (3 s)
    then have "?c = []" using w'(2) by simp
    have "quoteText s \<noteq> []" by simp
    then have "entryLines t v prev = [t @ [58, 32] @ quoteText s]" unfolding l 3(2) \<open>?c = []\<close> by simp
    then show ?thesis using read_value_line [OF t(1), of "quoteText s"] readValue_scalar [of "quoteText s"] w'(1) 3 o t(2)
      by (simp add: storedValue_def)
  qed
next
  case True
  then obtain xs where v: "v = PList xs" by blast
  have w': "list_all (writableItem (wasInline prev)) xs" using w v by (simp add: writable_def)
  note o = setProp_own [OF t(4)]
  consider "xs = []" | "xs \<noteq> []" "wasInline prev" | "xs \<noteq> []" "\<not> wasInline prev" by blast
  then show ?thesis
  proof cases
    case 1
    have "trim [91, 93] = [91, 93]" "\<not> list_ex isEol [91, 93]" by code_simp+
    then have "readLine (t @ [58, 32] @ [91, 93]) (r, lk) = readValue k [91, 93] r"
      using read_value_line [OF t(1), of "[91, 93]"] t(2) by simp
    then show ?thesis using 1 v o by (simp add: entryLines_def readValue_def storedValue_def)
  next
    case 2
    let ?is = "map (\<lambda>x. formatListItem x True) xs" and ?b = "joinSep [44, 32] (map (\<lambda>x. formatListItem x True) xs)"
    have i: "list_all separable ?is" "list_all (\<lambda>x. x \<noteq> [] \<and> trim x = x) ?is" "list_all (\<lambda>x. \<not> list_ex isEol x) ?is"
      "list_all (\<lambda>x. listItem (formatListItem x True) = Some x) xs" "?is \<noteq> []"
      using w' 2 formatListItem_text by (auto simp: writableItem_def list_all_iff)
    have j: "\<not> list_ex isEol (joinSep [44, 32] ls)" if "list_all (\<lambda>x. \<not> list_ex isEol x) ls" for ls
      using that by (induction "[44::cu, 32]" ls rule: joinSep.induct) (auto simp: isEol_def)
    have b: "?b \<noteq> []" using i(2,5) by (cases ?is; cases "tl ?is") auto
    have z: "[91] @ ?b @ [93] \<noteq> []" "trim ([91] @ ?b @ [93]) = [91] @ ?b @ [93]" "\<not> list_ex isEol ([91] @ ?b @ [93])"
      using j [OF i(3)] by (auto intro!: trim_id simp: isSpace_def isEol_def)
    have "readValue k ([91] @ ?b @ [93]) r = (setProp k (PList (List.map_filter listItem (splitInlineList ?b))) r, None)"
      using b by (auto simp: readValue_def)
    also have "List.map_filter listItem (splitInlineList ?b) = xs"
      using splitInlineList_joined [OF i(1,5,2)] map_filter_items [OF i(4)] by simp
    finally have rv: "readValue k ([91] @ ?b @ [93]) r = (setProp k (PList xs) r, None)" .
    have "entryLines t v prev = [t @ [58, 32] @ [91] @ ?b @ [93]]" using 2 v by (simp add: entryLines_def)
    then show ?thesis using read_value_line [OF t(1) z] rv t(2) v o by (simp add: storedValue_def)
  next
    case 3
    let ?r = "setProp k PNull r"
    have w3: "list_all (writableItem False) xs" using w' 3 by simp
    obtain r' where r': "fold readLine (map (\<lambda>x. keptPrefix prev @ formatListItem x False) xs) (?r, Some k) = (r', Some k)"
      "proto r' = proto ?r" "\<forall>k'. k' \<noteq> k \<longrightarrow> map_of (own r') k' = map_of (own ?r) k'" "map_of (own r') k = Some (PList xs)"
      using read_items [OF p t(3,4) w3, of ?r "[]"] o(1) [of PNull r k] 3(1) by auto
    then show ?thesis using 3 v read_key_alone [OF t(1)] t(2) o by (simp add: entryLines_def storedValue_def)
  qed
qed

end
