(* ===== verification/FrontmatterLines.thy ===== *)
theory FrontmatterLines
  imports FrontmatterWrite
begin

text \<open>
  The reading of the block as a fold over its lines: lines that do not mention a key do not touch it,
  and the lines of an entry can be replaced.  The search of the block, written on code units, is
  shown to work line by line.
\<close>

section \<open>Reading the lines around an entry\<close>

abbreviation got :: "fm_props \<times> jsstr option \<Rightarrow> jsstr \<Rightarrow> pval option" where
  "got st k \<equiv> map_of (own (fst st)) k"

text \<open>No key of the line is \<open>k\<close>, nor \<open>__proto__\<close>.\<close>

definition keyless :: "jsstr \<Rightarrow> jsstr \<Rightarrow> bool" where
  "keyless k line \<longleftrightarrow> (case keyLine line of None \<Rightarrow> True | Some (t, _) \<Rightarrow> readKeyOf t \<noteq> k \<and> readKeyOf t \<noteq> js ''__proto__'')"

text \<open>Two states that differ at \<open>k\<close> at most.\<close>

definition sameBut :: "jsstr \<Rightarrow> fm_props \<times> jsstr option \<Rightarrow> fm_props \<times> jsstr option \<Rightarrow> bool" where
  "sameBut k s1 s2 \<longleftrightarrow> snd s1 = snd s2 \<and> snd s1 \<noteq> Some k \<and> snd s1 \<noteq> Some (js ''__proto__'')
     \<and> (\<forall>k'. k' \<noteq> k \<longrightarrow> got s1 k' = got s2 k')"

lemma readValue_own:
  assumes "key \<noteq> js ''__proto__''"
  shows "k \<noteq> key \<Longrightarrow> got (readValue key v r) k = map_of (own r) k"
    "snd (readValue key v r) = (if v = [] then Some key else None)"
    "got (readValue key v r1) key = map_of (own r1) key \<and> got (readValue key v r2) key = map_of (own r2) key
     \<or> got (readValue key v r1) key = got (readValue key v r2) key"
  using assms by (auto simp: readValue_def setProp_own)

lemma readLine_skipped: "skipped line \<Longrightarrow> readLine line st = st"
  by (simp add: readLine_def split: prod.splits)

lemma readLine_item:
  assumes "\<not> skipped line" "itemLine line = Some item" "lk \<noteq> []"
  shows "readLine line (r, Some lk)
    = (setProp lk (PList (listAt lk r @ (case listItem item of None \<Rightarrow> [] | Some v \<Rightarrow> [v]))) r, Some lk)"
  using assms by (cases lk) (simp_all add: readLine_def)

lemma readLine_plain:
  assumes "\<not> skipped line" "itemLine line = None \<or> lk = None \<or> lk = Some []"
  shows "readLine line (r, lk) = (if isSpace (hd line) then (r, lk)
     else case keyLine line of None \<Rightarrow> (r, None)
       | Some (t, v) \<Rightarrow> readValue (readKeyOf t) (case v of None \<Rightarrow> [] | Some v \<Rightarrow> trim v) r)"
  using assms by (auto simp: readLine_def split: option.splits list.splits)

lemma readLine_cases:
  obtains "skipped line"
  | item k where "\<not> skipped line" "itemLine line = Some item" "lk = Some k" "k \<noteq> []"
  | "\<not> skipped line" "itemLine line = None \<or> lk = None \<or> lk = Some []"
  by (metis option.exhaust)

lemma listAt_same: "k \<noteq> js ''__proto__'' \<Longrightarrow> map_of (own r1) k = map_of (own r2) k \<Longrightarrow> listAt k r1 = listAt k r2"
  by (simp add: listAt_def)

lemma sameBut_pair:
  "sameBut k (r1, lk) (r2, lk') \<longleftrightarrow> lk = lk' \<and> lk \<noteq> Some k \<and> lk \<noteq> Some (js ''__proto__'')
     \<and> (\<forall>k'. k' \<noteq> k \<longrightarrow> map_of (own r1) k' = map_of (own r2) k')"
  by (simp add: sameBut_def)

lemma same_item:
  assumes "\<not> skipped line" "itemLine line = Some item" "sameBut k (r1, Some j) (r2, Some j)" "j \<noteq> []"
  shows "sameBut k (readLine line (r1, Some j)) (readLine line (r2, Some j))
    \<and> got (readLine line (r1, Some j)) k = map_of (own r1) k
    \<and> got (readLine line (r2, Some j)) k = map_of (own r2) k"
proof -
  have j: "j \<noteq> k" "j \<noteq> js ''__proto__''" using assms(3) unfolding sameBut_pair by blast+
  have g: "map_of (own r1) k' = map_of (own r2) k'" if "k' \<noteq> k" for k'
    using assms(3) that unfolding sameBut_pair by blast
  have l: "listAt j r1 = listAt j r2" by (rule listAt_same [OF j(2) g [OF j(1)]])
  let ?v = "PList (listAt j r2 @ (case listItem item of None \<Rightarrow> [] | Some v \<Rightarrow> [v]))"
  have r: "readLine line (r1, Some j) = (setProp j ?v r1, Some j)" "readLine line (r2, Some j) = (setProp j ?v r2, Some j)"
    using readLine_item [OF assms(1,2,4)] l by simp_all
  have "map_of (own (setProp j ?v r1)) k' = map_of (own (setProp j ?v r2)) k'" if "k' \<noteq> k" for k'
    using g [OF that] setProp_own(1) [OF j(2)] by simp
  then show ?thesis unfolding r sameBut_pair using j setProp_own(1) [OF j(2)] by simp
qed

lemma same_value:
  assumes K: "K \<noteq> k" "K \<noteq> js ''__proto__''" and s: "sameBut k (r1, lk) (r2, lk)"
  shows "sameBut k (readValue K v r1) (readValue K v r2)
    \<and> got (readValue K v r1) k = map_of (own r1) k \<and> got (readValue K v r2) k = map_of (own r2) k"
proof -
  note o = readValue_own [OF K(2)]
  have g: "map_of (own r1) k' = map_of (own r2) k'" if "k' \<noteq> k" for k'
    using s that unfolding sameBut_pair by blast
  have "got (readValue K v r1) k' = got (readValue K v r2) k'" if "k' \<noteq> k" for k'
  proof (cases "k' = K")
    case True
    then show ?thesis using o(3) [of v r1 r2] g [OF K(1)] by metis
  next
    case False
    then show ?thesis using o(1) [of k' v r1] o(1) [of k' v r2] g [OF that] by metis
  qed
  moreover have "snd (readValue K v r1) = snd (readValue K v r2)" "snd (readValue K v r1) \<noteq> Some k"
    "snd (readValue K v r1) \<noteq> Some (js ''__proto__'')" using K unfolding o(2) by auto
  moreover have "got (readValue K v r1) k = map_of (own r1) k" "got (readValue K v r2) k = map_of (own r2) k"
    using o(1) K(1) by metis+
  ultimately show ?thesis unfolding sameBut_def by blast
qed

lemma same_plain:
  assumes "\<not> skipped line" "itemLine line = None \<or> lk = None \<or> lk = Some []" "keyless k line"
    "sameBut k (r1, lk) (r2, lk)"
  shows "sameBut k (readLine line (r1, lk)) (readLine line (r2, lk))
    \<and> got (readLine line (r1, lk)) k = map_of (own r1) k \<and> got (readLine line (r2, lk)) k = map_of (own r2) k"
proof (cases "isSpace (hd line)")
  case True
  then have "readLine line (r, lk) = (r, lk)" for r using readLine_plain [OF assms(1,2)] by simp
  then show ?thesis using assms(4) by simp
next
  case False
  show ?thesis
  proof (cases "keyLine line")
    case None
    then have "readLine line (r, lk) = (r, None)" for r using False readLine_plain [OF assms(1,2)] by simp
    moreover have "sameBut k (r1, None) (r2, None)" using assms(4) by (simp add: sameBut_pair)
    ultimately show ?thesis by simp
  next
    case (Some kv)
    obtain t v where kv: "kv = (t, v)" by (cases kv)
    then have "readLine line (r, lk) = readValue (readKeyOf t) (case v of None \<Rightarrow> [] | Some v \<Rightarrow> trim v) r" for r
      using Some False readLine_plain [OF assms(1,2)] by simp
    moreover have "readKeyOf t \<noteq> k" "readKeyOf t \<noteq> js ''__proto__''"
      using assms(3) Some kv by (simp_all add: keyless_def)
    ultimately show ?thesis using same_value [OF _ _ assms(4)] by simp
  qed
qed

lemma readLine_same:
  assumes "sameBut k s1 s2" "keyless k line"
  shows "sameBut k (readLine line s1) (readLine line s2) \<and> got (readLine line s1) k = got s1 k
    \<and> got (readLine line s2) k = got s2 k"
proof -
  obtain r1 lk where s1: "s1 = (r1, lk)" by (cases s1)
  obtain r2 lk' where s2: "s2 = (r2, lk')" by (cases s2)
  have [simp]: "lk' = lk" using assms(1) unfolding s1 s2 sameBut_pair by blast
  have s: "sameBut k (r1, lk) (r2, lk)" using assms(1) s1 s2 by simp
  show ?thesis
  proof (cases rule: readLine_cases [where line = line and lk = lk])
    case 1
    then show ?thesis using assms(1) by (simp add: readLine_skipped)
  next
    case (2 item j)
    then show ?thesis using same_item [OF 2(1,2) _ 2(4)] s s1 s2 by simp
  next
    case 3
    then show ?thesis using same_plain [OF 3 assms(2) s] s1 s2 by simp
  qed
qed

lemma fold_same:
  assumes "sameBut k s1 s2" "list_all (keyless k) ls"
  shows "sameBut k (fold readLine ls s1) (fold readLine ls s2) \<and> got (fold readLine ls s1) k = got s1 k
    \<and> got (fold readLine ls s2) k = got s2 k"
  using assms
proof (induction ls arbitrary: s1 s2)
  case (Cons l ls)
  then show ?case using readLine_same [of k s1 s2 l] by (simp del: split_paired_All) (metis)
qed simp

text \<open>The lines after an entry: the first one that is not blank and not a comment does not continue it.\<close>

definition closedPost :: "jsstr list \<Rightarrow> bool" where
  "closedPost ls \<longleftrightarrow> (case dropWhile skipped ls of [] \<Rightarrow> True | l # _ \<Rightarrow> \<not> isContinuation l)"

lemma fold_skipped: "list_all skipped ls \<Longrightarrow> fold readLine ls st = st"
  by (induction ls) (simp_all add: readLine_skipped)

lemma not_continuation:
  assumes "\<not> skipped line" "\<not> isContinuation line"
  shows "\<not> isSpace (hd line)" "itemLine line = None"
proof -
  have n: "trim line \<noteq> []" "\<not> isComment line" using assms(1) by (simp_all add: skipped_def)
  then obtain c cs where l: "line = c # cs" by (cases line) (auto simp: trim_def)
  have c35: "\<not> isSpace 35" "\<not> isSpace 45" by (simp_all add: isSpace_def)
  then have "c \<noteq> 35" using n(2) l by (auto simp: isComment_def)
  then have c: "\<not> isSpace c" "\<not> (c = 45 \<and> (cs = [] \<or> isSpace (hd cs)))" using assms(2) n(1) l by (auto simp: isContinuation_def)
  then show "\<not> isSpace (hd line)" using l by simp
  show "itemLine line = None" using c l by (auto simp: itemLine_def Let_def)
qed

lemma readLine_closing:
  assumes "\<not> skipped line" "\<not> isContinuation line"
  shows "readLine line (r, lk) = readLine line (r, None)"
  using not_continuation [OF assms] assms(1) by (simp add: readLine_plain)

lemma fold_after_entry:
  assumes c: "closedPost ls" and n: "list_all (keyless k) ls" and k: "k \<noteq> js ''__proto__''"
    and g: "\<forall>k'. k' \<noteq> k \<longrightarrow> got s1 k' = got s2 k'"
  shows "(k' \<noteq> k \<longrightarrow> got (fold readLine ls s1) k' = got (fold readLine ls s2) k')
    \<and> got (fold readLine ls s1) k = got s1 k \<and> got (fold readLine ls s2) k = got s2 k"
proof (cases "dropWhile skipped ls")
  case Nil
  then have "list_all skipped ls" by (simp add: list_all_iff)
  then show ?thesis using g by (simp add: fold_skipped)
next
  case (Cons l ms)
  let ?sk = "takeWhile skipped ls"
  have ls: "ls = ?sk @ l # ms" using Cons by (metis takeWhile_dropWhile_id)
  have sk: "list_all skipped ?sk" by (auto simp: list_all_iff dest: set_takeWhileD)
  have l: "\<not> skipped l" "\<not> isContinuation l"
    using Cons c hd_dropWhile [of skipped ls] by (simp_all add: closedPost_def)
  obtain r1 k1 where s1: "s1 = (r1, k1)" by (cases s1) auto
  obtain r2 k2 where s2: "s2 = (r2, k2)" by (cases s2) auto
  have "sameBut k (r1, None) (r2, None)" using g s1 s2 by (simp add: sameBut_def)
  moreover have "list_all (keyless k) (l # ms)" using n ls by (metis list_all_append)
  ultimately have f: "sameBut k (fold readLine (l # ms) (r1, None)) (fold readLine (l # ms) (r2, None))
      \<and> got (fold readLine (l # ms) (r1, None)) k = map_of (own r1) k
      \<and> got (fold readLine (l # ms) (r2, None)) k = map_of (own r2) k"
    using fold_same [of k "(r1, None)" "(r2, None)" "l # ms"] by simp
  have e: "fold readLine ls (r, lk) = fold readLine (l # ms) (r, None)" for r lk
    by (subst ls) (simp add: fold_skipped [OF sk] readLine_closing [OF l, of r lk])
  show ?thesis using f unfolding s1 s2 e sameBut_def by simp
qed

text \<open>The lines of the entry itself.\<close>

lemma readLine_nonkey:
  assumes "keyLine line = None" "lk = None \<or> lk = Some k" "k \<noteq> js ''__proto__''"
  shows "(snd (readLine line (r, lk)) = None \<or> snd (readLine line (r, lk)) = Some k)
    \<and> (k' \<noteq> k \<longrightarrow> got (readLine line (r, lk)) k' = map_of (own r) k')"
proof (cases rule: readLine_cases [where line = line and lk = lk])
  case 1
  then show ?thesis using assms by (auto simp: readLine_skipped)
next
  case (2 item j)
  then show ?thesis using assms(2,3) by (simp add: readLine_item setProp_own)
next
  case 3
  then show ?thesis using assms(1,2) by (auto simp: readLine_plain)
qed

lemma fold_nonkey:
  assumes "list_all (\<lambda>l. keyLine l = None) ls" "lk = None \<or> lk = Some k" "k \<noteq> js ''__proto__''" "k' \<noteq> k"
  shows "got (fold readLine ls (r, lk)) k' = map_of (own r) k'"
  using assms(1,2)
proof (induction ls arbitrary: r lk)
  case (Cons l ls)
  note s = readLine_nonkey [of l lk k r k', OF _ Cons.prems(2) assms(3)]
  have "keyLine l = None" using Cons.prems(1) by simp
  note s = s [OF this]
  have "got (fold readLine ls (fst (readLine l (r, lk)), snd (readLine l (r, lk)))) k' = map_of (own (fst (readLine l (r, lk)))) k'"
    using Cons s by (intro Cons.IH) simp_all
  then show ?case using s assms(4) by simp
qed simp

lemma fold_entry:
  assumes "keyLine y = Some (t, v)" "readKeyOf t = k" "k \<noteq> js ''__proto__''" "list_all (\<lambda>l. keyLine l = None) ls" "k' \<noteq> k"
  shows "got (fold readLine (y # ls) (r, lk)) k' = map_of (own r) k'"
proof -
  let ?s = "readValue k (case v of None \<Rightarrow> [] | Some v \<Rightarrow> trim v) r"
  have r: "readLine y (r, lk) = ?s" using readLine_key [OF assms(1)] assms(2) by simp
  note o = readValue_own [OF assms(3)]
  have "got (fold readLine ls (fst ?s, snd ?s)) k' = map_of (own (fst ?s)) k'"
    using fold_nonkey [OF assms(4) _ assms(3,5), of "snd ?s" "fst ?s"] o(2) by simp
  then show ?thesis using r o(1) assms(5) by simp
qed

text \<open>Replacing the lines of an entry changes its key only.\<close>

theorem replace_entry:
  assumes k: "k \<noteq> js ''__proto__''"
    and old: "keyLine y = Some (t, v)" "readKeyOf t = k" "list_all (\<lambda>l. keyLine l = None) ys"
    and post: "closedPost post" "list_all (keyless k) post"
    and new: "\<And>r lk. \<exists>r' lk'. fold readLine new (r, lk) = (r', lk')
      \<and> (\<forall>k'. map_of (own r') k' = (if k' = k then Some w else map_of (own r) k'))"
  shows "got (fold readLine (pre @ new @ post) st) k' =
    (if k' = k then Some w else got (fold readLine (pre @ (y # ys) @ post) st) k')"
proof -
  obtain r lk where p: "fold readLine pre st = (r, lk)" by (cases "fold readLine pre st") auto
  obtain r' lk' where n: "fold readLine new (r, lk) = (r', lk')"
    "\<And>k'. map_of (own r') k' = (if k' = k then Some w else map_of (own r) k')" using new [of r lk] by blast
  let ?o = "fold readLine (y # ys) (r, lk)"
  have o: "got ?o k' = map_of (own r) k'" if "k' \<noteq> k" for k' using fold_entry [OF old(1,2) k old(3) that] .
  have "(k' \<noteq> k \<longrightarrow> got (fold readLine post (r', lk')) k' = got (fold readLine post ?o) k')
      \<and> got (fold readLine post (r', lk')) k = got (r', lk') k \<and> got (fold readLine post ?o) k = got ?o k"
    by (rule fold_after_entry [OF post k]) (use n(2) o in simp)
  moreover have "fold readLine (pre @ new @ post) st = fold readLine post (r', lk')" using p n(1) by simp
  moreover have "fold readLine (pre @ (y # ys) @ post) st = fold readLine post ?o" using p by simp
  ultimately show ?thesis using n(2) by simp
qed

text \<open>A new entry after the last line, or before a blank one.\<close>

theorem append_entry:
  assumes new: "\<And>r lk. \<exists>r' lk'. fold readLine new (r, lk) = (r', lk')
      \<and> (\<forall>k'. map_of (own r') k' = (if k' = k then Some w else map_of (own r) k'))"
    and post: "list_all skipped post"
  shows "got (fold readLine (pre @ new @ post) st) k' = (if k' = k then Some w else got (fold readLine pre st) k')"
proof -
  obtain r lk where p: "fold readLine pre st = (r, lk)" by (cases "fold readLine pre st") auto
  obtain r' lk' where n: "fold readLine new (r, lk) = (r', lk')"
    "\<And>k'. map_of (own r') k' = (if k' = k then Some w else map_of (own r) k')" using new [of r lk] by blast
  show ?thesis using p n by (simp add: fold_skipped [OF post])
qed

section \<open>The lines of a note\<close>

text \<open>Every carriage return starts a line break, and there is no other line terminator.\<close>

fun plainEols :: "jsstr \<Rightarrow> bool" where
  "plainEols [] = True"
| "plainEols (c # cs) = ((c \<noteq> 13 \<or> take 1 cs = [10]) \<and> c \<noteq> 0x2028 \<and> c \<noteq> 0x2029 \<and> plainEols cs)"

definition clean :: "jsstr \<Rightarrow> bool" where
  "clean l \<longleftrightarrow> \<not> list_ex isEol l"

text \<open>A line as it is split at the line feeds: its carriage return is still there.\<close>

definition tidyRaw :: "jsstr \<Rightarrow> bool" where
  "tidyRaw y \<longleftrightarrow> clean (stripCR y)"

definition markLine :: "jsstr \<Rightarrow> bool" where
  "markLine z \<longleftrightarrow> (take 3 z = [45, 45, 45] \<or> take 3 z = [46, 46, 46]) \<and> list_all isBlank (drop 3 z)"

definition openLine :: "jsstr \<Rightarrow> bool" where
  "openLine z \<longleftrightarrow> take 3 z = [45, 45, 45] \<and> list_all isBlank (drop 3 z)"

lemma clean_simps [simp]: "clean []" "clean (c # l) \<longleftrightarrow> \<not> isEol c \<and> clean l" "clean (a @ b) \<longleftrightarrow> clean a \<and> clean b"
  by (auto simp: clean_def)

lemma stripCR_simps [simp]: "stripCR [] = []" "stripCR (l @ [13]) = l"
  by (simp_all add: stripCR_def)

lemma stripCR_clean: "clean l \<Longrightarrow> stripCR l = l"
  by (cases l rule: rev_cases) (auto simp: stripCR_def isEol_def)

lemma stripCR_Cons: "l \<noteq> [] \<Longrightarrow> stripCR (x # l) = x # stripCR l"
  by (simp add: stripCR_def)

lemma tidyRaw_cases:
  assumes "tidyRaw y"
  obtains z where "clean z" "y = z" "stripCR y = z" | z where "clean z" "y = z @ [13]" "stripCR y = z"
proof (cases "y \<noteq> [] \<and> List.last y = 13")
  case True
  then obtain z where "y = z @ [13]" by (metis append_butlast_last_id)
  then show ?thesis using that(2) assms by (simp add: tidyRaw_def)
next
  case False
  then have "stripCR y = y" by (auto simp: stripCR_def)
  then show ?thesis using that(1) assms by (simp add: tidyRaw_def)
qed

lemma tidyRaw_clean: "clean y \<Longrightarrow> tidyRaw y"
  by (simp add: tidyRaw_def stripCR_clean)

lemma clean_no_feed: "clean l \<Longrightarrow> 10 \<notin> set l \<and> 13 \<notin> set l"
  by (auto simp: clean_def list_ex_iff isEol_def)

lemma tidyRaw_no_feed: "tidyRaw y \<Longrightarrow> 10 \<notin> set y"
  by (erule tidyRaw_cases) (auto dest: clean_no_feed)

lemma plainEols_lines:
  assumes "plainEols md"
  shows "list_all tidyRaw (splitOn 10 md) \<and> clean (List.last (splitOn 10 md))"
  using assms
proof (induction md)
  case (Cons x xs)
  then have IH: "list_all tidyRaw (splitOn 10 xs)" "clean (List.last (splitOn 10 xs))" by simp_all
  obtain l ls where s: "splitOn 10 xs = l # ls" by (cases "splitOn 10 xs") auto
  show ?case
  proof (cases "x = 10")
    case True
    then show ?thesis using IH s by (simp add: tidyRaw_clean)
  next
    case False
    then have sp: "splitOn 10 (x # xs) = (x # l) # ls" using s by simp
    show ?thesis
    proof (cases "x = 13")
      case True
      then have "take 1 xs = [10]" using Cons.prems by simp
      then obtain r where "xs = 10 # r" by (cases xs) auto
      then have "l = []" "ls \<noteq> []" using s by auto
      moreover have "tidyRaw [13]" by (simp add: tidyRaw_def stripCR_def)
      ultimately show ?thesis using True IH sp s by simp
    next
      case x13: False
      then have x: "\<not> isEol x" using Cons.prems False by (simp add: isEol_def)
      have "tidyRaw (x # l)"
        using IH(1) s x x13 by (cases "l = []") (simp_all add: tidyRaw_def stripCR_Cons, simp add: stripCR_def)
      then show ?thesis using IH sp s x by (cases ls) simp_all
    qed
  qed
qed (simp add: tidyRaw_clean)

section \<open>Finding the block line by line\<close>

text \<open>What follows a line: nothing, or a line feed.\<close>

definition lineTail :: "jsstr \<Rightarrow> bool" where
  "lineTail t \<longleftrightarrow> t = [] \<or> hd t = 10"

lemma lineBreak_other: "c \<noteq> 10 \<Longrightarrow> c \<noteq> 13 \<Longrightarrow> lineBreak (c # cs) = None"
  by (simp add: lineBreak_def)

lemma lineBreak_feed [simp]: "lineBreak (10 # cs) = Some 1" "lineBreak (13 # 10 # cs) = Some 2" "lineBreak [] = None"
  "lineBreak [13] = None"
  by (simp_all add: lineBreak_def)

lemma take3_line:
  assumes "clean z" "lineTail t" "d \<noteq> 10" "d \<noteq> 13" and that: "cr = [] \<or> cr = [13]"
  shows "take 3 (z @ cr @ t) = [d, d, d] \<longleftrightarrow> take 3 z = [d, d, d]"
proof (cases "3 \<le> length z")
  case False
  then have "length z = 0 \<or> length z = 1 \<or> length z = 2" by linarith
  moreover have "cr @ t = [] \<or> hd (cr @ t) = 10 \<or> hd (cr @ t) = 13" using that assms(2) by (auto simp: lineTail_def)
  moreover have "take 3 z \<noteq> [d, d, d]" using False by (metis length_take length_Cons list.size(3) min_def numeral_3_eq_3 nle_le)
  ultimately show ?thesis using assms(3,4)
    by (cases "cr @ t"; cases z; cases "tl z") (auto simp: numeral_3_eq_3)
qed simp

lemma blanks_line:
  assumes "clean z" "lineTail t" "cr = [] \<or> cr = [13]"
  shows "takeWhile isBlank (z @ cr @ t) = takeWhile isBlank z"
    "list_all isBlank z \<Longrightarrow> takeWhile isBlank z = z"
    "\<not> list_all isBlank z \<Longrightarrow> \<exists>c cs. drop (length (takeWhile isBlank z)) (z @ cr @ t) = c # cs \<and> \<not> isEol c"
proof -
  show "list_all isBlank z \<Longrightarrow> takeWhile isBlank z = z" by (simp add: takeWhile_eq_all_conv list_all_iff)
  have "takeWhile isBlank (cr @ t) = []"
    using assms(2,3) by (cases t) (auto simp: lineTail_def isBlank_def)
  then show "takeWhile isBlank (z @ cr @ t) = takeWhile isBlank z"
    by (cases "list_all isBlank z") (simp_all add: takeWhile_append list_all_iff takeWhile_eq_all_conv [THEN iffD2])
  assume "\<not> list_all isBlank z"
  then have "dropWhile isBlank z \<noteq> []" by (auto simp: list_all_iff)
  then obtain c cs where d: "dropWhile isBlank z = c # cs" by (cases "dropWhile isBlank z") auto
  then have "c \<in> set z" by (metis list.set_intros(1) set_dropWhileD)
  then have "\<not> isEol c" using assms(1) by (auto simp: clean_def list_ex_iff)
  moreover have "drop (length (takeWhile isBlank z)) (z @ cr @ t) = c # cs @ cr @ t"
    using d dropWhile_eq_drop [of isBlank z] by (simp add: length_takeWhile_le)
  ultimately show "\<exists>c cs. drop (length (takeWhile isBlank z)) (z @ cr @ t) = c # cs \<and> \<not> isEol c" by blast
qed

lemma drop3_line: "3 \<le> length z \<Longrightarrow> drop (3 + n) (z @ r) = drop n (drop 3 z @ r)"
  by (metis add.commute diff_is_0_eq drop_0 drop_append drop_drop)

lemma drop_length_append: "drop (length a) (a @ b) = b"
  by simp

lemma take3_length: "take 3 z = [a, b, c] \<Longrightarrow> 3 \<le> length z"
  using length_take [of 3 z] by simp

lemma closeMark_line:
  assumes "clean z" "lineTail t" "cr = [] \<or> cr = [13]"
  shows "closeMark (z @ cr @ t) \<noteq> None \<longleftrightarrow> markLine z"
proof -
  define X where "X = z @ cr @ t"
  have h: "(take 3 X = [45, 45, 45] \<or> take 3 X = [46, 46, 46]) \<longleftrightarrow> (take 3 z = [45, 45, 45] \<or> take 3 z = [46, 46, 46])"
    unfolding X_def using take3_line [OF assms(1,2) _ _ assms(3)] by simp
  have "closeMark X \<noteq> None \<longleftrightarrow> markLine z"
  proof (cases "take 3 z = [45, 45, 45] \<or> take 3 z = [46, 46, 46]")
    case False
    then show ?thesis using h by (simp add: closeMark_def markLine_def)
  next
    case True
    then have len: "3 \<le> length z" by (auto dest: take3_length)
    let ?z = "drop 3 z"
    have c: "clean ?z" using assms(1) by (metis append_take_drop_id clean_simps(3))
    note b = blanks_line [OF c assms(2,3)]
    have d: "drop 3 X = ?z @ cr @ t" using len by (simp add: X_def)
    show ?thesis
    proof (cases "list_all isBlank ?z")
      case all: True
      have e: "drop (3 + length ?z) X = cr @ t" by (simp only: X_def drop3_line [OF len] drop_length_append)
      moreover have "lineBreak (cr @ t) \<noteq> None \<or> cr @ t = [] \<or> isEol (hd (cr @ t))"
        using assms(2,3) by (cases t) (auto simp: lineTail_def isEol_def)
      ultimately have "closeMark X \<noteq> None" using True h b(1) b(2) [OF all] d
        unfolding closeMark_def js_chars Let_def d b(1) b(2) [OF all] e by (auto split: option.splits)
      then show ?thesis using True all by (simp add: markLine_def)
    next
      case no: False
      obtain ch cs where r: "drop (length (takeWhile isBlank ?z)) (?z @ cr @ t) = ch # cs" "\<not> isEol ch" using b(3) [OF no] by blast
      have e: "drop (3 + length (takeWhile isBlank ?z)) X = ch # cs" using r(1) len by (simp only: drop3_line X_def)
      have "lineBreak (ch # cs) = None" using r(2) by (intro lineBreak_other) (auto simp: isEol_def)
      then have "closeMark X = None"
        unfolding closeMark_def js_chars Let_def d b(1) e using r(2) by simp
      then show ?thesis using no by (simp add: markLine_def)
    qed
  qed
  then show ?thesis by (simp add: X_def)
qed

lemma openMark_line:
  assumes "clean z" "cr = [] \<or> cr = [13]"
  shows "openMark (z @ cr @ 10 # r) = (if openLine z then Some (length (z @ cr) + 1) else None)"
proof -
  define X where "X = z @ cr @ 10 # r"
  have t: "lineTail (10 # r)" by (simp add: lineTail_def)
  have h: "take 3 X = [45, 45, 45] \<longleftrightarrow> take 3 z = [45, 45, 45]"
    unfolding X_def using take3_line [OF assms(1) t _ _ assms(2)] by simp
  have "openMark X = (if openLine z then Some (length (z @ cr) + 1) else None)"
  proof (cases "take 3 z = [45, 45, 45]")
    case False
    then show ?thesis using h by (simp add: openMark_def openLine_def)
  next
    case True
    then have len: "3 \<le> length z" by (auto dest: take3_length)
    let ?z = "drop 3 z"
    have c: "clean ?z" using assms(1) by (metis append_take_drop_id clean_simps(3))
    note b = blanks_line [OF c t assms(2)]
    have d: "drop 3 X = ?z @ cr @ 10 # r" using len by (simp add: X_def)
    show ?thesis
    proof (cases "list_all isBlank ?z")
      case all: True
      have e: "drop (3 + length ?z) X = cr @ 10 # r" by (simp only: X_def drop3_line [OF len] drop_length_append)
      have "lineBreak (cr @ 10 # r) = Some (length cr + 1)" using assms(2) by auto
      then have "openMark X = Some (length (z @ cr) + 1)" using True h len
        unfolding openMark_def js_chars Let_def d b(1) b(2) [OF all] e by simp
      then show ?thesis using True all by (simp add: openLine_def)
    next
      case no: False
      obtain ch cs where r: "drop (length (takeWhile isBlank ?z)) (?z @ cr @ 10 # r) = ch # cs" "\<not> isEol ch"
        using b(3) [OF no] by blast
      have e: "drop (3 + length (takeWhile isBlank ?z)) X = ch # cs" using r(1) len by (simp only: drop3_line X_def)
      have "lineBreak (ch # cs) = None" using r(2) by (intro lineBreak_other) (auto simp: isEol_def)
      then have "openMark X = None" unfolding openMark_def js_chars Let_def d b(1) e by simp
      then show ?thesis using no by (simp add: openLine_def)
    qed
  qed
  then show ?thesis by (simp add: X_def)
qed


text \<open>One line of the body.\<close>

definition found :: "jsstr \<Rightarrow> jsstr \<Rightarrow> nat \<Rightarrow> (nat \<times> nat) option" where
  "found cr rst k =
     (case closeMark rst of
        Some e \<Rightarrow> Some (k, k + length cr + 1 + e)
      | None \<Rightarrow> map_option (\<lambda>(n, e). (k + length cr + 1 + n, k + length cr + 1 + e)) (findBody True rst))"

lemma found_Suc: "map_option (\<lambda>(n, e). (Suc n, Suc e)) (found cr rst k) = found cr rst (Suc k)"
  by (cases "closeMark rst"; cases "findBody True rst") (auto simp: found_def)

lemma closeMark_first: "xs = [] \<or> hd xs \<noteq> 45 \<and> hd xs \<noteq> 46 \<Longrightarrow> closeMark xs = None"
  by (cases xs) (auto simp: closeMark_def)

lemma findBody_break:
  assumes "cr = [] \<or> cr = [13]"
  shows "findBody bol (cr @ 10 # rst) = found cr rst 0"
proof -
  have m: "closeMark (10 # rst) = None" "closeMark (13 # 10 # rst) = None" by (simp_all add: closeMark_first)
  have f: "findBody b (10 # rst) = found [] rst 0" for b
    using m by (cases "closeMark rst"; cases "findBody True rst") (auto simp: closeAt_def found_def isEol_def)
  have "findBody b (13 # 10 # rst) = found [13] rst 0" for b
  proof (cases "closeMark rst")
    case None
    then have "closeAt b (13 # 10 # rst) = None" using m by (simp add: closeAt_def)
    then have "findBody b (13 # 10 # rst) = map_option (\<lambda>(n, e). (Suc n, Suc e)) (findBody True (10 # rst))"
      by (simp add: isEol_def)
    also have "\<dots> = found [] rst (Suc 0)" unfolding f by (rule found_Suc)
    finally show ?thesis using None by (simp add: found_def)
  next
    case (Some e)
    then show ?thesis by (simp add: closeAt_def found_def)
  qed
  then show ?thesis using assms f by auto
qed

lemma findBody_inside:
  assumes "cr = [] \<or> cr = [13]" "clean z"
  shows "findBody False (z @ cr @ 10 # rst) = found cr rst (length z)"
  using assms(2)
proof (induction z)
  case Nil
  then show ?case using findBody_break [OF assms(1)] by simp
next
  case (Cons c z)
  have "lineBreak (c # z @ cr @ 10 # rst) = None" using Cons.prems by (intro lineBreak_other) (auto simp: isEol_def)
  then have "closeAt False ((c # z) @ cr @ 10 # rst) = None" by (simp add: closeAt_def)
  then show ?case using Cons found_Suc [of cr rst "length z"] by simp
qed

lemma findBody_line:
  assumes "clean z" "cr = [] \<or> cr = [13]" "\<not> markLine z"
  shows "findBody True (z @ cr @ 10 # rst) = found cr rst (length z)"
proof (cases z)
  case Nil
  then show ?thesis using findBody_break [OF assms(2)] by simp
next
  case (Cons c z')
  have "lineBreak (z @ cr @ 10 # rst) = None" using Cons assms(1) by (simp add: lineBreak_other isEol_def)
  moreover have "closeMark (z @ cr @ 10 # rst) = None"
    using closeMark_line [OF assms(1) _ assms(2), of "10 # rst"] assms(3) by (simp add: lineTail_def)
  ultimately have "closeAt True (z @ cr @ 10 # rst) = None" by (simp add: closeAt_def)
  moreover have "findBody False (z' @ cr @ 10 # rst) = found cr rst (length z')"
    using findBody_inside [OF assms(2)] assms(1) Cons by simp
  moreover have "\<not> isEol c" using assms(1) Cons by simp
  ultimately show ?thesis using Cons found_Suc [of cr rst "length z'"] by simp
qed

lemma findBody_mark:
  assumes "clean z" "lineTail t" "cr = [] \<or> cr = [13]" "markLine z"
  shows "findBody True (z @ cr @ t) = Some (0, the (closeMark (z @ cr @ t)))"
proof -
  obtain c z' where z: "z = c # z'" using assms(4) by (cases z) (auto simp: markLine_def)
  have "c = 45 \<or> c = 46" using assms(4) z by (auto simp: markLine_def)
  then have "lineBreak (z @ cr @ t) = None" unfolding z by (auto simp: lineBreak_other)
  moreover obtain e where "closeMark (z @ cr @ t) = Some e" using closeMark_line [OF assms(1-3)] assms(4) by auto
  ultimately show ?thesis using z by (auto simp: closeAt_def)
qed

lemma findBody_last: "clean z \<Longrightarrow> \<not> markLine z \<Longrightarrow> findBody True z = None"
proof -
  assume z: "clean z" "\<not> markLine z"
  have i: "findBody False y = None" if "clean y" for y using that
  proof (induction y)
    case (Cons c y)
    then have "lineBreak (c # y) = None" by (intro lineBreak_other) (auto simp: isEol_def)
    then show ?case using Cons by (simp add: closeAt_def)
  qed (simp add: closeAt_def)
  have m: "closeMark z = None" using closeMark_line [OF z(1), of "[]" "[]"] z(2) by (simp add: lineTail_def)
  show ?thesis
  proof (cases z)
    case Nil
    then show ?thesis using m by (simp add: closeAt_def)
  next
    case (Cons c y)
    then have "lineBreak z = None" using z(1) by (simp add: lineBreak_other isEol_def)
    then show ?thesis using Cons m i [of y] z(1) by (simp add: closeAt_def)
  qed
qed

text \<open>All lines: the YAML is the lines before the first mark.\<close>

definition yamlOf :: "jsstr list \<Rightarrow> jsstr" where
  "yamlOf raws = (if raws = [] then [] else joinWith 10 (butlast raws @ [stripCR (List.last raws)]))"

definition plainLine :: "jsstr \<Rightarrow> bool" where
  "plainLine y \<longleftrightarrow> tidyRaw y \<and> \<not> markLine (stripCR y)"

lemma tidyRaw_parts:
  assumes "tidyRaw y" obtains cr where "y = stripCR y @ cr" "cr = [] \<or> cr = [13]" "clean (stripCR y)"
  using assms by (cases rule: tidyRaw_cases) auto

lemma joinWith_tail: "\<exists>t. joinWith 10 (c # rest) = c @ t \<and> lineTail t"
  by (cases rest) (auto simp: lineTail_def)

lemma closeMark_joined:
  assumes "tidyRaw c" shows "closeMark (joinWith 10 (c # rest)) \<noteq> None \<longleftrightarrow> markLine (stripCR c)"
proof -
  obtain cr where c: "c = stripCR c @ cr" "cr = [] \<or> cr = [13]" "clean (stripCR c)" using tidyRaw_parts [OF assms] .
  obtain t where t: "joinWith 10 (c # rest) = c @ t" "lineTail t" using joinWith_tail by blast
  have "joinWith 10 (c # rest) = stripCR c @ cr @ t" using t(1) c(1) by (metis append.assoc)
  then show ?thesis using closeMark_line [OF c(3) t(2) c(2)] by simp
qed

lemma findBody_joined:
  assumes "list_all plainLine raws" "tidyRaw c" "markLine (stripCR c)"
  shows "findBody True (joinWith 10 (raws @ c # rest)) = Some (length (yamlOf raws),
    length (concat (map (\<lambda>y. y @ [10]) raws)) + the (closeMark (joinWith 10 (c # rest))))"
  using assms(1)
proof (induction raws)
  case Nil
  obtain cr where c: "c = stripCR c @ cr" "cr = [] \<or> cr = [13]" "clean (stripCR c)" using tidyRaw_parts [OF assms(2)] .
  obtain t where t: "joinWith 10 (c # rest) = c @ t" "lineTail t" using joinWith_tail by blast
  have "joinWith 10 (c # rest) = stripCR c @ cr @ t" using t(1) c(1) by (metis append.assoc)
  then show ?case using findBody_mark [OF c(3) t(2) c(2) assms(3)] by (simp add: yamlOf_def)
next
  case (Cons y raws)
  then have y: "tidyRaw y" "\<not> markLine (stripCR y)" by (simp_all add: plainLine_def)
  obtain cr where c: "y = stripCR y @ cr" "cr = [] \<or> cr = [13]" "clean (stripCR y)" using tidyRaw_parts [OF y(1)] .
  let ?m = "joinWith 10 (raws @ c # rest)"
  have ly: "length y = length (stripCR y) + length cr" using c(1) by (metis length_append)
  have "joinWith 10 ((y # raws) @ c # rest) = stripCR y @ cr @ 10 # ?m" using c(1) by (simp add: joinWith_Cons)
  then have f: "findBody True (joinWith 10 ((y # raws) @ c # rest)) = found cr ?m (length (stripCR y))"
    using findBody_line [OF c(3,2) y(2)] by simp
  show ?case
  proof (cases raws)
    case Nil
    obtain e where "closeMark ?m = Some e" using closeMark_joined [OF assms(2)] assms(3) Nil by auto
    then show ?thesis using f Nil ly by (simp add: found_def yamlOf_def)
  next
    case (Cons y' raws')
    have "tidyRaw y'" "\<not> markLine (stripCR y')" using Cons.prems Cons by (simp_all add: plainLine_def)
    then have "closeMark ?m = None" using closeMark_joined [of y' "raws' @ c # rest"] Cons by simp
    moreover note Cons.IH
    moreover have "list_all plainLine raws" using Cons.prems by simp
    moreover have "length (yamlOf (y # raws)) = length y + 1 + length (yamlOf raws)"
      using Cons by (simp add: yamlOf_def joinWith_Cons)
    ultimately show ?thesis using f ly by (simp add: found_def)
  qed
qed

lemma findBody_none:
  assumes "list_all plainLine ls" "ls \<noteq> []" "clean (List.last ls)"
  shows "findBody True (joinWith 10 ls) = None"
  using assms
proof (induction ls)
  case (Cons y ls)
  then have y: "tidyRaw y" "\<not> markLine (stripCR y)" by (simp_all add: plainLine_def)
  show ?case
  proof (cases ls)
    case Nil
    then show ?thesis using Cons.prems(3) y(2) by (simp add: findBody_last stripCR_clean)
  next
    case (Cons y' ls')
    obtain cr where c: "y = stripCR y @ cr" "cr = [] \<or> cr = [13]" "clean (stripCR y)" using tidyRaw_parts [OF y(1)] .
    have "joinWith 10 (y # ls) = stripCR y @ cr @ 10 # joinWith 10 ls" using c(1) Cons by simp
    then have f: "findBody True (joinWith 10 (y # ls)) = found cr (joinWith 10 ls) (length (stripCR y))"
      using findBody_line [OF c(3,2) y(2)] by simp
    have "tidyRaw y'" "\<not> markLine (stripCR y')" using Cons.prems(1) Cons by (simp_all add: plainLine_def)
    then have "closeMark (joinWith 10 ls) = None" using closeMark_joined [of y' ls'] Cons by simp
    moreover have "findBody True (joinWith 10 ls) = None" using Cons.IH Cons.prems Cons by simp
    ultimately show ?thesis using f by (simp add: found_def)
  qed
qed simp

end
