(* ===== verification/FrontmatterScan.thy ===== *)
theory FrontmatterScan
  imports FrontmatterLines
begin

text \<open>
  Notes with a block, as the list of their lines, and the entries the scan finds in them with their
  positions: where an entry is, and which lines belong to it.
\<close>

section \<open>A note with a block\<close>

definition noteOf :: "jsstr \<Rightarrow> jsstr list \<Rightarrow> jsstr \<Rightarrow> jsstr list \<Rightarrow> jsstr" where
  "noteOf l0 raws c rest = joinWith 10 (l0 # raws @ c # rest)"

definition block :: "jsstr \<Rightarrow> jsstr list \<Rightarrow> jsstr \<Rightarrow> bool" where
  "block l0 raws c \<longleftrightarrow> tidyRaw l0 \<and> openLine (stripCR l0) \<and> list_all plainLine raws \<and> tidyRaw c \<and> markLine (stripCR c)"

text \<open>The lines of the YAML: the carriage return of the last one belongs to the break before the mark.\<close>

definition yamlRaws :: "jsstr list \<Rightarrow> jsstr list" where
  "yamlRaws raws = (if raws = [] then [] else butlast raws @ [stripCR (List.last raws)])"

definition lastCR :: "jsstr list \<Rightarrow> jsstr" where
  "lastCR raws = (if raws \<noteq> [] \<and> List.last raws \<noteq> [] \<and> List.last (List.last raws) = 13 then [13] else [])"

lemma strip_lastCR: "raws \<noteq> [] \<Longrightarrow> stripCR (List.last raws) @ lastCR raws = List.last raws"
  by (auto simp: stripCR_def lastCR_def) (metis append_butlast_last_id)

lemma yamlRaws_append: "raws \<noteq> [] \<Longrightarrow> yamlRaws (a @ raws) = a @ yamlRaws raws"
  by (simp add: yamlRaws_def butlast_append)

lemma yamlOf_raws: "yamlOf raws = joinWith 10 (yamlRaws raws)"
  by (simp add: yamlOf_def yamlRaws_def)

lemma note_parts:
  "noteOf l0 raws c rest = l0 @ 10 # yamlOf raws
     @ (if raws = [] then joinWith 10 (c # rest) else lastCR raws @ 10 # joinWith 10 (c # rest))"
proof (cases "raws = []")
  case False
  then have r: "raws = butlast raws @ [List.last raws]" by simp
  have "joinWith 10 raws = yamlOf raws @ lastCR raws"
  proof (cases "butlast raws = []")
    case True
    then show ?thesis using False strip_lastCR [OF False] r by (metis append_Nil joinWith.simps(2) yamlOf_def)
  next
    case b: False
    have "joinWith 10 raws = joinWith 10 (butlast raws) @ 10 # List.last raws"
      using joinWith_append [OF b, of "[List.last raws]" 10] r by simp
    also have "\<dots> = joinWith 10 (butlast raws) @ 10 # stripCR (List.last raws) @ lastCR raws"
      using strip_lastCR [OF False] by simp
    also have "joinWith 10 (butlast raws) @ 10 # stripCR (List.last raws) @ lastCR raws = yamlOf raws @ lastCR raws"
      using joinWith_append [OF b, of "[stripCR (List.last raws)]" 10] False by (simp add: yamlOf_def)
    finally show ?thesis .
  qed
  then show ?thesis using joinWith_append [OF False, of "c # rest" 10] False by (simp add: noteOf_def joinWith_Cons)
qed (simp add: noteOf_def yamlOf_def joinWith_Cons)

lemma note_split: "noteOf l0 raws c rest = l0 @ 10 # joinWith 10 (raws @ c # rest)"
  by (simp add: noteOf_def joinWith_Cons)

lemma note_drop: "drop (length l0 + 1) (noteOf l0 raws c rest) = joinWith 10 (raws @ c # rest)"
  by (simp add: note_split)

lemma yaml_take: "take (length (yamlOf raws)) (joinWith 10 (raws @ c # rest)) = yamlOf raws"
proof -
  have "joinWith 10 (raws @ c # rest) = yamlOf raws
     @ (if raws = [] then joinWith 10 (c # rest) else lastCR raws @ 10 # joinWith 10 (c # rest))"
    using note_parts [of "[]" raws c rest] note_split [of "[]" raws c rest] by simp
  then show ?thesis by simp
qed

lemma joinWith_lines: "ls \<noteq> [] \<Longrightarrow> joinWith 10 (pre @ ls) = concat (map (\<lambda>y. y @ [10]) pre) @ joinWith 10 ls"
  by (induction pre) (simp_all add: joinWith_Cons)

lemma find_note:
  assumes "block l0 raws c"
  shows "openMark (noteOf l0 raws c rest) = Some (length l0 + 1)"
    "findFrontmatter (noteOf l0 raws c rest) = Some (yamlOf raws, length l0 + 1
       + (length (concat (map (\<lambda>y. y @ [10]) raws)) + the (closeMark (joinWith 10 (c # rest)))))"
proof -
  obtain cr where l: "l0 = stripCR l0 @ cr" "cr = [] \<or> cr = [13]" "clean (stripCR l0)"
    using assms tidyRaw_parts by (auto simp: block_def)
  have "noteOf l0 raws c rest = stripCR l0 @ cr @ 10 # joinWith 10 (raws @ c # rest)"
    using l(1) by (metis append.assoc note_split)
  then show o1: "openMark (noteOf l0 raws c rest) = Some (length l0 + 1)"
    using openMark_line [OF l(3,2)] assms l(1) by (metis block_def)
  have "findBody True (joinWith 10 (raws @ c # rest)) = Some (length (yamlOf raws),
      length (concat (map (\<lambda>y. y @ [10]) raws)) + the (closeMark (joinWith 10 (c # rest))))"
    using findBody_joined assms by (meson block_def)
  then show "findFrontmatter (noteOf l0 raws c rest) = Some (yamlOf raws, length l0 + 1
       + (length (concat (map (\<lambda>y. y @ [10]) raws)) + the (closeMark (joinWith 10 (c # rest)))))"
    using o1 yaml_take by (simp only: findFrontmatter_def option.case note_drop) simp
qed

text \<open>The body of the note depends on the closing mark and what follows it only.\<close>

lemma strip_note:
  assumes "block l0 raws c"
  shows "stripFrontmatter (noteOf l0 raws c rest)
    = drop (the (closeMark (joinWith 10 (c # rest)))) (joinWith 10 (c # rest))"
proof -
  have "noteOf l0 raws c rest = (l0 @ [10]) @ concat (map (\<lambda>y. y @ [10]) raws) @ joinWith 10 (c # rest)"
    using joinWith_lines [of "c # rest" raws] by (simp add: note_split)
  then show ?thesis using find_note(2) [OF assms, of rest] by (simp add: stripFrontmatter_def)
qed

lemma plainLine_tidy: "plainLine y \<Longrightarrow> tidyRaw y"
  by (simp add: plainLine_def)

lemma yamlRaws_no_feed:
  assumes "list_all plainLine raws" shows "list_all (\<lambda>y. 10 \<notin> set y) (yamlRaws raws)"
proof -
  have "10 \<notin> set y \<and> 10 \<notin> set (stripCR y)" if "y \<in> set raws" for y
  proof -
    have "tidyRaw y" using assms that by (simp add: list_all_iff plainLine_def)
    then show ?thesis using tidyRaw_no_feed clean_no_feed by (simp add: tidyRaw_def)
  qed
  then show ?thesis by (auto simp: yamlRaws_def list_all_iff dest: in_set_butlastD)
qed

lemma yamlRaws_ne [simp]: "yamlRaws raws = [] \<longleftrightarrow> raws = []"
  by (simp add: yamlRaws_def)

lemma strip_yamlRaws: "list_all plainLine raws \<Longrightarrow> map stripCR (yamlRaws raws) = map stripCR raws"
proof (cases "raws = []")
  case False
  assume "list_all plainLine raws"
  then have "plainLine (List.last raws)" using False by (simp add: list_all_iff)
  then have "clean (stripCR (List.last raws))" by (simp add: plainLine_def tidyRaw_def)
  then have "stripCR (stripCR (List.last raws)) = stripCR (List.last raws)" by (rule stripCR_clean)
  then show ?thesis using False by (simp add: yamlRaws_def map_butlast [symmetric])
    (metis append_butlast_last_id last_map list.map_disc_iff map_butlast)
qed (simp add: yamlRaws_def)

lemma yamlLines_note:
  assumes "list_all plainLine raws"
  shows "yamlLines (yamlOf raws) = (if raws = [] then [[]] else map stripCR raws)"
proof (cases "raws = []")
  case False
  have "splitOn 10 (yamlOf raws) = yamlRaws raws"
    unfolding yamlOf_raws using yamlRaws_no_feed [OF assms] False by (intro splitOn_joinWith) (auto simp: list_all_iff)
  moreover have "map stripCR (butlast (yamlRaws raws)) @ [List.last (yamlRaws raws)] = map stripCR raws"
    using False by (simp add: yamlRaws_def) (metis append_butlast_last_id last_map list.map_disc_iff map_butlast)
  ultimately show ?thesis using False by (simp add: yamlLines_def Let_def)
qed (simp add: yamlLines_def yamlOf_def)

lemma readLine_Nil: "readLine [] st = st"
  by (simp add: readLine_skipped skipped_def trim_def)

lemma parse_note:
  assumes "block l0 raws c"
  shows "parseFrontmatter (noteOf l0 raws c rest) = fst (fold readLine (map stripCR raws) (noProps, None))"
proof -
  obtain e where "findFrontmatter (noteOf l0 raws c rest) = Some (yamlOf raws, e)" using find_note(2) [OF assms] by metis
  then have "parseFrontmatter (noteOf l0 raws c rest) = parseFrontmatterYaml (yamlOf raws)" by (simp add: parseFrontmatter_def)
  also have "\<dots> = fst (fold readLine (map stripCR raws) (noProps, None))"
    using yamlLines_note [of raws] assms by (simp add: parseFrontmatterYaml_def block_def readLine_Nil)
  finally show ?thesis .
qed

text \<open>Every note with a block and plain line ends is one of these.\<close>

lemma note_exists:
  assumes "plainEols md" "findFrontmatter md \<noteq> None"
  obtains l0 raws c rest where "block l0 raws c" "md = noteOf l0 raws c rest"
proof -
  have ls: "list_all tidyRaw (splitOn 10 md)" "clean (List.last (splitOn 10 md))" using plainEols_lines [OF assms(1)] by blast+
  obtain l0 Ls where s: "splitOn 10 md = l0 # Ls" by (cases "splitOn 10 md") auto
  have md: "md = joinWith 10 (l0 # Ls)" using joinWith_splitOn [of 10 md] s by simp
  obtain o1 where o1: "openMark md = Some o1" using assms(2) by (auto simp: findFrontmatter_def split: option.splits)
  have t0: "tidyRaw l0" using ls(1) s by simp
  obtain cr where l0: "l0 = stripCR l0 @ cr" "cr = [] \<or> cr = [13]" "clean (stripCR l0)" using tidyRaw_parts [OF t0] .
  have ne: "Ls \<noteq> []"
  proof
    assume "Ls = []"
    then have m: "md = l0" "clean l0" using md ls(2) s by simp_all
    have nb: "lineBreak (drop n md) = None" for n
    proof (cases "drop n md")
      case (Cons ch cs)
      then have "ch \<in> set md" by (metis in_set_dropD list.set_intros(1))
      then have "\<not> isEol ch" using m by (auto simp: clean_def list_ex_iff)
      then show ?thesis unfolding Cons by (intro lineBreak_other) (auto simp: isEol_def)
    qed simp
    have "openMark md = None" by (simp add: openMark_def Let_def nb)
    then show False using o1 by simp
  qed
  have md2: "md = stripCR l0 @ cr @ 10 # joinWith 10 Ls"
    using md l0(1) ne joinWith_Cons [OF ne, of 10 l0] by (metis append.assoc)
  then have op: "openLine (stripCR l0)" "o1 = length l0 + 1"
    using openMark_line [OF l0(3,2), of "joinWith 10 Ls"] o1 l0(1) by (metis option.distinct(1), metis option.distinct(1) option.inject)
  have d: "drop o1 md = joinWith 10 Ls" using op(2) md ne by (simp add: joinWith_Cons)
  have "\<not> list_all plainLine Ls"
  proof
    assume "list_all plainLine Ls"
    then have "findBody True (joinWith 10 Ls) = None" using findBody_none ne ls(2) s by simp
    then show False using assms(2) o1 d by (simp add: findFrontmatter_def)
  qed
  then obtain x where "x \<in> set Ls" "\<not> plainLine x" by (auto simp: list_all_iff)
  then obtain raws c rest where p: "Ls = raws @ c # rest" "\<not> plainLine c" "\<forall>y \<in> set raws. plainLine y"
    using split_list_first_prop [of Ls "\<lambda>y. \<not> plainLine y"] by blast
  have "tidyRaw c" using ls(1) s p(1) by simp
  then have "block l0 raws c" using t0 op(1) p by (simp add: block_def plainLine_def list_all_iff)
  then show ?thesis using that md p(1) by (simp add: noteOf_def)
qed

section \<open>The scan line by line\<close>

definition off :: "jsstr list \<Rightarrow> nat" where
  "off ys = sum_list (map (\<lambda>y. length y + 1) ys)"

lemma off_simps [simp]: "off [] = 0" "off (y # ys) = length y + 1 + off ys" "off (xs @ ys) = off xs + off ys"
  by (simp_all add: off_def)

fun scanLines :: "nat \<Rightarrow> jsstr list \<Rightarrow> fm_entry list \<times> bool \<Rightarrow> fm_entry list \<times> bool" where
  "scanLines pos [] st = st"
| "scanLines pos (y # ys) st = scanLines (pos + length y + 1) ys (scanLine pos (stripCR y) st)"

lemma scanLines_snoc: "scanLines pos (ys @ [y]) st = scanLine (pos + off ys) (stripCR y) (scanLines pos ys st)"
  by (induction ys arbitrary: pos st) (simp_all add: algebra_simps)

lemma keyLine_Nil [simp]: "keyLine [] = None"
  by (simp add: keyLine_def bareKey_def quotedKey_def quoted_def)

lemma scanLine_Nil [simp]: "scanLine pos [] st = st"
  by (simp add: scanLine_def isContinuation_def trim_def split: prod.splits)

lemma indexOf_append: "c \<notin> set a \<Longrightarrow> indexOf c (a @ b) = map_option ((+) (length a)) (indexOf c b)"
  by (induction a; cases "indexOf c b") auto

lemma scanLoop_lines:
  assumes "ys \<noteq> []" "list_all (\<lambda>y. 10 \<notin> set y) ys"
  shows "scanLoop (A @ joinWith 10 ys @ B) (length A + length (joinWith 10 ys)) (length A) st = fst (scanLines (length A) ys st)"
  using assms
proof (induction ys arbitrary: A st)
  case (Cons y ys)
  let ?md = "A @ joinWith 10 (y # ys) @ B" and ?stop = "length A + length (joinWith 10 (y # ys))"
  have y: "10 \<notin> set y" using Cons.prems by simp
  show ?case
  proof (cases ys)
    case Nil
    have i: "indexFrom (length A) ?md = map_option (\<lambda>n. length A + (length y + n)) (indexOf 10 B)"
      using Nil indexOf_append [OF y, of B] by (simp add: indexFrom_def option.map_comp comp_def)
    have e: "(case indexFrom (length A) ?md of None \<Rightarrow> ?stop | Some nl \<Rightarrow> if ?stop < nl then ?stop else nl) = ?stop"
      unfolding i using Nil by (cases "indexOf 10 B") auto
    have sl: "jsSlice (length A) ?stop ?md = y" using Nil by (simp add: jsSlice_def)
    show ?thesis
    proof (cases "y = []")
      case True
      then show ?thesis using Nil by (simp add: scanLoop.simps)
    next
      case False
      then show ?thesis using e sl Nil
        by (subst scanLoop.simps) (simp add: Let_def)
    qed
  next
    case (Cons y' ys')
    let ?B = "10 # joinWith 10 ys @ B"
    have md: "?md = A @ y @ ?B" using Cons by simp
    have i: "indexFrom (length A) ?md = Some (length A + length y)"
      unfolding md using indexOf_append [OF y, of ?B] by (simp add: indexFrom_def)
    have stop: "?stop = length A + length y + 1 + length (joinWith 10 ys)" using Cons by simp
    have e: "(case indexFrom (length A) ?md of None \<Rightarrow> ?stop | Some nl \<Rightarrow> if ?stop < nl then ?stop else nl) = length A + length y"
      unfolding i stop by simp
    have sl: "jsSlice (length A) (length A + length y) ?md = y" unfolding md by (simp add: jsSlice_def)
    have IH: "scanLoop ((A @ y @ [10]) @ joinWith 10 ys @ B) (length (A @ y @ [10]) + length (joinWith 10 ys))
        (length (A @ y @ [10])) (scanLine (length A) (stripCR y) st)
      = fst (scanLines (length (A @ y @ [10])) ys (scanLine (length A) (stripCR y) st))"
      using Cons Cons.prems by (intro Cons.IH) simp_all
    have "scanLoop ?md ?stop (length A) st
        = scanLoop ?md ?stop (length A + length y + 1) (scanLine (length A) (stripCR y) st)"
      by (subst scanLoop.simps) (simp only: Let_def e sl, simp add: stop)
    then show ?thesis using IH md stop by (simp add: algebra_simps)
  qed
qed simp

lemma scan_note:
  assumes "block l0 raws c"
  shows "\<exists>e. scan (noteOf l0 raws c rest) =
    Some \<lparr>yamlStart = length l0 + 1, yamlEnd = length l0 + 1 + length (yamlOf raws), blockEnd = e,
      eolText = eolOf (noteOf l0 raws c rest), fmEntries = fst (scanLines (length l0 + 1) (yamlRaws raws) ([], False))\<rparr>"
proof -
  let ?md = "noteOf l0 raws c rest"
  obtain e where f: "findFrontmatter ?md = Some (yamlOf raws, e)" using find_note(2) [OF assms] by metis
  note o1 = find_note(1) [OF assms]
  have "scanLoop ?md (length l0 + 1 + length (yamlOf raws)) (length l0 + 1) ([], False)
      = fst (scanLines (length l0 + 1) (yamlRaws raws) ([], False))"
  proof (cases "raws = []")
    case True
    then show ?thesis by (simp add: scanLoop.simps yamlOf_def yamlRaws_def)
  next
    case False
    have "list_all plainLine raws" using assms by (simp add: block_def)
    then have nf: "list_all (\<lambda>y. 10 \<notin> set y) (yamlRaws raws)" by (rule yamlRaws_no_feed)
    have md: "?md = (l0 @ [10]) @ joinWith 10 (yamlRaws raws) @ lastCR raws @ 10 # joinWith 10 (c # rest)"
      using note_parts [of l0 raws c rest] False by (simp add: yamlOf_raws)
    show ?thesis
      using scanLoop_lines [of "yamlRaws raws" "l0 @ [10]" "lastCR raws @ 10 # joinWith 10 (c # rest)" "([], False)"] nf False
      unfolding md yamlOf_raws by simp
  qed
  then show ?thesis using f o1 by (simp add: scan_def)
qed

section \<open>Where an entry is\<close>

definition keyIs :: "jsstr \<Rightarrow> jsstr \<Rightarrow> bool" where
  "keyIs key y \<longleftrightarrow> (case keyLine (stripCR y) of None \<Rightarrow> False | Some (t, _) \<Rightarrow> readKey t = key)"

text \<open>The entry \<open>e\<close> starts at the line \<open>y0\<close> after the lines \<open>pre\<close> and goes on with the lines \<open>ys\<close>.\<close>

definition entryAt :: "nat \<Rightarrow> jsstr list \<Rightarrow> jsstr \<Rightarrow> jsstr list \<Rightarrow> fm_entry \<Rightarrow> bool" where
  "entryAt start pre y0 ys e \<longleftrightarrow>
     (\<exists>t v. keyLine (stripCR y0) = Some (t, v) \<and> feKey e = readKey t \<and> feKeyStart e = start + off pre
        \<and> feKeyEnd e = feKeyStart e + length t \<and> feLineStart e = feKeyStart e
        \<and> feInline e = (case v of None \<Rightarrow> [] | Some v \<Rightarrow> trim v))
     \<and> feEnd e = start + off (pre @ butlast (y0 # ys)) + length (stripCR (List.last (y0 # ys)))
     \<and> (case feItemPrefix e of None \<Rightarrow> True | Some p \<Rightarrow> prefixOk p)
     \<and> list_all (\<lambda>y. keyLine (stripCR y) = None) ys"

definition lastFor :: "jsstr \<Rightarrow> fm_entry list \<Rightarrow> fm_entry option" where
  "lastFor key es = find (\<lambda>e. feKey e = key) (rev es)"

definition located :: "jsstr \<Rightarrow> nat \<Rightarrow> jsstr list \<Rightarrow> fm_entry list \<times> bool \<Rightarrow> bool" where
  "located key start ys st \<longleftrightarrow> (snd st \<longrightarrow> fst st \<noteq> []) \<and>
     (case lastFor key (fst st) of
        None \<Rightarrow> list_all (\<lambda>y. \<not> keyIs key y) ys
      | Some e \<Rightarrow> \<exists>pre y0 cs post. ys = pre @ (y0 # cs) @ post \<and> entryAt start pre y0 cs e
          \<and> list_all (\<lambda>y. \<not> keyIs key y) post
          \<and> (if snd st \<and> feKey (List.last (fst st)) = key then list_all skipped (map stripCR post)
             else \<not> list_all skipped (map stripCR post) \<and> closedPost (map stripCR post)))"

lemma lastFor_snoc: "lastFor key (es @ [e]) = (if feKey e = key then Some e else lastFor key es)"
  by (simp add: lastFor_def)

lemma lastFor_last: "es \<noteq> [] \<Longrightarrow> feKey (List.last es) = key \<Longrightarrow> lastFor key es = Some (List.last es)"
  by (cases es rule: rev_cases) (simp_all add: lastFor_snoc)

lemma lastFor_key: "lastFor key es = Some e \<Longrightarrow> feKey e = key"
  by (auto simp: lastFor_def find_Some_iff)

lemma skipped_keyless: "skipped line \<Longrightarrow> keyLine line = None"
  using keyLine_kind(1) by (metis option.exhaust prod.exhaust)

lemma closedPost_snoc: "\<not> list_all skipped ls \<Longrightarrow> closedPost ls \<Longrightarrow> closedPost (ls @ [l])"
proof -
  assume a: "\<not> list_all skipped ls" "closedPost ls"
  then obtain x where "x \<in> set ls" "\<not> skipped x" by (auto simp: list_all_iff)
  then have d: "dropWhile skipped (ls @ [l]) = dropWhile skipped ls @ [l]" by (rule dropWhile_append1)
  moreover have "dropWhile skipped ls \<noteq> []" using a(1) by (auto simp: list_all_iff)
  ultimately show ?thesis using a(2) by (cases "dropWhile skipped ls") (simp_all add: closedPost_def)
qed

lemma closedPost_first: "list_all skipped ls \<Longrightarrow> \<not> skipped l \<Longrightarrow> \<not> isContinuation l \<Longrightarrow> closedPost (ls @ [l])"
  by (simp add: closedPost_def dropWhile_all_append)

lemma itemPrefix_ok: "itemPrefix line = Some p \<Longrightarrow> clean line \<Longrightarrow> prefixOk p"
proof -
  assume a: "itemPrefix line = Some p" "clean line"
  let ?sp = "takeWhile isSpace line"
  let ?r = "drop (length ?sp) line"
  have r: "take 1 ?r = [45]" "takeWhile isSpace (tl ?r) \<noteq> []" "p = ?sp @ [45] @ takeWhile isSpace (tl ?r)"
    using a(1) by (simp_all add: itemPrefix_def Let_def split: if_splits)
  have "list_all isSpace ?sp" "list_all isSpace (takeWhile isSpace (tl ?r))"
    by (auto simp: list_all_iff dest: set_takeWhileD)
  moreover have "clean ?sp" using a(2) by (metis clean_simps(3) takeWhile_dropWhile_id)
  moreover have "clean (takeWhile isSpace (tl ?r))"
  proof -
    have "set (takeWhile isSpace (tl ?r)) \<subseteq> set line"
      by (metis drop_Suc set_drop_subset set_takeWhileD subset_code(1) tl_drop)
    then show ?thesis using a(2) by (auto simp: clean_def list_ex_iff)
  qed
  moreover have "\<not> isEol 45" by (simp add: isEol_def)
  ultimately show ?thesis using r(2,3) unfolding prefixOk_def clean_def by auto
qed

text \<open>One line.\<close>

lemma located_other:
  assumes l: "located key start ys (es, cur)" and k: "\<not> keyIs key y"
    and st: "lastFor key es' = lastFor key es" "cur' \<longrightarrow> es' \<noteq> []"
    and new: "\<not> (cur' \<and> feKey (List.last es') = key)"
    and first: "cur \<and> feKey (List.last es) = key \<longrightarrow> \<not> skipped (stripCR y) \<and> \<not> isContinuation (stripCR y)"
  shows "located key start (ys @ [y]) (es', cur')"
proof (cases "lastFor key es")
  case None
  then show ?thesis using l k st by (simp add: located_def)
next
  case (Some e)
  obtain pre y0 cs post where p: "ys = pre @ (y0 # cs) @ post" "entryAt start pre y0 cs e"
    "list_all (\<lambda>y. \<not> keyIs key y) post"
    "if cur \<and> feKey (List.last es) = key then list_all skipped (map stripCR post)
     else \<not> list_all skipped (map stripCR post) \<and> closedPost (map stripCR post)"
    using l Some by (auto simp: located_def)
  have c: "\<not> list_all skipped (map stripCR (post @ [y]))"
    using p(4) first by (cases "cur \<and> feKey (List.last es) = key") auto
  have d: "closedPost (map stripCR post @ [stripCR y])"
  proof (cases "cur \<and> feKey (List.last es) = key")
    case True
    then show ?thesis using p(4) first by (intro closedPost_first) simp_all
  next
    case False
    then have q: "\<not> list_all skipped (map stripCR post) \<and> closedPost (map stripCR post)" using p(4) by presburger
    show ?thesis by (rule closedPost_snoc) (use q in blast)+
  qed
  have "\<exists>pre y0 cs post. ys @ [y] = pre @ (y0 # cs) @ post \<and> entryAt start pre y0 cs e
      \<and> list_all (\<lambda>y. \<not> keyIs key y) post \<and> \<not> list_all skipped (map stripCR post) \<and> closedPost (map stripCR post)"
    by (rule exI [of _ pre], rule exI [of _ y0], rule exI [of _ cs], rule exI [of _ "post @ [y]"])
      (use p(1-3) k c d in simp)
  then show ?thesis using st(2) unfolding located_def fst_conv snd_conv st(1) Some option.case if_not_P [OF new] by blast
qed

lemma located_skipped:
  assumes l: "located key start ys (es, cur)" and y: "skipped (stripCR y)"
  shows "located key start (ys @ [y]) (es, cur)"
proof (cases "lastFor key es")
  case None
  have "\<not> keyIs key y" using skipped_keyless [OF y] by (simp add: keyIs_def)
  then show ?thesis using l None by (simp add: located_def)
next
  case (Some e)
  let ?B = "cur \<and> feKey (List.last es) = key"
  obtain pre y0 cs post where p: "ys = pre @ (y0 # cs) @ post" "entryAt start pre y0 cs e"
    "list_all (\<lambda>y. \<not> keyIs key y) post"
    "if ?B then list_all skipped (map stripCR post)
     else \<not> list_all skipped (map stripCR post) \<and> closedPost (map stripCR post)"
    using l Some by (auto simp: located_def)
  have "if ?B then list_all skipped (map stripCR (post @ [y]))
     else \<not> list_all skipped (map stripCR (post @ [y])) \<and> closedPost (map stripCR (post @ [y]))"
  proof (cases ?B)
    case True
    then show ?thesis using p(4) y by simp
  next
    case False
    then have q: "\<not> list_all skipped (map stripCR post) \<and> closedPost (map stripCR post)" using p(4) by presburger
    then show ?thesis using False closedPost_snoc [of "map stripCR post"] by simp
  qed
  moreover have "\<not> keyIs key y" using skipped_keyless [OF y] by (simp add: keyIs_def)
  ultimately have "\<exists>pre y0 cs post. ys @ [y] = pre @ (y0 # cs) @ post \<and> entryAt start pre y0 cs e
      \<and> list_all (\<lambda>y. \<not> keyIs key y) post \<and> (if ?B then list_all skipped (map stripCR post)
     else \<not> list_all skipped (map stripCR post) \<and> closedPost (map stripCR post))"
    using p(1-3) by (intro exI [of _ pre] exI [of _ y0] exI [of _ cs] exI [of _ "post @ [y]"]) simp
  then show ?thesis using l unfolding located_def fst_conv snd_conv Some option.case by blast
qed

lemma located_scanLine:
  assumes l: "located key start ys st" and y: "clean (stripCR y)"
  shows "located key start (ys @ [y]) (scanLine (start + off ys) (stripCR y) st)"
proof -
  obtain es cur where st: "st = (es, cur)" by (cases st)
  let ?l = "stripCR y" and ?pos = "start + off ys"
  have l': "located key start ys (es, cur)" using l st by simp
  have ne: "cur \<longrightarrow> es \<noteq> []" using l' by (simp add: located_def)
  show ?thesis
  proof (cases "keyLine ?l")
    case (Some kv)
    obtain t v where kv: "keyLine ?l = Some (t, v)" using Some by (cases kv) auto
    define e where "e = \<lparr>feKey = readKey t, feKeyStart = ?pos, feKeyEnd = ?pos + length t, feLineStart = ?pos,
      feInline = (case v of None \<Rightarrow> [] | Some v \<Rightarrow> trim v), feEnd = ?pos + length ?l, feItemPrefix = None\<rparr>"
    have s: "scanLine ?pos ?l st = (es @ [e], True)" using kv st by (simp add: scanLine_def e_def)
    show ?thesis
    proof (cases "readKey t = key")
      case True
      have "entryAt start ys y [] e" using kv by (simp add: entryAt_def e_def)
      then have "\<exists>pre y0 cs post. ys @ [y] = pre @ (y0 # cs) @ post \<and> entryAt start pre y0 cs e
          \<and> list_all (\<lambda>y. \<not> keyIs key y) post \<and> list_all skipped (map stripCR post)"
        by (intro exI [of _ ys] exI [of _ y] exI [of _ "[]"]) simp
      moreover have "feKey e = key" using True by (simp add: e_def)
      ultimately show ?thesis unfolding s located_def fst_conv snd_conv by (simp add: lastFor_snoc)
    next
      case False
      then have "feKey e \<noteq> key" by (simp add: e_def)
      moreover have "\<not> keyIs key y" using kv False by (simp add: keyIs_def)
      ultimately show ?thesis unfolding s using keyLine_kind [OF kv]
        by (intro located_other [OF l']) (simp_all add: lastFor_snoc)
    qed
  next
    case None
    then have nk: "\<not> keyIs key y" by (simp add: keyIs_def)
    show ?thesis
    proof (cases "cur \<and> isContinuation ?l")
      case True
      let ?e = "continueEntry (?pos + length ?l) ?l (List.last es)"
      have s: "scanLine ?pos ?l st = (butlast es @ [?e], True)" using None True st by (simp add: scanLine_def)
      have es: "es \<noteq> []" "es = butlast es @ [List.last es]" using ne True by simp_all
      have fk: "feKey ?e = feKey (List.last es)" by (simp add: continueEntry_def)
      show ?thesis
      proof (cases "feKey (List.last es) = key")
        case k: True
        have lf: "lastFor key es = Some (List.last es)" by (rule lastFor_last [OF es(1) k])
        obtain pre y0 cs post where p: "ys = pre @ (y0 # cs) @ post" "entryAt start pre y0 cs (List.last es)"
          "list_all (\<lambda>y. \<not> keyIs key y) post" "list_all skipped (map stripCR post)"
          using l' True k lf by (auto simp: located_def)
        have sk: "list_all (\<lambda>y. keyLine (stripCR y) = None) post"
          using p(4) skipped_keyless by (auto simp: list_all_iff)
        have pf: "case feItemPrefix ?e of None \<Rightarrow> True | Some p \<Rightarrow> prefixOk p"
          using p(2) itemPrefix_ok [OF _ y] by (auto simp: entryAt_def continueEntry_def split: option.splits)
        have "entryAt start pre y0 (cs @ post @ [y]) ?e"
          using p(1,2) sk None pf unfolding entryAt_def
          by (auto simp: continueEntry_def butlast_append)
        then have "\<exists>pre y0 cs post. ys @ [y] = pre @ (y0 # cs) @ post \<and> entryAt start pre y0 cs ?e
            \<and> list_all (\<lambda>y. \<not> keyIs key y) post \<and> list_all skipped (map stripCR post)"
          using p(1) by (intro exI [of _ pre] exI [of _ y0] exI [of _ "cs @ post @ [y]"] exI [of _ "[]"]) simp
        then show ?thesis unfolding s located_def fst_conv snd_conv using k fk by (simp add: lastFor_snoc)
      next
        case k: False
        have "lastFor key (butlast es @ [?e]) = lastFor key es"
          using k fk es(2) lastFor_snoc [of key "butlast es" ?e] lastFor_snoc [of key "butlast es" "List.last es"] by simp
        then show ?thesis unfolding s using k fk nk
          by (intro located_other [OF l']) simp_all
      qed
    next
      case False
      show ?thesis
      proof (cases "skipped ?l")
        case sk: True
        then have "scanLine ?pos ?l st = (es, cur)" using None False st by (auto simp: scanLine_def skipped_def)
        then show ?thesis using located_skipped [OF l' sk] by simp
      next
        case sk: False
        then have s: "scanLine ?pos ?l st = (es, False)" using None False st by (auto simp: scanLine_def skipped_def)
        show ?thesis unfolding s using sk False nk by (intro located_other [OF l']) auto
      qed
    qed
  qed
qed

lemma located_scanLines: "list_all (\<lambda>y. clean (stripCR y)) ys \<Longrightarrow> located key start ys (scanLines start ys ([], False))"
proof (induction ys rule: rev_induct)
  case (snoc y ys)
  then show ?case using located_scanLine [of key start ys "scanLines start ys ([], False)" y]
    by (simp add: scanLines_snoc)
qed (simp add: located_def lastFor_def)

end
