(* ===== verification/FrontmatterCorrect.thy ===== *)
theory FrontmatterCorrect
  imports FrontmatterScan
begin

text \<open>
  The properties of the front matter: what \<open>setFrontmatterValue\<close> writes is what the next reading
  finds, the other properties and the body of the note do not change.
\<close>

section \<open>The lines that are written\<close>










section \<open>Notes made of lines\<close>

text \<open>Lines of YAML put back into a note.\<close>

definition withCR :: "jsstr list \<Rightarrow> jsstr \<Rightarrow> jsstr list" where
  "withCR ys cr = butlast ys @ [List.last ys @ cr]"


lemma withCR_ne [simp]: "withCR ys cr \<noteq> []"
  by (simp add: withCR_def)





section \<open>Setting a value\<close>
























end
